theory Spec2Isabelle
  imports Main "HOL-Library.Multiset"
begin

unbundle bit_operations_syntax

section \<open>Topology-aware communication package: raptor/core/tap_comm.cpp\<close>

text \<open>
  The development follows \<^verbatim>\<open>src/raptor/core/tap_comm.cpp\<close>. Every process of the
  MPI job runs the same code; a process is identified by its rank in
  \<^verbatim>\<open>MPI_COMM_WORLD\<close>, which the model passes explicitly wherever the source calls
  \<^verbatim>\<open>MPI_Comm_rank\<close>.
\<close>

subsection \<open>C integer division\<close>

text \<open>
  C++ \<^verbatim>\<open>/\<close> and \<^verbatim>\<open>%\<close> on \<^verbatim>\<open>int\<close> truncate towards zero, whereas
  \<open>div\<close> and \<open>mod\<close> on \<^typ>\<open>int\<close> round down. Division by zero is undefined in
  C++; the definitions below return \<open>0\<close> and the dividend there, and no theorem relies
  on that case.
\<close>

definition c_div :: "int \<Rightarrow> int \<Rightarrow> int" where
  "c_div a b = (if (a < 0) = (b < 0) then \<bar>a\<bar> div \<bar>b\<bar> else - (\<bar>a\<bar> div \<bar>b\<bar>))"

definition c_mod :: "int \<Rightarrow> int \<Rightarrow> int" where
  "c_mod a b = a - c_div a b * b"

subsection \<open>Cached topology constants of a TAPComm object\<close>

text \<open>
  \<open>PPN\<close> and \<open>num_nodes\<close> are process and host counts, \<open>rank_ordering\<close> is the
  rank-layout policy. \<open>eager_cutoff\<close>, \<open>short_cutoff\<close> and \<open>ideal_n_comm\<close> are
  set in the header \<^verbatim>\<open>comm_pkg.hpp\<close>, not in \<^verbatim>\<open>tap_comm.cpp\<close>: they are kept as
  fields, so every result holds for all their values unless a hypothesis says otherwise.
\<close>

record tap_comm =
  PPN :: nat
  num_nodes :: nat
  rank_ordering :: int
  eager_cutoff :: nat
  short_cutoff :: nat
  ideal_n_comm :: nat

subsection \<open>Topology mapper: get_node, get_local_proc, get_global_proc\<close>

definition unsupported_msg :: string where
  "unsupported_msg = ''This MPI rank ordering is not supported!''"

text \<open>
  Each function returns what it printed together with its return value. The argument
  \<open>rank\<close> is the rank of the calling process (\<^verbatim>\<open>MPI_Comm_rank(MPI_COMM_WORLD, &rank)\<close>).
\<close>

definition get_node_run :: "tap_comm \<Rightarrow> int \<Rightarrow> int \<Rightarrow> string list \<times> int" where
  "get_node_run c rank proc =
     (if rank_ordering c = 0 then ([], c_mod proc (int (num_nodes c)))
      else if rank_ordering c = 1 then ([], c_div proc (int (PPN c)))
      else if rank_ordering c = 2 then
        (if c_mod (c_div proc (int (num_nodes c))) 2 = 0
         then ([], c_mod proc (int (num_nodes c)))
         else ([], int (num_nodes c) - c_mod proc (int (num_nodes c)) - 1))
      else (if rank = 0 then [unsupported_msg] else [], - 1))"

definition get_local_proc_run :: "tap_comm \<Rightarrow> int \<Rightarrow> int \<Rightarrow> string list \<times> int" where
  "get_local_proc_run c rank proc =
     (if rank_ordering c = 0 \<or> rank_ordering c = 2
      then ([], c_div proc (int (num_nodes c)))
      else if rank_ordering c = 1 then ([], c_mod proc (int (PPN c)))
      else (if rank = 0 then [unsupported_msg] else [], - 1))"

definition get_global_proc_run :: "tap_comm \<Rightarrow> int \<Rightarrow> int \<Rightarrow> int \<Rightarrow> string list \<times> int" where
  "get_global_proc_run c rank node local_proc =
     (if rank_ordering c = 0 then ([], local_proc * int (num_nodes c) + node)
      else if rank_ordering c = 1 then ([], local_proc + node * int (PPN c))
      else if rank_ordering c = 2 then
        (if c_mod (c_div rank (int (num_nodes c))) 2 = 0
         then ([], local_proc * int (num_nodes c) + node)
         else ([], local_proc * int (num_nodes c) + int (num_nodes c) - node - 1))
      else (if rank = 0 then [unsupported_msg] else [], - 1))"

definition get_node :: "tap_comm \<Rightarrow> int \<Rightarrow> int \<Rightarrow> int" where
  "get_node c rank proc = snd (get_node_run c rank proc)"

definition get_local_proc :: "tap_comm \<Rightarrow> int \<Rightarrow> int \<Rightarrow> int" where
  "get_local_proc c rank proc = snd (get_local_proc_run c rank proc)"

definition get_global_proc :: "tap_comm \<Rightarrow> int \<Rightarrow> int \<Rightarrow> int \<Rightarrow> int" where
  "get_global_proc c rank node local_proc = snd (get_global_proc_run c rank node local_proc)"

subsection \<open>Column classifier: split_off_proc_cols\<close>

text \<open>
  The six result vectors are passed by reference and only ever appended to; the two inputs
  are \<^verbatim>\<open>const std::vector<int>&\<close>. The model threads the six vectors as a record and
  leaves the inputs as plain arguments.
\<close>

record split_vectors =
  on_node_column_map :: "int list"
  on_node_col_to_proc :: "int list"
  on_node_to_off_proc :: "nat list"
  off_node_column_map :: "int list"
  off_node_col_to_node :: "int list"
  off_node_to_off_proc :: "nat list"

definition empty_split :: split_vectors where
  "empty_split = \<lparr>on_node_column_map = [], on_node_col_to_proc = [],
     on_node_to_off_proc = [], off_node_column_map = [], off_node_col_to_node = [],
     off_node_to_off_proc = []\<rparr>"

text \<open>One iteration of the scan, at position \<open>i\<close>.\<close>

definition split_step ::
  "tap_comm \<Rightarrow> int \<Rightarrow> int list \<Rightarrow> int list \<Rightarrow> nat \<Rightarrow> split_vectors \<Rightarrow> split_vectors" where
  "split_step c rank off_proc_column_map off_proc_col_to_proc i s =
     (let rank_node = get_node c rank rank;
          proc = off_proc_col_to_proc ! i;
          node = get_node c rank proc;
          global_col = off_proc_column_map ! i
      in if node = rank_node
         then s\<lparr>on_node_column_map := on_node_column_map s @ [global_col],
                on_node_col_to_proc := on_node_col_to_proc s @ [get_local_proc c rank proc],
                on_node_to_off_proc := on_node_to_off_proc s @ [i]\<rparr>
         else s\<lparr>off_node_column_map := off_node_column_map s @ [global_col],
                off_node_col_to_node := off_node_col_to_node s @ [node],
                off_node_to_off_proc := off_node_to_off_proc s @ [i]\<rparr>)"

definition split_off_proc_cols ::
  "tap_comm \<Rightarrow> int \<Rightarrow> int list \<Rightarrow> int list \<Rightarrow> split_vectors \<Rightarrow> split_vectors" where
  "split_off_proc_cols c rank off_proc_column_map off_proc_col_to_proc s =
     fold (split_step c rank off_proc_column_map off_proc_col_to_proc)
       [0..<length off_proc_column_map] s"

text \<open>The test of line 64 at position \<open>i\<close>: the owner's host is the caller's host.\<close>

definition on_node_at :: "tap_comm \<Rightarrow> int \<Rightarrow> int list \<Rightarrow> nat \<Rightarrow> bool" where
  "on_node_at c rank col_to_proc i \<longleftrightarrow>
     get_node c rank (col_to_proc ! i) = get_node c rank rank"

subsection \<open>Host discovery and load balancer: gather_off_node_nodes\<close>

text \<open>
  \<^verbatim>\<open>int_size = sizeof(int)\<close>, taken as 4. The bitmap therefore uses four bits of
  every word. Host ids (below \<open>num_nodes\<close>) and volumes are indices and counts, modelled
  as \<^typ>\<open>nat\<close>.
\<close>

definition int_size :: nat where
  "int_size = 4"

definition bitmap_len :: "tap_comm \<Rightarrow> nat" where
  "bitmap_len c =
     (let N = num_nodes c div int_size
      in if num_nodes c mod int_size \<noteq> 0 then N + 1 else N)"

text \<open>
  The first loop of one process: its bitmap \<open>tmp_recv_nodes\<close> and its per-host counts
  \<open>node_sizes\<close>.
\<close>

definition mark_step :: "nat \<Rightarrow> int list \<times> nat list \<Rightarrow> int list \<times> nat list" where
  "mark_step node s =
     (let idx = node div int_size; pos = node mod int_size
      in ((fst s)[idx := (fst s) ! idx OR push_bit pos 1],
          (snd s)[node := (snd s) ! node + 1]))"

definition mark_nodes :: "tap_comm \<Rightarrow> nat list \<Rightarrow> int list \<times> nat list" where
  "mark_nodes c cols =
     fold mark_step cols
       (replicate (bitmap_len c) 0, replicate (num_nodes c) 0)"

text \<open>
  \<^verbatim>\<open>MPI_Allreduce\<close> over \<open>local_comm\<close>: the argument lists the contribution of every
  process of the host, and every process receives the element-wise reduction.
\<close>

definition allreduce_bor :: "nat \<Rightarrow> int list list \<Rightarrow> int list" where
  "allreduce_bor n contribs = map (\<lambda>k. fold (\<lambda>v acc. acc OR v ! k) contribs 0) [0..<n]"

definition allreduce_sum :: "nat \<Rightarrow> nat list list \<Rightarrow> nat list" where
  "allreduce_sum n contribs = map (\<lambda>k. sum_list (map (\<lambda>v. v ! k) contribs)) [0..<n]"

text \<open>Decoding the reduced bitmap: lines 118 to 129.\<close>

definition decode_nodes :: "nat \<Rightarrow> int list \<Rightarrow> nat list" where
  "decode_nodes N nodal_recv_nodes =
     concat (map (\<lambda>i. map (\<lambda>j. i * int_size + j)
                         (filter (\<lambda>j. drop_bit j (nodal_recv_nodes ! i) AND 1 = 1)
                            [0..<int_size]))
                [0..<N])"

text \<open>
  \<^verbatim>\<open>std::sort(p.begin(), p.end(), comp)\<close> with
  \<^verbatim>\<open>comp(lhs, rhs) = sizes[lhs] > sizes[rhs]\<close>, applied to \<open>0, 1, ..., ctr - 1\<close>.
  The library routine is not part of the repository. It is represented by its contract in
  the C++ standard: the result is a rearrangement of the input in which no later element
  compares before an earlier one. The standard leaves the order of equivalent elements
  open (that is what distinguishes \<^verbatim>\<open>std::sort\<close> from \<^verbatim>\<open>std::stable_sort\<close>).
  The functions below take the sorted vector \<open>p\<close> as an argument, so that what is
  proved of them holds for every implementation of the library. The implementation of
  the GNU library is given further down; it is proved to return a vector that satisfies
  this contract.
\<close>

definition std_sort_desc :: "nat list \<Rightarrow> nat list \<Rightarrow> bool" where
  "std_sort_desc sizes p \<longleftrightarrow>
     length p = length sizes \<and> distinct p \<and> (\<forall>i \<in> set p. i < length sizes) \<and>
     sorted_wrt (\<lambda>a b. \<not> sizes ! b > sizes ! a) p"

text \<open>
  The fan-out loop, lines 158 to 183; the last branch is the \<^verbatim>\<open>break\<close>. The vector
  \<open>p\<close> is created with \<open>ctr\<close> entries (line 146), so the loop over \<open>i < ctr\<close> with
  \<open>idx = p[i]\<close> is a recursion over the entries of \<open>p\<close>.
\<close>

fun fan_out_loop :: "tap_comm \<Rightarrow> nat \<Rightarrow> nat list \<Rightarrow> nat list \<Rightarrow> nat list \<Rightarrow> nat list" where
  "fan_out_loop c ctr sizes [] nodal_num_local = nodal_num_local"
| "fan_out_loop c ctr sizes (idx # rest) nodal_num_local =
     (let size = sizes ! idx
      in if size > eager_cutoff c
         then (let n_procs = size div eager_cutoff c;
                   n_procs = (if n_procs \<ge> PPN c then ideal_n_comm c else n_procs)
               in fan_out_loop c ctr sizes rest (nodal_num_local[idx := n_procs]))
         else if size > short_cutoff c \<and> ctr < PPN c
         then (let n_procs = size div short_cutoff c;
                   n_procs = (if n_procs \<ge> PPN c then PPN c else n_procs)
               in fan_out_loop c ctr sizes rest (nodal_num_local[idx := n_procs]))
         else nodal_num_local)"

text \<open>
  The in-place reorder, lines 186 to 202. Its loop bound \<open>ctr\<close> is the length of \<open>p\<close>;
  outside the range of an array the C++ has no defined behaviour, and the theorems about
  the reorder assume arrays of that length.
\<close>

definition swap_at :: "nat \<Rightarrow> nat \<Rightarrow> 'a list \<Rightarrow> 'a list" where
  "swap_at a b xs = xs[a := xs ! b, b := xs ! a]"

text \<open>
  The inner \<^verbatim>\<open>while (i != j)\<close> loop. It need not terminate when \<open>p\<close> is not a
  permutation, so it is a partial function: \<open>None\<close> stands for a loop that never exits.
  The state is \<open>(recv_nodes, nodal_num_local, done)\<close>.
\<close>

partial_function (option) follow_cycle ::
  "nat list \<Rightarrow> nat \<Rightarrow> nat \<Rightarrow> nat \<Rightarrow> 'a list \<times> 'b list \<times> bool list
     \<Rightarrow> ('a list \<times> 'b list \<times> bool list) option" where
  "follow_cycle p i prev_j j s =
     (if i \<noteq> j
      then follow_cycle p i j (p ! j)
             (swap_at prev_j j (fst s), swap_at prev_j j (fst (snd s)),
              (snd (snd s))[j := True])
      else Some s)"

fun reorder_loop ::
  "nat list \<Rightarrow> nat list \<Rightarrow> 'a list \<times> 'b list \<times> bool list
     \<Rightarrow> ('a list \<times> 'b list \<times> bool list) option" where
  "reorder_loop p [] s = Some s"
| "reorder_loop p (i # rest) s =
     (if snd (snd s) ! i then reorder_loop p rest s
      else (case follow_cycle p i i (p ! i) (fst s, fst (snd s), (snd (snd s))[i := True]) of
              None \<Rightarrow> None
            | Some s' \<Rightarrow> reorder_loop p rest s'))"

definition reorder_in_place ::
  "nat list \<Rightarrow> 'a list \<Rightarrow> 'b list \<Rightarrow> ('a list \<times> 'b list) option" where
  "reorder_in_place p recv_nodes nodal_num_local =
     map_option (\<lambda>s. (fst s, fst (snd s)))
       (reorder_loop p [0..<length p]
          (recv_nodes, nodal_num_local, replicate (length p) False))"

text \<open>
  The sort-then-copy reference of the specification: a fresh array with
  \<open>out[i] = in[p[i]]\<close>.
\<close>

definition reorder_by_copy :: "nat list \<Rightarrow> 'a list \<Rightarrow> 'a list" where
  "reorder_by_copy p xs = map (\<lambda>i. xs ! (p ! i)) [0..<length p]"

text \<open>\<^verbatim>\<open>v.resize(n, x)\<close>: existing elements are kept, new ones are \<open>x\<close>.\<close>

definition resize_fill :: "nat \<Rightarrow> 'a \<Rightarrow> 'a list \<Rightarrow> 'a list" where
  "resize_fill n x xs = take n xs @ replicate (n - length xs) x"

text \<open>
  Lines 130 to 207, from the decoded host list and the reduced volumes.
  \<open>recv_nodes\<close> is the decoded list (\<open>ctr\<close> is its length), \<open>nodal_off_node_sizes\<close> the
  volumes after the sum reduction, \<open>p\<close> the sorted index vector, and
  \<open>nodal_num_local\<close> the vector the caller passed in.
\<close>

definition balance_nodes ::
  "tap_comm \<Rightarrow> nat list \<Rightarrow> nat list \<Rightarrow> nat list \<Rightarrow> nat list \<Rightarrow> (nat list \<times> nat list) option" where
  "balance_nodes c recv_nodes nodal_off_node_sizes p nodal_num_local =
     (let ctr = length recv_nodes
      in if ctr \<noteq> 0
         then reorder_in_place p recv_nodes
                (fan_out_loop c ctr nodal_off_node_sizes p (resize_fill ctr 1 nodal_num_local))
         else Some ([], nodal_num_local))"

text \<open>
  The whole function. \<open>local_cols\<close> holds \<open>off_node_col_to_node\<close> of every process of
  the host, in \<open>local_comm\<close> order.
\<close>

definition nodal_recv_nodes :: "tap_comm \<Rightarrow> nat list list \<Rightarrow> nat list" where
  "nodal_recv_nodes c local_cols =
     decode_nodes (bitmap_len c)
       (allreduce_bor (bitmap_len c) (map (\<lambda>cols. fst (mark_nodes c cols)) local_cols))"

definition nodal_off_node_sizes :: "tap_comm \<Rightarrow> nat list list \<Rightarrow> nat list" where
  "nodal_off_node_sizes c local_cols =
     (let recv_nodes = nodal_recv_nodes c local_cols
      in allreduce_sum (length recv_nodes)
           (map (\<lambda>cols. map (\<lambda>node. snd (mark_nodes c cols) ! node) recv_nodes) local_cols))"

definition gather_off_node_nodes ::
  "tap_comm \<Rightarrow> nat list list \<Rightarrow> nat list \<Rightarrow> nat list \<Rightarrow> (nat list \<times> nat list) option" where
  "gather_off_node_nodes c local_cols p nodal_num_local =
     balance_nodes c (nodal_recv_nodes c local_cols) (nodal_off_node_sizes c local_cols)
       p nodal_num_local"

text \<open>
  The fan-out rule as the specification words it: the quotient by the eager threshold,
  capped at the ideal fan-out and at \<open>PPN\<close>; the quotient by the short-message threshold,
  capped at \<open>PPN\<close>; otherwise 1.
\<close>

definition spec_fan_out :: "tap_comm \<Rightarrow> nat \<Rightarrow> nat \<Rightarrow> nat" where
  "spec_fan_out c ctr v =
     (if v > eager_cutoff c then min (min (v div eager_cutoff c) (ideal_n_comm c)) (PPN c)
      else if v > short_cutoff c \<and> ctr < PPN c then min (v div short_cutoff c) (PPN c)
      else 1)"

subsection \<open>Message ledger\<close>

text \<open>
  Modelled from the spec: the message ledger (\<^verbatim>\<open>CommData\<close>, the class of
  \<^verbatim>\<open>send_data\<close> and \<^verbatim>\<open>recv_data\<close>), which \<^verbatim>\<open>tap_comm.cpp\<close> uses but
  does not define. Section 4.2 of the specification: a ledger records, per message, the
  partner, the count and the positions; it has a flattened index array and a prefix-offset
  array, both computed when the ledger is finalized.
\<close>

record comm_data =
  procs :: "int list"
  msg_counts :: "nat list"
  msg_positions :: "int list list"
  indptr :: "nat list"
  indices :: "int list"
  finalized :: bool

datatype ledger_error = Finalized_twice

definition new_comm_data :: comm_data where
  "new_comm_data = \<lparr>procs = [], msg_counts = [], msg_positions = [], indptr = [],
     indices = [], finalized = False\<rparr>"

text \<open>
  Modelled from the spec: \<^verbatim>\<open>add_msg(partner, count, local_positions)\<close> records a new
  message for \<open>partner\<close> with \<open>count\<close> positions read from \<open>local_positions\<close>. Only
  this form, with positions, is called on the lines modelled here.
\<close>

definition add_msg :: "int \<Rightarrow> nat \<Rightarrow> int list \<Rightarrow> comm_data \<Rightarrow> comm_data" where
  "add_msg partner n local_positions d =
     d\<lparr>procs := procs d @ [partner], msg_counts := msg_counts d @ [n],
       msg_positions := msg_positions d @ [take n local_positions]\<rparr>"

text \<open>
  Modelled from the spec: \<^verbatim>\<open>finalize()\<close> computes the prefix offsets from the recorded
  counts and concatenates the recorded positions into the flattened index array; it fails
  if called twice.
\<close>

definition finalize :: "comm_data \<Rightarrow> ledger_error + comm_data" where
  "finalize d =
     (if finalized d then Inl Finalized_twice
      else Inr (d\<lparr>indptr := map (\<lambda>k. sum_list (take k (msg_counts d)))
                               [0..<Suc (length (msg_counts d))],
                  indices := concat (msg_positions d), finalized := True\<rparr>))"

text \<open>Modelled from the spec: the accessors for the message count and the element count.\<close>

definition num_msgs :: "comm_data \<Rightarrow> nat" where
  "num_msgs d = length (procs d)"

definition size_msgs :: "comm_data \<Rightarrow> nat" where
  "size_msgs d = sum_list (msg_counts d)"

record par_comm =
  send_data :: comm_data
  recv_data :: comm_data

record tap_stages =
  local_L_par_comm :: par_comm
  local_S_par_comm :: par_comm
  global_par_comm :: par_comm
  local_R_par_comm :: par_comm

subsection \<open>Bucket placement\<close>

text \<open>
  The statement pair \<^verbatim>\<open>idx = displs[k] + sizes[k]++; out[idx] = v;\<close> of lines 439 to
  441 and 575 to 578: \<open>key i\<close> is the bucket of item \<open>i\<close> and \<open>val i\<close> the value stored.
  The state is \<open>(sizes, out)\<close>.
\<close>

definition place_step ::
  "(nat \<Rightarrow> nat) \<Rightarrow> (nat \<Rightarrow> 'a) \<Rightarrow> nat list \<Rightarrow> nat \<Rightarrow> nat list \<times> 'a list \<Rightarrow> nat list \<times> 'a list" where
  "place_step key val displs i s =
     (let k = key i; idx = displs ! k + fst s ! k
      in ((fst s)[k := fst s ! k + 1], (snd s)[idx := val i]))"

subsection \<open>R stage, receive side: form_local_R_par_comm, lines 378 to 456\<close>

text \<open>Lines 401 to 411. The state is \<open>(ctr, node_to_idx, node_to_proc)\<close>.\<close>

definition node_map_step ::
  "tap_comm \<Rightarrow> nat list \<Rightarrow> nat list \<Rightarrow> nat \<Rightarrow> nat \<times> nat list \<times> nat list
     \<Rightarrow> nat \<times> nat list \<times> nat list" where
  "node_map_step c recv_nodes nodal_num_local i s =
     (case s of (ctr, node_to_idx, node_to_proc) \<Rightarrow>
        (let node = recv_nodes ! i; local_proc = ctr mod PPN c
         in (ctr + nodal_num_local ! i, node_to_idx[node := i],
             node_to_proc[i := local_proc])))"

definition map_nodes_to_procs ::
  "tap_comm \<Rightarrow> nat list \<Rightarrow> nat list \<Rightarrow> nat \<times> nat list \<times> nat list" where
  "map_nodes_to_procs c recv_nodes nodal_num_local =
     fold (node_map_step c recv_nodes nodal_num_local) [0..<length recv_nodes]
       (0, replicate (num_nodes c) 0, replicate (length recv_nodes) 0)"

text \<open>
  Lines 413 to 427. The state is \<open>(proc_idx, local_recv_sizes, off_node_col_to_lcl_proc)\<close>.
\<close>

definition assign_step ::
  "tap_comm \<Rightarrow> nat list \<Rightarrow> nat list \<Rightarrow> nat list \<Rightarrow> nat list \<Rightarrow> nat
     \<Rightarrow> nat list \<times> nat list \<times> nat list \<Rightarrow> nat list \<times> nat list \<times> nat list" where
  "assign_step c col_to_node nodal_num_local node_to_idx node_to_proc i s =
     (case s of (proc_idx, local_recv_sizes, col_to_lcl_proc) \<Rightarrow>
        (let node = col_to_node ! i;
             idx = node_to_idx ! node;
             local_proc = (node_to_proc ! idx + proc_idx ! idx) mod PPN c
         in ((if proc_idx ! idx + 1 < nodal_num_local ! idx
              then proc_idx[idx := proc_idx ! idx + 1]
              else proc_idx[idx := 0]),
             local_recv_sizes[local_proc := local_recv_sizes ! local_proc + 1],
             col_to_lcl_proc[i := local_proc])))"

definition assign_local_procs ::
  "tap_comm \<Rightarrow> nat \<Rightarrow> nat list \<Rightarrow> nat list \<Rightarrow> nat list
     \<Rightarrow> nat list \<times> nat list \<times> nat list" where
  "assign_local_procs c off_node_num_cols col_to_node recv_nodes nodal_num_local =
     (case map_nodes_to_procs c recv_nodes nodal_num_local of
        (ctr, node_to_idx, node_to_proc) \<Rightarrow>
          fold (assign_step c col_to_node nodal_num_local node_to_idx node_to_proc)
            [0..<off_node_num_cols]
            (replicate (length recv_nodes) 0, replicate (PPN c) 0,
             replicate off_node_num_cols 0))"

text \<open>Lines 428 to 434. The state is \<open>(local_recv_displs, local_recv_sizes)\<close>.\<close>

definition displs_step :: "nat \<Rightarrow> nat list \<times> nat list \<Rightarrow> nat list \<times> nat list" where
  "displs_step i s =
     (case s of (displs, sizes) \<Rightarrow> (displs[i + 1 := displs ! i + sizes ! i], sizes[i := 0]))"

definition recv_displs :: "nat \<Rightarrow> nat list \<Rightarrow> nat list \<times> nat list" where
  "recv_displs n sizes = fold displs_step [0..<n] (replicate (n + 1) 0, sizes)"

text \<open>Lines 444 to 455. The state is \<open>(recv_data, local_recv_procs)\<close>.\<close>

definition add_recv_step ::
  "nat list \<Rightarrow> nat list \<Rightarrow> nat \<Rightarrow> comm_data \<times> nat list \<Rightarrow> comm_data \<times> nat list" where
  "add_recv_step displs local_recv_indices i s =
     (let recv_start = displs ! i; recv_size = displs ! (i + 1) - recv_start
      in if recv_size \<noteq> 0
         then (add_msg (int i) recv_size (map int (drop recv_start local_recv_indices)) (fst s),
               (snd s)[i := 1])
         else s)"

text \<open>
  The slot of every column: \<open>off_node_col_to_lcl_proc\<close> after the loop of lines 414 to
  427.
\<close>

definition off_node_col_to_lcl_proc ::
  "tap_comm \<Rightarrow> nat \<Rightarrow> nat list \<Rightarrow> nat list \<Rightarrow> nat list \<Rightarrow> nat list" where
  "off_node_col_to_lcl_proc c off_node_num_cols col_to_node recv_nodes nodal_num_local =
     snd (snd (assign_local_procs c off_node_num_cols col_to_node recv_nodes nodal_num_local))"

text \<open>
  The receive side of the function: from the inputs and the receive ledger of
  \<open>local_R_par_comm\<close> to the finalized ledger and \<open>local_recv_procs\<close>. Of
  \<open>off_node_column_map\<close> only the size is read here; \<open>col_to_node\<close> is the argument
  \<open>off_node_col_to_node\<close>.
\<close>

definition form_local_R_recv ::
  "tap_comm \<Rightarrow> int list \<Rightarrow> nat list \<Rightarrow> nat list \<Rightarrow> nat list \<Rightarrow> comm_data
     \<Rightarrow> ledger_error + comm_data \<times> nat list" where
  "form_local_R_recv c column_map col_to_node recv_nodes nodal_num_local rd =
     (let off_node_num_cols = length column_map;
          a = assign_local_procs c off_node_num_cols col_to_node recv_nodes nodal_num_local;
          d = recv_displs (PPN c) (fst (snd a));
          local_recv_indices =
            snd (fold (place_step (\<lambda>i. off_node_col_to_lcl_proc c off_node_num_cols col_to_node
                                        recv_nodes nodal_num_local ! i)
                         (\<lambda>i. i) (fst d))
                   [0..<off_node_num_cols] (snd d, replicate off_node_num_cols 0));
          r = fold (add_recv_step (fst d) local_recv_indices) [0..<PPN c]
                (rd, replicate (PPN c) 0)
      in case finalize (fst r) of Inl e \<Rightarrow> Inl e | Inr rd' \<Rightarrow> Inr (rd', snd r))"

subsection \<open>Global stage, receive side: form_global_par_comm, lines 543 to 603\<close>

text \<open>
  \<open>orig_nodes\<close> holds the origin host of every entry of the index array of the R-stage
  send ledger; \<open>r_indices\<close> is that index array and its length is \<open>size_msgs\<close>.
  Lines 556 to 560 count the entries per host.
\<close>

definition count_nodes :: "tap_comm \<Rightarrow> nat \<Rightarrow> nat list \<Rightarrow> nat list" where
  "count_nodes c n orig_nodes =
     fold (\<lambda>i node_sizes. node_sizes[orig_nodes ! i := node_sizes ! (orig_nodes ! i) + 1])
       [0..<n] (replicate (num_nodes c) 0)"

text \<open>Lines 563 to 570. The state is \<open>(node_recv_idx, node_recv_displs)\<close>.\<close>

definition node_displs_step ::
  "tap_comm \<Rightarrow> int \<Rightarrow> int list \<Rightarrow> nat list \<Rightarrow> nat \<Rightarrow> nat list \<times> nat list
     \<Rightarrow> nat list \<times> nat list" where
  "node_displs_step c rank recv_procs node_sizes i s =
     (case s of (node_recv_idx, node_recv_displs) \<Rightarrow>
        (let proc = recv_procs ! i; node = nat (get_node c rank proc)
         in (node_recv_idx[node := i],
             node_recv_displs[i + 1 := node_recv_displs ! i + node_sizes ! node])))"

definition node_displs ::
  "tap_comm \<Rightarrow> int \<Rightarrow> int list \<Rightarrow> nat list \<Rightarrow> nat list \<times> nat list" where
  "node_displs c rank recv_procs node_sizes =
     fold (node_displs_step c rank recv_procs node_sizes) [0..<length recv_procs]
       (replicate (num_nodes c) 0, replicate (length recv_procs + 1) 0)"

text \<open>
  Lines 589 to 599: \<^verbatim>\<open>std::sort\<close> on the slice \<open>[start, stop)\<close> of
  \<open>node_recv_indices\<close> (sorting integers with \<open><\<close> has one possible result), then
  the copy that skips an entry equal to its predecessor.
\<close>

definition sort_range :: "nat \<Rightarrow> nat \<Rightarrow> int list \<Rightarrow> int list" where
  "sort_range start stop xs =
     take start xs @ sort (take (stop - start) (drop start xs)) @ drop stop xs"

definition copy_unique :: "int list \<Rightarrow> nat \<Rightarrow> nat \<Rightarrow> int list" where
  "copy_unique xs start stop =
     fold (\<lambda>j recv_buffer. if xs ! j \<noteq> xs ! (j - 1) then recv_buffer @ [xs ! j] else recv_buffer)
       [start + 1..<stop] [xs ! start]"

text \<open>Lines 581 to 602. The state is \<open>(node_recv_indices, recv_data)\<close>.\<close>

definition global_recv_step ::
  "int list \<Rightarrow> nat list \<Rightarrow> nat \<Rightarrow> int list \<times> comm_data \<Rightarrow> int list \<times> comm_data" where
  "global_recv_step recv_procs node_recv_displs i s =
     (let proc = recv_procs ! i;
          start = node_recv_displs ! i;
          stop = node_recv_displs ! (i + 1);
          size = stop - start
      in if size \<noteq> 0
         then (let sorted = sort_range start stop (fst s);
                   recv_buffer = copy_unique sorted start stop
               in (sorted, add_msg proc (length recv_buffer) recv_buffer (snd s)))
         else s)"

definition form_global_recv ::
  "tap_comm \<Rightarrow> int \<Rightarrow> int list \<Rightarrow> nat list \<Rightarrow> int list \<Rightarrow> comm_data
     \<Rightarrow> ledger_error + comm_data" where
  "form_global_recv c rank recv_procs orig_nodes r_indices rd =
     (let n = length r_indices;
          node_sizes = count_nodes c n orig_nodes;
          nd = node_displs c rank recv_procs node_sizes;
          node_recv_indices =
            snd (fold (place_step (\<lambda>i. fst nd ! (orig_nodes ! i)) (\<lambda>i. r_indices ! i) (snd nd))
                   [0..<n] (replicate (length recv_procs) 0, replicate n 0))
      in finalize (snd (fold (global_recv_step recv_procs (snd nd)) [0..<length recv_procs]
                          (node_recv_indices, rd))))"

subsection \<open>Index rewrite: adjust_send_indices\<close>

text \<open>
  \<^verbatim>\<open>std::map<int, int>\<close> is a finite map. Its \<^verbatim>\<open>operator[]\<close> returns the stored
  value, and for a key that is absent it first inserts the key with the value \<open>0\<close>.
\<close>

definition map_subscript :: "(int \<rightharpoonup> int) \<Rightarrow> int \<Rightarrow> int \<times> (int \<rightharpoonup> int)" where
  "map_subscript m k = (case m k of Some v \<Rightarrow> (v, m) | None \<Rightarrow> (0, m(k \<mapsto> 0)))"

text \<open>Lines 792 to 796 and 805 to 809: the map from identifier to buffer position.\<close>

definition global_to_local :: "int list \<Rightarrow> (int \<rightharpoonup> int)" where
  "global_to_local recv_indices =
     fold (\<lambda>i m. m(recv_indices ! i \<mapsto> int i)) [0..<length recv_indices] Map.empty"

text \<open>
  Lines 797 to 801 and 810 to 814. The state is \<open>(map, send indices)\<close>. The loop bound
  \<^verbatim>\<open>size_msgs\<close> of a finalized ledger is the length of its index array.
\<close>

definition rewrite_step :: "nat \<Rightarrow> (int \<rightharpoonup> int) \<times> int list \<Rightarrow> (int \<rightharpoonup> int) \<times> int list" where
  "rewrite_step i s =
     (let idx = snd s ! i; r = map_subscript (fst s) idx
      in (snd r, (snd s)[i := fst r]))"

definition rewrite_indices :: "int list \<Rightarrow> int list \<Rightarrow> int list" where
  "rewrite_indices recv_indices send_indices =
     snd (fold rewrite_step [0..<length send_indices]
            (global_to_local recv_indices, send_indices))"

definition adjust_send_indices :: "int \<Rightarrow> tap_stages \<Rightarrow> tap_stages" where
  "adjust_send_indices first_local_row t =
     (let S = local_S_par_comm t; G = global_par_comm t; R = local_R_par_comm t;
          S_send = map (\<lambda>v. v - first_local_row) (indices (send_data S));
          G_send = rewrite_indices (indices (recv_data S)) (indices (send_data G));
          R_send = rewrite_indices (indices (recv_data G)) (indices (send_data R))
      in t\<lparr>local_S_par_comm := S\<lparr>send_data := (send_data S)\<lparr>indices := S_send\<rparr>\<rparr>,
           global_par_comm := G\<lparr>send_data := (send_data G)\<lparr>indices := G_send\<rparr>\<rparr>,
           local_R_par_comm := R\<lparr>send_data := (send_data R)\<lparr>indices := R_send\<rparr>\<rparr>\<rparr>)"

subsection \<open>Concrete configurations\<close>

text \<open>Two hosts of two processes each, under the folded ordering and under ordering 3.\<close>

definition snake_2x2 :: tap_comm where
  "snake_2x2 = \<lparr>PPN = 2, num_nodes = 2, rank_ordering = 2, eager_cutoff = 1000,
     short_cutoff = 62, ideal_n_comm = 4\<rparr>"

definition unsupported_2x2 :: tap_comm where
  "unsupported_2x2 = \<lparr>PPN = 2, num_nodes = 2, rank_ordering = 3, eager_cutoff = 1000,
     short_cutoff = 62, ideal_n_comm = 4\<rparr>"

text \<open>Two hosts of two processes each under ordering 1.\<close>

definition block_2x2 :: tap_comm where
  "block_2x2 = \<lparr>PPN = 2, num_nodes = 2, rank_ordering = 1, eager_cutoff = 1000,
     short_cutoff = 62, ideal_n_comm = 4\<rparr>"

text \<open>
  What a rewritten index is meant to be: a position of the identifier in the receive
  buffer. \<open>subscript_value m k\<close> is the value that \<^verbatim>\<open>m[k]\<close> returns.
\<close>

definition position_of :: "int list \<Rightarrow> int \<Rightarrow> int \<Rightarrow> bool" where
  "position_of recv_indices ident pos \<longleftrightarrow>
     0 \<le> pos \<and> nat pos < length recv_indices \<and> recv_indices ! nat pos = ident"

definition subscript_value :: "(int \<rightharpoonup> int) \<Rightarrow> int \<Rightarrow> int" where
  "subscript_value m k = (case m k of Some v \<Rightarrow> v | None \<Rightarrow> 0)"

text \<open>A package with given index arrays, for a worked example.\<close>

definition ledger_of :: "int list \<Rightarrow> comm_data" where
  "ledger_of xs = new_comm_data\<lparr>indices := xs\<rparr>"

definition stages_example :: tap_stages where
  "stages_example =
     \<lparr>local_L_par_comm = \<lparr>send_data = ledger_of [], recv_data = ledger_of []\<rparr>,
      local_S_par_comm = \<lparr>send_data = ledger_of [12, 13], recv_data = ledger_of [7, 9]\<rparr>,
      global_par_comm = \<lparr>send_data = ledger_of [9, 5], recv_data = ledger_of [4, 8]\<rparr>,
      local_R_par_comm = \<lparr>send_data = ledger_of [8, 4, 8], recv_data = ledger_of []\<rparr>\<rparr>"

subsection \<open>Invariants of the in-place reorder\<close>

text \<open>
  \<open>p\<close> is a permutation of \<open>0, ..., length p - 1\<close>. The invariants relate an array
  \<open>arr\<close> under reordering to its initial content \<open>src\<close> and to the flags \<open>dn\<close>
  (\<^verbatim>\<open>done\<close> in the source). Between two iterations of the outer loop the flagged
  positions are closed under \<open>p\<close> and hold their final value. Inside the inner loop the
  position \<open>prev\<close> still holds the element that started the cycle at \<open>i\<close>.
\<close>

definition is_permutation :: "nat list \<Rightarrow> bool" where
  "is_permutation p \<longleftrightarrow> distinct p \<and> (\<forall>i \<in> set p. i < length p)"

definition arr_inner :: "nat list \<Rightarrow> 'a list \<Rightarrow> 'a list \<Rightarrow> bool list \<Rightarrow> nat \<Rightarrow> nat \<Rightarrow> bool" where
  "arr_inner p src arr dn prev i \<longleftrightarrow>
     length arr = length p \<and> arr ! prev = src ! i \<and>
     (\<forall>x<length p. dn ! x \<and> x \<noteq> prev \<longrightarrow> arr ! x = src ! (p ! x)) \<and>
     (\<forall>x<length p. \<not> dn ! x \<longrightarrow> arr ! x = src ! x)"

definition done_inner :: "nat list \<Rightarrow> bool list \<Rightarrow> nat \<Rightarrow> nat \<Rightarrow> bool" where
  "done_inner p dn prev i \<longleftrightarrow>
     length dn = length p \<and> i < length p \<and> prev < length p \<and> dn ! i \<and> dn ! prev \<and>
     (\<forall>x<length p. dn ! x \<and> x \<noteq> prev \<longrightarrow> dn ! (p ! x)) \<and>
     (\<forall>y<length p. dn ! y \<and> y \<noteq> i \<longrightarrow> (\<exists>x<length p. dn ! x \<and> x \<noteq> prev \<and> p ! x = y))"

definition arr_outer :: "nat list \<Rightarrow> 'a list \<Rightarrow> 'a list \<Rightarrow> bool list \<Rightarrow> bool" where
  "arr_outer p src arr dn \<longleftrightarrow>
     length arr = length p \<and>
     (\<forall>x<length p. dn ! x \<longrightarrow> arr ! x = src ! (p ! x)) \<and>
     (\<forall>x<length p. \<not> dn ! x \<longrightarrow> arr ! x = src ! x)"

definition done_outer :: "nat list \<Rightarrow> bool list \<Rightarrow> bool" where
  "done_outer p dn \<longleftrightarrow>
     length dn = length p \<and>
     (\<forall>x<length p. dn ! x \<longrightarrow> dn ! (p ! x)) \<and>
     (\<forall>y<length p. dn ! y \<longrightarrow> (\<exists>x<length p. dn ! x \<and> p ! x = y))"

subsection \<open>The fan-out of one host\<close>

text \<open>
  What the loop of lines 158 to 183 leaves in \<open>nodal_num_local\<close> for a host of volume
  \<open>v\<close> when \<open>ctr\<close> hosts were decoded: \<open>n_procs\<close> of the first or second branch, or
  the initial 1 where the loop breaks. \<open>loop_breaks\<close> is the condition of the third
  branch.
\<close>

definition assigned_fan_out :: "tap_comm \<Rightarrow> nat \<Rightarrow> nat \<Rightarrow> nat" where
  "assigned_fan_out c ctr v =
     (if v > eager_cutoff c
      then (if v div eager_cutoff c \<ge> PPN c then ideal_n_comm c else v div eager_cutoff c)
      else if v > short_cutoff c \<and> ctr < PPN c
      then (if v div short_cutoff c \<ge> PPN c then PPN c else v div short_cutoff c)
      else 1)"

definition loop_breaks :: "tap_comm \<Rightarrow> nat \<Rightarrow> nat \<Rightarrow> bool" where
  "loop_breaks c ctr v \<longleftrightarrow> \<not> v > eager_cutoff c \<and> \<not> (v > short_cutoff c \<and> ctr < PPN c)"

text \<open>
  The tie rule as the specification words it: hosts of equal volume keep their relative
  order from the decoded list.
\<close>

definition ties_keep_order :: "nat list \<Rightarrow> nat list \<Rightarrow> bool" where
  "ties_keep_order sizes p \<longleftrightarrow>
     (\<forall>i<length p. \<forall>j<length p. i < j \<and> sizes ! (p ! i) = sizes ! (p ! j) \<longrightarrow> p ! i < p ! j)"

text \<open>
  Example values for the thresholds, with sixteen processes per host, and a small
  configuration of six hosts with four processes each.
\<close>

definition example_16 :: tap_comm where
  "example_16 = \<lparr>PPN = 16, num_nodes = 8, rank_ordering = 1, eager_cutoff = 1000,
     short_cutoff = 62, ideal_n_comm = 4\<rparr>"

definition example_small :: tap_comm where
  "example_small = \<lparr>PPN = 4, num_nodes = 6, rank_ordering = 1, eager_cutoff = 2,
     short_cutoff = 1, ideal_n_comm = 2\<rparr>"

text \<open>
  \<open>off_node_col_to_node\<close> of the two processes of a host: host 1 is needed 8 times and
  host 5 is needed 6 times (\<open>cols_8_6\<close>), and so on.
\<close>

definition cols_8_6 :: "nat list list" where
  "cols_8_6 = [[1, 1, 1, 5, 1], [5, 1, 1, 1, 5, 5, 1, 5, 5]]"

definition cols_6_4 :: "nat list list" where
  "cols_6_4 = [[1, 1, 1, 5, 1], [5, 1, 1, 5, 5]]"

definition cols_6 :: "nat list list" where
  "cols_6 = [[1, 1, 1], [1, 1, 1]]"

definition cols_3_2 :: "nat list list" where
  "cols_3_2 = [[1, 1, 5], [1, 5]]"

definition cols_2_2 :: "nat list list" where
  "cols_2_2 = [[1, 5], [5, 1]]"

subsection \<open>Buckets\<close>

text \<open>
  \<open>bucket key n b\<close> lists, in increasing order, the items below \<open>n\<close> whose key is
  \<open>b\<close>; \<open>slice displs xs b\<close> is the part of \<open>xs\<close> between the offsets \<open>displs[b]\<close>
  and \<open>displs[b + 1]\<close>. \<open>col_idx\<close> is the position \<open>node_to_idx[node]\<close> of the host of
  column \<open>i\<close>, and \<open>slot_of\<close> the local rank that line 419 computes for column \<open>i\<close>.
\<close>

definition bucket :: "(nat \<Rightarrow> nat) \<Rightarrow> nat \<Rightarrow> nat \<Rightarrow> nat list" where
  "bucket key n b = filter (\<lambda>i. key i = b) [0..<n]"

definition slice :: "nat list \<Rightarrow> 'a list \<Rightarrow> nat \<Rightarrow> 'a list" where
  "slice displs xs b = take (displs ! Suc b - displs ! b) (drop (displs ! b) xs)"

definition col_idx :: "nat list \<Rightarrow> nat list \<Rightarrow> nat \<Rightarrow> nat" where
  "col_idx node_to_idx col_to_node i = node_to_idx ! (col_to_node ! i)"

definition slot_of ::
  "tap_comm \<Rightarrow> nat list \<Rightarrow> nat list \<Rightarrow> nat list \<Rightarrow> nat list \<Rightarrow> nat \<Rightarrow> nat" where
  "slot_of c nl node_to_idx node_to_proc col_to_node i =
     (let k = col_idx node_to_idx col_to_node i
      in (node_to_proc ! k +
          length (bucket (col_idx node_to_idx col_to_node) i k) mod nl ! k) mod PPN c)"

text \<open>The host of the receive peer at position \<open>i\<close>, as the index that line 568 uses.\<close>

definition peer_node :: "tap_comm \<Rightarrow> int \<Rightarrow> int list \<Rightarrow> nat \<Rightarrow> nat" where
  "peer_node c rank recv_procs i = nat (get_node c rank (recv_procs ! i))"

subsection \<open>The library sort: std::sort as the GNU C++ library implements it\<close>

text \<open>
  Line 148 calls \<^verbatim>\<open>std::sort\<close>, whose code belongs to the C++ library. What follows
  is the implementation of the GNU library (libstdc++, \<^verbatim>\<open>bits/stl_algo.h\<close> and
  \<^verbatim>\<open>bits/stl_heap.h\<close>): an introsort with median-of-three partitioning down to ranges
  of at most 16 elements, a heap sort once the depth limit is used up, and a final
  insertion sort. The vector is a list, an iterator is a position in it, and \<open>cmp\<close> is the
  comparator. The scans that the library leaves unguarded return \<open>None\<close> when they step
  outside the vector, where the C++ has no defined behaviour. The names \<open>cmp\<close>,
  \<open>lim\<close> and \<open>cut'\<close> stand for \<^verbatim>\<open>comp\<close>, \<^verbatim>\<open>last\<close> and \<^verbatim>\<open>cut\<close> of
  the library, which are names of HOL constants.
\<close>

text \<open>\<^verbatim>\<open>std::__lg\<close>: the position of the highest set bit.\<close>

fun lg :: "nat \<Rightarrow> nat" where
  "lg n = (if n < 2 then 0 else Suc (lg (n div 2)))"

declare lg.simps [simp del]

text \<open>\<^verbatim>\<open>__move_median_to_first(result, a, b, c, comp)\<close>; \<^verbatim>\<open>std::iter_swap\<close> is \<open>swap_at\<close>.\<close>

definition move_median_to_first ::
  "('a \<Rightarrow> 'a \<Rightarrow> bool) \<Rightarrow> nat \<Rightarrow> nat \<Rightarrow> nat \<Rightarrow> nat \<Rightarrow> 'a list \<Rightarrow> 'a list" where
  "move_median_to_first cmp result a b c xs =
     (if cmp (xs ! a) (xs ! b)
      then (if cmp (xs ! b) (xs ! c) then swap_at result b xs
            else if cmp (xs ! a) (xs ! c) then swap_at result c xs
            else swap_at result a xs)
      else if cmp (xs ! a) (xs ! c) then swap_at result a xs
      else if cmp (xs ! b) (xs ! c) then swap_at result c xs
      else swap_at result b xs)"

text \<open>
  \<^verbatim>\<open>__unguarded_partition(first, last, pivot, comp)\<close>. Its two inner loops,
  \<^verbatim>\<open>while (comp(first, pivot)) ++first\<close> and \<^verbatim>\<open>while (comp(pivot, last)) --last\<close>,
  are \<open>scan_up\<close> and \<open>scan_down\<close>; \<open>pivot\<close> is a position.
\<close>

function scan_up :: "('a \<Rightarrow> 'a \<Rightarrow> bool) \<Rightarrow> nat \<Rightarrow> nat \<Rightarrow> 'a list \<Rightarrow> nat option" where
  "scan_up cmp pivot first xs =
     (if first < length xs
      then (if cmp (xs ! first) (xs ! pivot) then scan_up cmp pivot (Suc first) xs
            else Some first)
      else None)"
  by pat_completeness auto
termination
  by (relation "measure (\<lambda>(cmp, pivot, first, xs). length xs - first)") auto

declare scan_up.simps [simp del]

fun scan_down :: "('a \<Rightarrow> 'a \<Rightarrow> bool) \<Rightarrow> nat \<Rightarrow> nat \<Rightarrow> 'a list \<Rightarrow> nat option" where
  "scan_down cmp pivot 0 xs = (if cmp (xs ! pivot) (xs ! 0) then None else Some 0)"
| "scan_down cmp pivot (Suc l) xs =
     (if cmp (xs ! pivot) (xs ! Suc l) then scan_down cmp pivot l xs else Some (Suc l))"

function unguarded_partition ::
  "('a \<Rightarrow> 'a \<Rightarrow> bool) \<Rightarrow> nat \<Rightarrow> nat \<Rightarrow> nat \<Rightarrow> 'a list \<Rightarrow> (nat \<times> 'a list) option" where
  "unguarded_partition cmp first lim pivot xs =
     (case scan_up cmp pivot first xs of
        None \<Rightarrow> None
      | Some f \<Rightarrow>
          (case lim of
             0 \<Rightarrow> None
           | Suc l0 \<Rightarrow>
               (case scan_down cmp pivot l0 xs of
                  None \<Rightarrow> None
                | Some l \<Rightarrow>
                    if \<not> f < l then Some (f, xs)
                    else unguarded_partition cmp (Suc f) l pivot (swap_at f l xs))))"
  by pat_completeness auto
termination
proof (relation "measure (\<lambda>(cmp, first, lim, pivot, xs). lim)")
  show "wf (measure (\<lambda>(cmp :: 'a \<Rightarrow> 'a \<Rightarrow> bool, first :: nat, lim, pivot :: nat, xs :: 'a list). lim))"
    by simp
next
  fix cmp :: "'a \<Rightarrow> 'a \<Rightarrow> bool" and first lim pivot :: nat and xs :: "'a list" and f l0 l :: nat
  assume "lim = Suc l0" and down: "scan_down cmp pivot l0 xs = Some l"
  have "\<And>l'. scan_down cmp pivot l0 xs = Some l' \<Longrightarrow> l' \<le> l0"
    by (induction l0) (auto split: if_splits)
  then have "l \<le> l0"
    using down by simp
  then show "((cmp, Suc f, l, pivot, swap_at f l xs), (cmp, first, lim, pivot, xs))
               \<in> measure (\<lambda>(cmp, first, lim, pivot, xs). lim)"
    using \<open>lim = Suc l0\<close> by simp
qed

declare unguarded_partition.simps [simp del]

text \<open>\<^verbatim>\<open>__unguarded_partition_pivot(first, last, comp)\<close>.\<close>

definition unguarded_partition_pivot ::
  "('a \<Rightarrow> 'a \<Rightarrow> bool) \<Rightarrow> nat \<Rightarrow> nat \<Rightarrow> 'a list \<Rightarrow> (nat \<times> 'a list) option" where
  "unguarded_partition_pivot cmp first lim xs =
     (let mid = first + (lim - first) div 2
      in unguarded_partition cmp (first + 1) lim first
           (move_median_to_first cmp first (first + 1) mid (lim - 1) xs))"

text \<open>
  \<^verbatim>\<open>__unguarded_linear_insert(last, comp)\<close>: the element at \<open>lim\<close> is taken out and
  the elements before it move up by one place as long as \<open>val\<close> compares before them.
\<close>

fun linear_insert_loop :: "('a \<Rightarrow> 'a \<Rightarrow> bool) \<Rightarrow> 'a \<Rightarrow> nat \<Rightarrow> 'a list \<Rightarrow> 'a list option" where
  "linear_insert_loop cmp val 0 xs = None"
| "linear_insert_loop cmp val (Suc next) xs =
     (if cmp val (xs ! next)
      then linear_insert_loop cmp val next (xs[Suc next := xs ! next])
      else Some (xs[Suc next := val]))"

definition unguarded_linear_insert ::
  "('a \<Rightarrow> 'a \<Rightarrow> bool) \<Rightarrow> nat \<Rightarrow> 'a list \<Rightarrow> 'a list option" where
  "unguarded_linear_insert cmp lim xs = linear_insert_loop cmp (xs ! lim) lim xs"

text \<open>
  \<^verbatim>\<open>std::move_backward(first, last, last + 1)\<close>: the elements at \<open>first, ..., lim - 1\<close>
  move up by one place.
\<close>

definition move_backward :: "nat \<Rightarrow> nat \<Rightarrow> 'a list \<Rightarrow> 'a list" where
  "move_backward first lim xs =
     take (Suc first) xs @ take (lim - first) (drop first xs) @ drop (Suc lim) xs"

text \<open>
  \<^verbatim>\<open>__insertion_sort\<close>, \<^verbatim>\<open>__unguarded_insertion_sort\<close> and
  \<^verbatim>\<open>__final_insertion_sort\<close>. \<open>for_each\<close> runs a loop body over the positions of a
  range, and \<open>insertion_step\<close> is the body of the loop of \<^verbatim>\<open>__insertion_sort\<close>.
\<close>

fun for_each :: "(nat \<Rightarrow> 'a list \<Rightarrow> 'a list option) \<Rightarrow> nat list \<Rightarrow> 'a list \<Rightarrow> 'a list option" where
  "for_each body [] xs = Some xs"
| "for_each body (i # rest) xs =
     (case body i xs of None \<Rightarrow> None | Some ys \<Rightarrow> for_each body rest ys)"

definition insertion_step ::
  "('a \<Rightarrow> 'a \<Rightarrow> bool) \<Rightarrow> nat \<Rightarrow> nat \<Rightarrow> 'a list \<Rightarrow> 'a list option" where
  "insertion_step cmp first i xs =
     (if cmp (xs ! i) (xs ! first)
      then Some ((move_backward first i xs)[first := xs ! i])
      else unguarded_linear_insert cmp i xs)"

definition insertion_sort ::
  "('a \<Rightarrow> 'a \<Rightarrow> bool) \<Rightarrow> nat \<Rightarrow> nat \<Rightarrow> 'a list \<Rightarrow> 'a list option" where
  "insertion_sort cmp first lim xs =
     (if first = lim then Some xs
      else for_each (insertion_step cmp first) [first + 1..<lim] xs)"

definition unguarded_insertion_sort ::
  "('a \<Rightarrow> 'a \<Rightarrow> bool) \<Rightarrow> nat \<Rightarrow> nat \<Rightarrow> 'a list \<Rightarrow> 'a list option" where
  "unguarded_insertion_sort cmp first lim xs =
     for_each (unguarded_linear_insert cmp) [first..<lim] xs"

definition S_threshold :: nat where
  "S_threshold = 16"

definition final_insertion_sort ::
  "('a \<Rightarrow> 'a \<Rightarrow> bool) \<Rightarrow> nat \<Rightarrow> nat \<Rightarrow> 'a list \<Rightarrow> 'a list option" where
  "final_insertion_sort cmp first lim xs =
     (if lim - first > S_threshold
      then (case insertion_sort cmp first (first + S_threshold) xs of
              None \<Rightarrow> None
            | Some ys \<Rightarrow> unguarded_insertion_sort cmp (first + S_threshold) lim ys)
      else insertion_sort cmp first lim xs)"

text \<open>
  The heap routines of \<^verbatim>\<open>bits/stl_heap.h\<close>: \<^verbatim>\<open>__push_heap\<close>, \<^verbatim>\<open>__adjust_heap\<close>
  (its \<^verbatim>\<open>while\<close> loop is \<open>adjust_heap_loop\<close>), \<^verbatim>\<open>__pop_heap\<close>, \<^verbatim>\<open>__make_heap\<close>,
  \<^verbatim>\<open>__sort_heap\<close>, and \<^verbatim>\<open>__heap_select\<close> and \<^verbatim>\<open>__partial_sort\<close> of
  \<^verbatim>\<open>bits/stl_algo.h\<close>. Their loops are guarded by the length of the heap.
\<close>

function push_heap ::
  "('a \<Rightarrow> 'a \<Rightarrow> bool) \<Rightarrow> nat \<Rightarrow> nat \<Rightarrow> nat \<Rightarrow> 'a \<Rightarrow> 'a list \<Rightarrow> 'a list" where
  "push_heap cmp first holeIndex topIndex val xs =
     (let parent = (holeIndex - 1) div 2
      in if holeIndex > topIndex \<and> cmp (xs ! (first + parent)) val
         then push_heap cmp first parent topIndex val
                (xs[first + holeIndex := xs ! (first + parent)])
         else xs[first + holeIndex := val])"
  by pat_completeness auto
termination
  by (relation "measure (\<lambda>(cmp, first, holeIndex, topIndex, val, xs). holeIndex)") auto

declare push_heap.simps [simp del]

function adjust_heap_loop ::
  "('a \<Rightarrow> 'a \<Rightarrow> bool) \<Rightarrow> nat \<Rightarrow> nat \<Rightarrow> nat \<Rightarrow> nat \<Rightarrow> 'a list \<Rightarrow> nat \<times> nat \<times> 'a list" where
  "adjust_heap_loop cmp first len holeIndex secondChild xs =
     (if secondChild < (len - 1) div 2
      then (let sc = 2 * (secondChild + 1);
                sc = (if cmp (xs ! (first + sc)) (xs ! (first + (sc - 1))) then sc - 1 else sc)
            in adjust_heap_loop cmp first len sc sc (xs[first + holeIndex := xs ! (first + sc)]))
      else (holeIndex, secondChild, xs))"
  by pat_completeness auto
termination
  by (relation "measure (\<lambda>(cmp, first, len, holeIndex, secondChild, xs). len - secondChild)")
     (auto simp add: Let_def)

declare adjust_heap_loop.simps [simp del]

definition adjust_heap ::
  "('a \<Rightarrow> 'a \<Rightarrow> bool) \<Rightarrow> nat \<Rightarrow> nat \<Rightarrow> nat \<Rightarrow> 'a \<Rightarrow> 'a list \<Rightarrow> 'a list" where
  "adjust_heap cmp first holeIndex len val xs =
     (case adjust_heap_loop cmp first len holeIndex holeIndex xs of
        (hole, secondChild, ys) \<Rightarrow>
          if len mod 2 = 0 \<and> secondChild = (len - 2) div 2
          then (let sc = 2 * (secondChild + 1)
                in push_heap cmp first (sc - 1) holeIndex val
                     (ys[first + hole := ys ! (first + (sc - 1))]))
          else push_heap cmp first hole holeIndex val ys)"

definition pop_heap ::
  "('a \<Rightarrow> 'a \<Rightarrow> bool) \<Rightarrow> nat \<Rightarrow> nat \<Rightarrow> nat \<Rightarrow> 'a list \<Rightarrow> 'a list" where
  "pop_heap cmp first lim result xs =
     adjust_heap cmp first 0 (lim - first) (xs ! result) (xs[result := xs ! first])"

fun make_heap_loop ::
  "('a \<Rightarrow> 'a \<Rightarrow> bool) \<Rightarrow> nat \<Rightarrow> nat \<Rightarrow> nat \<Rightarrow> 'a list \<Rightarrow> 'a list" where
  "make_heap_loop cmp first len 0 xs = adjust_heap cmp first 0 len (xs ! first) xs"
| "make_heap_loop cmp first len (Suc parent) xs =
     make_heap_loop cmp first len parent
       (adjust_heap cmp first (Suc parent) len (xs ! (first + Suc parent)) xs)"

definition make_heap :: "('a \<Rightarrow> 'a \<Rightarrow> bool) \<Rightarrow> nat \<Rightarrow> nat \<Rightarrow> 'a list \<Rightarrow> 'a list" where
  "make_heap cmp first lim xs =
     (if lim - first < 2 then xs
      else make_heap_loop cmp first (lim - first) ((lim - first - 2) div 2) xs)"

function sort_heap :: "('a \<Rightarrow> 'a \<Rightarrow> bool) \<Rightarrow> nat \<Rightarrow> nat \<Rightarrow> 'a list \<Rightarrow> 'a list" where
  "sort_heap cmp first lim xs =
     (if lim - first > 1
      then sort_heap cmp first (lim - 1) (pop_heap cmp first (lim - 1) (lim - 1) xs)
      else xs)"
  by pat_completeness auto
termination
  by (relation "measure (\<lambda>(cmp, first, lim, xs). lim)") auto

declare sort_heap.simps [simp del]

definition heap_select ::
  "('a \<Rightarrow> 'a \<Rightarrow> bool) \<Rightarrow> nat \<Rightarrow> nat \<Rightarrow> nat \<Rightarrow> 'a list \<Rightarrow> 'a list" where
  "heap_select cmp first middle lim xs =
     fold (\<lambda>i ys. if cmp (ys ! i) (ys ! first) then pop_heap cmp first middle i ys else ys)
       [middle..<lim] (make_heap cmp first middle xs)"

definition partial_sort ::
  "('a \<Rightarrow> 'a \<Rightarrow> bool) \<Rightarrow> nat \<Rightarrow> nat \<Rightarrow> nat \<Rightarrow> 'a list \<Rightarrow> 'a list" where
  "partial_sort cmp first middle lim xs =
     sort_heap cmp first middle (heap_select cmp first middle lim xs)"

text \<open>
  \<^verbatim>\<open>__introsort_loop(first, last, depth_limit, comp)\<close> and \<^verbatim>\<open>__sort\<close>. The
  \<^verbatim>\<open>while\<close> loop continues on the left part with the decremented depth limit, which
  is the second recursive call here.
\<close>

function introsort_loop ::
  "('a \<Rightarrow> 'a \<Rightarrow> bool) \<Rightarrow> nat \<Rightarrow> nat \<Rightarrow> nat \<Rightarrow> 'a list \<Rightarrow> 'a list option" where
  "introsort_loop cmp first lim depth_limit xs =
     (if lim - first > S_threshold
      then (case depth_limit of
              0 \<Rightarrow> Some (partial_sort cmp first lim lim xs)
            | Suc d \<Rightarrow>
                (case unguarded_partition_pivot cmp first lim xs of
                   None \<Rightarrow> None
                 | Some (cut', ys) \<Rightarrow>
                     (case introsort_loop cmp cut' lim d ys of
                        None \<Rightarrow> None
                      | Some zs \<Rightarrow> introsort_loop cmp first cut' d zs)))
      else Some xs)"
  by pat_completeness auto
termination
  by (relation "measure (\<lambda>(cmp, first, lim, depth_limit, xs). depth_limit)") auto

declare introsort_loop.simps [simp del]

definition std_sort :: "('a \<Rightarrow> 'a \<Rightarrow> bool) \<Rightarrow> 'a list \<Rightarrow> 'a list option" where
  "std_sort cmp xs =
     (if xs \<noteq> []
      then (case introsort_loop cmp 0 (length xs) (lg (length xs) * 2) xs of
              None \<Rightarrow> None
            | Some ys \<Rightarrow> final_insertion_sort cmp 0 (length xs) ys)
      else Some xs)"

text \<open>
  Lines 146 to 152: \<open>p\<close> is \<open>0, 1, ..., ctr - 1\<close> sorted with the comparator
  \<^verbatim>\<open>sizes[lhs] > sizes[rhs]\<close>. \<open>gather_off_node_nodes_libstdcxx\<close> is the whole function
  with this sort in place of the argument \<open>p\<close>.
\<close>

definition sort_permutation :: "nat list \<Rightarrow> nat list option" where
  "sort_permutation sizes = std_sort (\<lambda>lhs rhs. sizes ! lhs > sizes ! rhs) [0..<length sizes]"

definition gather_off_node_nodes_libstdcxx ::
  "tap_comm \<Rightarrow> nat list list \<Rightarrow> nat list \<Rightarrow> (nat list \<times> nat list) option" where
  "gather_off_node_nodes_libstdcxx c local_cols nodal_num_local =
     (case sort_permutation (nodal_off_node_sizes c local_cols) of
        None \<Rightarrow> None
      | Some p \<Rightarrow> gather_off_node_nodes c local_cols p nodal_num_local)"

text \<open>
  The aggregate volume of a host as the specification words it: the number of off-node
  columns, over all processes of the calling host, that the host owns.
\<close>

definition host_volume :: "nat list list \<Rightarrow> nat \<Rightarrow> nat" where
  "host_volume local_cols node = sum_list (map (\<lambda>cols. count_list cols node) local_cols)"

text \<open>
  Eighteen hosts of four processes each. The four processes of host 0 need one column
  from each of the hosts 1 to 17.
\<close>

definition example_wide :: tap_comm where
  "example_wide = \<lparr>PPN = 4, num_nodes = 18, rank_ordering = 1, eager_cutoff = 2,
     short_cutoff = 1, ideal_n_comm = 2\<rparr>"

definition cols_17 :: "nat list list" where
  "cols_17 = [[1, 2, 3, 4, 5], [6, 7, 8, 9], [10, 11, 12, 13], [14, 15, 16, 17]]"

subsection \<open>Invariants of the library sort\<close>

text \<open>
  \<open>inserted j i xs\<close> is \<open>xs\<close> after the element at \<open>i\<close> has been moved down to
  position \<open>j\<close>, which is what one step of an insertion sort does. \<open>ins_inv Q xs i ys\<close>
  is the invariant of the insertion sorts after the first \<open>i\<close> positions of \<open>xs\<close> have
  been processed: these positions hold the same elements as before, ordered by \<open>Q\<close>, and
  the rest of the list is untouched.
\<close>

definition inserted :: "nat \<Rightarrow> nat \<Rightarrow> 'a list \<Rightarrow> 'a list" where
  "inserted j i xs = take j xs @ [xs ! i] @ take (i - j) (drop j xs) @ drop (Suc i) xs"

definition ins_inv :: "('a \<Rightarrow> 'a \<Rightarrow> bool) \<Rightarrow> 'a list \<Rightarrow> nat \<Rightarrow> 'a list \<Rightarrow> bool" where
  "ins_inv Q xs i ys \<longleftrightarrow>
     length ys = length xs \<and> drop i ys = drop i xs \<and>
     mset (take i ys) = mset (take i xs) \<and> sorted_wrt Q (take i ys)"

text \<open>
  In a heap of \<open>n\<close> elements that starts at position \<open>first\<close>, the parent of the element
  with index \<open>i > 0\<close> has index \<open>(i - 1) div 2\<close>. \<open>is_desc tp h\<close>: index \<open>h\<close> lies in
  the subtree below \<open>tp\<close>. \<open>heap_from key first lo n xs\<close>: every element whose parent has
  index \<open>lo\<close> or more has a key that is not smaller than its parent's; with the comparator
  \<^verbatim>\<open>sizes[lhs] > sizes[rhs]\<close> this is the heap order of the library, the element of
  least volume being at the root. \<open>hole_inv\<close> is the invariant of
  \<^verbatim>\<open>__adjust_heap\<close> and \<^verbatim>\<open>__push_heap\<close> while the position \<open>h\<close> is vacant: the
  heap order below \<open>tp\<close> holds wherever \<open>h\<close> is not involved, and the children of \<open>h\<close>
  are in order with the parent of \<open>h\<close>.
\<close>

inductive is_desc :: "nat \<Rightarrow> nat \<Rightarrow> bool" for tp :: nat where
  is_desc_refl: "is_desc tp tp"
| is_desc_child: "is_desc tp h \<Longrightarrow> 0 < c \<Longrightarrow> (c - 1) div 2 = h \<Longrightarrow> is_desc tp c"

definition heap_from :: "('a \<Rightarrow> nat) \<Rightarrow> nat \<Rightarrow> nat \<Rightarrow> nat \<Rightarrow> 'a list \<Rightarrow> bool" where
  "heap_from key first lo n xs \<longleftrightarrow>
     (\<forall>i. 0 < i \<and> i < n \<and> lo \<le> (i - 1) div 2 \<longrightarrow>
        key (xs ! (first + (i - 1) div 2)) \<le> key (xs ! (first + i)))"

definition hole_inv :: "('a \<Rightarrow> nat) \<Rightarrow> nat \<Rightarrow> nat \<Rightarrow> nat \<Rightarrow> nat \<Rightarrow> 'a list \<Rightarrow> bool" where
  "hole_inv key first tp n h xs \<longleftrightarrow>
     h < n \<and> is_desc tp h \<and>
     (\<forall>i. 0 < i \<and> i < n \<and> tp \<le> (i - 1) div 2 \<and> i \<noteq> h \<and> (i - 1) div 2 \<noteq> h \<longrightarrow>
        key (xs ! (first + (i - 1) div 2)) \<le> key (xs ! (first + i))) \<and>
     (h \<noteq> tp \<longrightarrow>
        (\<forall>c. 0 < c \<and> c < n \<and> (c - 1) div 2 = h \<longrightarrow>
           key (xs ! (first + (h - 1) div 2)) \<le> key (xs ! (first + c))))"

section \<open>Properties\<close>

subsection \<open>Topology mapper\<close>

lemmas topo_defs = get_node_def get_node_run_def get_local_proc_def get_local_proc_run_def
  get_global_proc_def get_global_proc_run_def c_div_def c_mod_def

lemma c_div_nonneg: "0 \<le> a \<Longrightarrow> 0 < b \<Longrightarrow> c_div a b = a div b"
  by (simp add: c_div_def)

lemma c_mod_nonneg: "0 \<le> a \<Longrightarrow> 0 < b \<Longrightarrow> c_mod a b = a mod b"
  by (simp add: c_mod_def c_div_def minus_div_mult_eq_mod)

text \<open>
  Under orderings 0 and 1 the three functions invert each other on every rank, whoever
  calls them.
\<close>

lemma round_trip_row_major:
  assumes "rank_ordering c = 0" "0 < num_nodes c" "0 \<le> r"
  shows "get_global_proc c rank (get_node c rank r) (get_local_proc c rank r) = r"
  using assms
  by (simp add: get_node_def get_node_run_def get_local_proc_def get_local_proc_run_def
      get_global_proc_def get_global_proc_run_def c_div_nonneg c_mod_nonneg)

lemma round_trip_block_major:
  assumes "rank_ordering c = 1" "0 < PPN c" "0 \<le> r"
  shows "get_global_proc c rank (get_node c rank r) (get_local_proc c rank r) = r"
  using assms
  by (simp add: get_node_def get_node_run_def get_local_proc_def get_local_proc_run_def
      get_global_proc_def get_global_proc_run_def c_div_nonneg c_mod_nonneg)

text \<open>
  Under ordering 2, \<open>get_node\<close> looks at the row \<open>proc / num_nodes\<close> of its argument,
  but \<open>get_global_proc\<close> looks at the row \<open>rank / num_nodes\<close> of the caller. The round
  trip holds when the two rows have the same parity.
\<close>

lemma round_trip_snake_same_row_parity:
  assumes "rank_ordering c = 2" "0 < num_nodes c" "0 \<le> r" "0 \<le> rank"
    and "even (rank div int (num_nodes c)) = even (r div int (num_nodes c))"
  shows "get_global_proc c rank (get_node c rank r) (get_local_proc c rank r) = r"
proof -
  have d: "c_div r (int (num_nodes c)) = r div int (num_nodes c)"
          "c_div rank (int (num_nodes c)) = rank div int (num_nodes c)"
          "c_mod r (int (num_nodes c)) = r mod int (num_nodes c)"
    using assms by (simp_all add: c_div_nonneg c_mod_nonneg)
  have p: "0 \<le> r div int (num_nodes c)" "0 \<le> rank div int (num_nodes c)"
    using assms by (simp_all add: pos_imp_zdiv_nonneg_iff)
  have m: "\<And>x::int. 0 \<le> x \<Longrightarrow> c_mod x 2 = x mod 2"
    by (simp add: c_mod_nonneg)
  show ?thesis
    using assms p
    by (auto simp add: get_node_def get_node_run_def get_local_proc_def get_local_proc_run_def
        get_global_proc_def get_global_proc_run_def d m even_iff_mod_2_eq_zero algebra_simps)
qed

text \<open>
  C1. The round trip \<open>get_global_proc (get_node r) (get_local_proc r) = r\<close> is claimed
  for orderings 0, 1 and 2, every rank \<open>r\<close> below \<open>PPN * num_nodes\<close> and every calling
  process. With two hosts of two processes under ordering 2, rank 2 lies in row 1: process
  0 (row 0) maps it to host 1, local rank 1, and back to rank 3, while process 2 maps it
  back to rank 2. The result depends on the caller, and on process 0 the round trip is
  broken.
\<close>

theorem get_global_proc_caller_dependent:
  "get_global_proc snake_2x2 0 (get_node snake_2x2 0 2) (get_local_proc snake_2x2 0 2) = 3 \<and>
   get_global_proc snake_2x2 2 (get_node snake_2x2 2 2) (get_local_proc snake_2x2 2 2) = 2"
  by (simp add: snake_2x2_def topo_defs)

text \<open>
  C4, as claimed: for an ordering other than 0, 1 and 2 the three functions fail with a
  configuration error instead of returning a sentinel. On a process other than rank 0 each
  of them prints nothing and returns \<open>-1\<close>.
\<close>

theorem unsupported_ordering_silent:
  "get_node_run unsupported_2x2 1 5 = ([], - 1) \<and>
   get_local_proc_run unsupported_2x2 1 5 = ([], - 1) \<and>
   get_global_proc_run unsupported_2x2 1 0 1 = ([], - 1)"
  by (simp add: unsupported_2x2_def topo_defs)

text \<open>
  C4, amended: for an ordering other than 0, 1 and 2 each of the three functions returns
  \<open>-1\<close> to its caller; the message is printed by rank 0 only, and no error is raised.
\<close>

theorem unsupported_ordering_returns_sentinel:
  assumes "rank_ordering c \<noteq> 0" "rank_ordering c \<noteq> 1" "rank_ordering c \<noteq> 2"
  shows "get_node_run c rank proc = (if rank = 0 then [unsupported_msg] else [], - 1) \<and>
         get_local_proc_run c rank proc = (if rank = 0 then [unsupported_msg] else [], - 1) \<and>
         get_global_proc_run c rank node local_proc =
           (if rank = 0 then [unsupported_msg] else [], - 1)"
  using assms by (simp add: get_node_run_def get_local_proc_run_def get_global_proc_run_def)

theorem unsupported_ordering_returns_sentinel_witness:
  "get_node_run unsupported_2x2 0 5 = ([unsupported_msg], - 1) \<and>
   get_local_proc_run unsupported_2x2 0 5 = ([unsupported_msg], - 1) \<and>
   get_global_proc_run unsupported_2x2 0 0 1 = ([unsupported_msg], - 1)"
  using unsupported_ordering_returns_sentinel [of unsupported_2x2 0 5 0 1]
  by (simp add: unsupported_2x2_def)

subsection \<open>Column classifier\<close>

lemma split_fold:
  "fold (split_step c rank cm cp) [0..<n] s =
     (s\<lparr>on_node_column_map :=
          on_node_column_map s @ map (\<lambda>i. cm ! i) (filter (on_node_at c rank cp) [0..<n]),
        on_node_col_to_proc := on_node_col_to_proc s @
          map (\<lambda>i. get_local_proc c rank (cp ! i)) (filter (on_node_at c rank cp) [0..<n]),
        on_node_to_off_proc := on_node_to_off_proc s @ filter (on_node_at c rank cp) [0..<n],
        off_node_column_map := off_node_column_map s @
          map (\<lambda>i. cm ! i) (filter (\<lambda>i. \<not> on_node_at c rank cp i) [0..<n]),
        off_node_col_to_node := off_node_col_to_node s @
          map (\<lambda>i. get_node c rank (cp ! i)) (filter (\<lambda>i. \<not> on_node_at c rank cp i) [0..<n]),
        off_node_to_off_proc :=
          off_node_to_off_proc s @ filter (\<lambda>i. \<not> on_node_at c rank cp i) [0..<n]\<rparr>)"
    (is "?lhs n = ?rhs n")
proof (induction n)
  case 0
  show ?case by simp
next
  case (Suc n)
  have "fold (split_step c rank cm cp) [0..<Suc n] s =
        split_step c rank cm cp n (fold (split_step c rank cm cp) [0..<n] s)"
    by simp
  also have "\<dots> = ?rhs (Suc n)"
    unfolding Suc by (simp add: split_step_def Let_def on_node_at_def [abs_def])
  finally show ?case .
qed

lemma sorted_wrt_filter_upt: "sorted_wrt (<) (filter P [0..<n])"
  by (simp add: sorted_wrt_filter)

text \<open>
  C7. Called with six empty result vectors and an owner array as long as the column map,
  \<open>split_off_proc_cols\<close> puts position \<open>i\<close> on the on-node side exactly when the
  owner's host is the caller's host. The on-node columns are paired with the owner's
  intra-host rank and the off-node columns with the owner's host id. Both correspondence
  lists are strictly increasing, and together they hold every position of the off-process
  list exactly once. The two inputs are arguments of the function and not part of what it
  returns: the source takes them by const reference.
\<close>

theorem split_off_proc_cols_partition:
  assumes "length col_to_proc = length column_map"
    and "r = split_off_proc_cols c rank column_map col_to_proc empty_split"
  shows "on_node_to_off_proc r = filter (on_node_at c rank col_to_proc) [0..<length column_map] \<and>
         off_node_to_off_proc r =
           filter (\<lambda>i. \<not> on_node_at c rank col_to_proc i) [0..<length column_map] \<and>
         on_node_column_map r = map (\<lambda>i. column_map ! i) (on_node_to_off_proc r) \<and>
         on_node_col_to_proc r =
           map (\<lambda>i. get_local_proc c rank (col_to_proc ! i)) (on_node_to_off_proc r) \<and>
         off_node_column_map r = map (\<lambda>i. column_map ! i) (off_node_to_off_proc r) \<and>
         off_node_col_to_node r =
           map (\<lambda>i. get_node c rank (col_to_proc ! i)) (off_node_to_off_proc r) \<and>
         sorted_wrt (<) (on_node_to_off_proc r) \<and> sorted_wrt (<) (off_node_to_off_proc r) \<and>
         mset (on_node_to_off_proc r @ off_node_to_off_proc r) = mset [0..<length column_map]"
  using assms(2)
  by (simp add: split_off_proc_cols_def split_fold empty_split_def sorted_wrt_filter_upt
      del: mset_upt)

theorem split_off_proc_cols_partition_witness:
  "on_node_to_off_proc (split_off_proc_cols block_2x2 0 [10, 20, 30] [1, 2, 3] empty_split) = [0] \<and>
   off_node_to_off_proc (split_off_proc_cols block_2x2 0 [10, 20, 30] [1, 2, 3] empty_split) = [1, 2] \<and>
   on_node_column_map (split_off_proc_cols block_2x2 0 [10, 20, 30] [1, 2, 3] empty_split) = [10] \<and>
   on_node_col_to_proc (split_off_proc_cols block_2x2 0 [10, 20, 30] [1, 2, 3] empty_split) = [1] \<and>
   off_node_column_map (split_off_proc_cols block_2x2 0 [10, 20, 30] [1, 2, 3] empty_split) = [20, 30] \<and>
   off_node_col_to_node (split_off_proc_cols block_2x2 0 [10, 20, 30] [1, 2, 3] empty_split) = [1, 1]"
proof -
  have len: "length [1, 2, 3 :: int] = length [10, 20, 30 :: int]"
    by simp
  have up: "[0..<3] = [0, 1, 2]"
    by (simp add: upt_rec)
  show ?thesis
    using split_off_proc_cols_partition [OF len refl, of block_2x2 0]
    by (simp add: up on_node_at_def block_2x2_def topo_defs)
qed

subsection \<open>Index rewrite\<close>

lemma map_subscript_value: "fst (map_subscript m k) = subscript_value m k"
  by (simp add: map_subscript_def subscript_value_def split: option.splits)

lemma map_subscript_keeps_values:
  "subscript_value (snd (map_subscript m k)) = subscript_value m"
  by (rule ext) (simp add: map_subscript_def subscript_value_def split: option.splits)

lemma rewrite_fold:
  "n \<le> length send \<Longrightarrow>
   subscript_value (fst (fold rewrite_step [0..<n] (m, send))) = subscript_value m \<and>
   snd (fold rewrite_step [0..<n] (m, send)) = map (subscript_value m) (take n send) @ drop n send"
proof (induction n)
  case 0
  show ?case by simp
next
  case (Suc n)
  define st where "st = fold rewrite_step [0..<n] (m, send)"
  have step: "fold rewrite_step [0..<Suc n] (m, send) = rewrite_step n st"
    by (simp add: st_def)
  from Suc have n: "n < length send"
    and IH: "subscript_value (fst st) = subscript_value m"
      "snd st = map (subscript_value m) (take n send) @ drop n send"
    by (simp_all add: st_def)
  have at: "snd st ! n = send ! n"
    using n by (simp add: IH(2) nth_append)
  have upd: "(snd st)[n := subscript_value m (send ! n)]
             = map (subscript_value m) (take (Suc n) send) @ drop (Suc n) send"
    using n unfolding IH(2)
    by (simp add: take_Suc_conv_app_nth list_update_append upd_conv_take_nth_drop
        Cons_nth_drop_Suc [symmetric])
  show ?case
    unfolding step
    by (simp add: rewrite_step_def Let_def map_subscript_value map_subscript_keeps_values
        IH(1) at upd)
qed

lemma rewrite_indices_eq:
  "rewrite_indices recv send = map (subscript_value (global_to_local recv)) send"
  using rewrite_fold [of "length send" send "global_to_local recv"]
  by (simp add: rewrite_indices_def)

lemma global_to_local_fold:
  "n \<le> length recv \<Longrightarrow>
   (k \<notin> set (take n recv) \<longrightarrow> fold (\<lambda>i m. m(recv ! i \<mapsto> int i)) [0..<n] Map.empty k = None) \<and>
   (k \<in> set (take n recv) \<longrightarrow>
      (\<exists>i<n. fold (\<lambda>i m. m(recv ! i \<mapsto> int i)) [0..<n] Map.empty k = Some (int i) \<and> recv ! i = k))"
proof (induction n)
  case 0
  show ?case by simp
next
  case (Suc n)
  then show ?case
    by (auto simp add: take_Suc_conv_app_nth less_Suc_eq)
qed

lemma global_to_local_absent:
  "k \<notin> set recv \<Longrightarrow> subscript_value (global_to_local recv) k = 0"
  using global_to_local_fold [of "length recv" recv k]
  by (simp add: global_to_local_def subscript_value_def)

lemma global_to_local_present:
  "k \<in> set recv \<Longrightarrow> position_of recv k (subscript_value (global_to_local recv) k)"
  using global_to_local_fold [of "length recv" recv k]
  by (auto simp add: global_to_local_def subscript_value_def position_of_def)

lemma position_of_member: "position_of recv k pos \<Longrightarrow> k \<in> set recv"
  by (auto simp add: position_of_def)

lemma rewrite_indices_spec:
  "length (rewrite_indices recv send) = length send \<and>
   (\<forall>i<length send.
      (send ! i \<notin> set recv \<longrightarrow> rewrite_indices recv send ! i = 0) \<and>
      (send ! i \<in> set recv \<longrightarrow> position_of recv (send ! i) (rewrite_indices recv send ! i))) \<and>
   ((\<forall>i<length send. position_of recv (send ! i) (rewrite_indices recv send ! i))
      \<longleftrightarrow> set send \<subseteq> set recv)"
proof -
  have a: "\<forall>i<length send.
      (send ! i \<notin> set recv \<longrightarrow> rewrite_indices recv send ! i = 0) \<and>
      (send ! i \<in> set recv \<longrightarrow> position_of recv (send ! i) (rewrite_indices recv send ! i))"
    by (simp add: rewrite_indices_eq global_to_local_absent global_to_local_present)
  have b: "(\<forall>i<length send. position_of recv (send ! i) (rewrite_indices recv send ! i))
      \<longleftrightarrow> set send \<subseteq> set recv"
  proof
    assume h: "\<forall>i<length send. position_of recv (send ! i) (rewrite_indices recv send ! i)"
    show "set send \<subseteq> set recv"
    proof
      fix k assume "k \<in> set send"
      then obtain i where "i < length send" "send ! i = k"
        by (auto simp add: in_set_conv_nth)
      with h show "k \<in> set recv"
        using position_of_member by blast
    qed
  next
    assume "set send \<subseteq> set recv"
    then show "\<forall>i<length send. position_of recv (send ! i) (rewrite_indices recv send ! i)"
      using a by (simp add: subset_iff)
  qed
  show ?thesis using a b by (simp add: rewrite_indices_eq)
qed

text \<open>
  C10. In \<open>adjust_send_indices\<close> an identifier of the global-stage send ledger that
  does not occur in the S-stage receive buffer is rewritten to 0, and likewise an identifier
  of the R-stage send ledger that does not occur in the global-stage receive buffer; the
  function always returns and reports nothing. The rewritten indices are positions of the
  original identifiers in the receive buffer exactly when every recorded identifier occurs
  in that buffer. The receive buffers themselves are left as they were.
\<close>

theorem adjust_send_indices_silent_default:
  "recv_data (local_S_par_comm (adjust_send_indices first_local_row t)) =
     recv_data (local_S_par_comm t) \<and>
   recv_data (global_par_comm (adjust_send_indices first_local_row t)) =
     recv_data (global_par_comm t) \<and>
   (\<forall>i<length (indices (send_data (global_par_comm t))).
      indices (send_data (global_par_comm t)) ! i
        \<notin> set (indices (recv_data (local_S_par_comm t))) \<longrightarrow>
      indices (send_data (global_par_comm (adjust_send_indices first_local_row t))) ! i = 0) \<and>
   (\<forall>i<length (indices (send_data (local_R_par_comm t))).
      indices (send_data (local_R_par_comm t)) ! i
        \<notin> set (indices (recv_data (global_par_comm t))) \<longrightarrow>
      indices (send_data (local_R_par_comm (adjust_send_indices first_local_row t))) ! i = 0) \<and>
   ((\<forall>i<length (indices (send_data (global_par_comm t))).
       position_of (indices (recv_data (local_S_par_comm t)))
         (indices (send_data (global_par_comm t)) ! i)
         (indices (send_data (global_par_comm (adjust_send_indices first_local_row t))) ! i))
     \<longleftrightarrow> set (indices (send_data (global_par_comm t)))
           \<subseteq> set (indices (recv_data (local_S_par_comm t)))) \<and>
   ((\<forall>i<length (indices (send_data (local_R_par_comm t))).
       position_of (indices (recv_data (global_par_comm t)))
         (indices (send_data (local_R_par_comm t)) ! i)
         (indices (send_data (local_R_par_comm (adjust_send_indices first_local_row t))) ! i))
     \<longleftrightarrow> set (indices (send_data (local_R_par_comm t)))
           \<subseteq> set (indices (recv_data (global_par_comm t))))"
proof -
  have G: "indices (send_data (global_par_comm (adjust_send_indices first_local_row t))) =
           rewrite_indices (indices (recv_data (local_S_par_comm t)))
             (indices (send_data (global_par_comm t)))"
    by (simp add: adjust_send_indices_def Let_def)
  have R: "indices (send_data (local_R_par_comm (adjust_send_indices first_local_row t))) =
           rewrite_indices (indices (recv_data (global_par_comm t)))
             (indices (send_data (local_R_par_comm t)))"
    by (simp add: adjust_send_indices_def Let_def)
  have keep: "recv_data (local_S_par_comm (adjust_send_indices first_local_row t)) =
                recv_data (local_S_par_comm t)"
     "recv_data (global_par_comm (adjust_send_indices first_local_row t)) =
        recv_data (global_par_comm t)"
    by (simp_all add: adjust_send_indices_def Let_def)
  show ?thesis
    unfolding G R keep
    using rewrite_indices_spec [of "indices (recv_data (local_S_par_comm t))"
        "indices (send_data (global_par_comm t))"]
      rewrite_indices_spec [of "indices (recv_data (global_par_comm t))"
        "indices (send_data (local_R_par_comm t))"]
    by simp
qed

theorem adjust_send_indices_silent_default_witness:
  "indices (send_data (global_par_comm (adjust_send_indices 10 stages_example))) = [1, 0] \<and>
   indices (send_data (local_R_par_comm (adjust_send_indices 10 stages_example))) = [1, 0, 1] \<and>
   5 \<notin> set (indices (recv_data (local_S_par_comm stages_example))) \<and>
   \<not> position_of (indices (recv_data (local_S_par_comm stages_example))) 5 0 \<and>
   set (indices (send_data (local_R_par_comm stages_example)))
     \<subseteq> set (indices (recv_data (global_par_comm stages_example)))"
  using adjust_send_indices_silent_default [of 10 stages_example]
  by (simp add: stages_example_def ledger_of_def new_comm_data_def adjust_send_indices_def
      rewrite_indices_eq global_to_local_def subscript_value_def position_of_def upt_rec)

subsection \<open>In-place reorder\<close>

lemma perm_nth_less: "is_permutation p \<Longrightarrow> x < length p \<Longrightarrow> p ! x < length p"
  by (simp add: is_permutation_def)

lemma perm_nth_inj:
  "is_permutation p \<Longrightarrow> x < length p \<Longrightarrow> y < length p \<Longrightarrow> p ! x = p ! y \<Longrightarrow> x = y"
  by (simp add: is_permutation_def nth_eq_iff_index_eq)

lemma swap_at_nth:
  "a < length xs \<Longrightarrow> b < length xs \<Longrightarrow>
   swap_at a b xs ! x = (if x = b then xs ! a else if x = a then xs ! b else xs ! x)"
  by (simp add: swap_at_def nth_list_update)

lemma swap_at_length: "length (swap_at a b xs) = length xs"
  by (simp add: swap_at_def)

lemma count_false_update:
  "j < length dn \<Longrightarrow> \<not> dn ! j \<Longrightarrow>
   length (filter (\<lambda>x. \<not> x) (dn[j := True])) < length (filter (\<lambda>x. \<not> x) dn)"
proof (induction dn arbitrary: j)
  case Nil
  then show ?case by simp
next
  case (Cons d dn)
  then show ?case by (cases j) auto
qed

lemma done_inner_fresh:
  assumes "is_permutation p" "done_inner p dn prev i" "p ! prev \<noteq> i"
  shows "\<not> dn ! (p ! prev)"
proof
  assume d: "dn ! (p ! prev)"
  have "p ! prev < length p"
    using assms by (simp add: done_inner_def perm_nth_less)
  with d assms(2,3) obtain x where "x < length p" "x \<noteq> prev" "p ! x = p ! prev"
    unfolding done_inner_def by blast
  moreover have "prev < length p" using assms(2) by (simp add: done_inner_def)
  ultimately show False using perm_nth_inj [OF assms(1)] by blast
qed

lemma done_inner_step:
  assumes "is_permutation p" "done_inner p dn prev i" "p ! prev \<noteq> i"
  shows "done_inner p (dn[p ! prev := True]) (p ! prev) i"
proof -
  let ?j = "p ! prev"
  have f: "\<not> dn ! ?j" using assms by (rule done_inner_fresh)
  have jl: "?j < length p" using assms by (simp add: done_inner_def perm_nth_less)
  have l: "length dn = length p" "i < length p" "prev < length p" "dn ! i" "dn ! prev"
    using assms(2) by (simp_all add: done_inner_def)
  have a: "\<forall>x<length p. dn ! x \<and> x \<noteq> prev \<longrightarrow> dn ! (p ! x)"
    using assms(2) by (simp add: done_inner_def)
  have b: "\<forall>y<length p. dn ! y \<and> y \<noteq> i \<longrightarrow> (\<exists>x<length p. dn ! x \<and> x \<noteq> prev \<and> p ! x = y)"
    using assms(2) by (simp add: done_inner_def)
  have a': "\<forall>x<length p. dn[?j := True] ! x \<and> x \<noteq> ?j \<longrightarrow> dn[?j := True] ! (p ! x)"
    using a l jl by (auto simp add: nth_list_update perm_nth_less [OF assms(1)])
  have b': "\<forall>y<length p. dn[?j := True] ! y \<and> y \<noteq> i \<longrightarrow>
              (\<exists>x<length p. dn[?j := True] ! x \<and> x \<noteq> ?j \<and> p ! x = y)"
  proof (intro allI impI)
    fix y assume y: "y < length p" "dn[?j := True] ! y \<and> y \<noteq> i"
    show "\<exists>x<length p. dn[?j := True] ! x \<and> x \<noteq> ?j \<and> p ! x = y"
    proof (cases "y = ?j")
      case True
      have "?j \<noteq> prev" using f l by auto
      with True show ?thesis using l by (intro exI [of _ prev]) (simp add: nth_list_update)
    next
      case False
      with y l have "dn ! y \<and> y \<noteq> i" by (simp add: nth_list_update)
      with b y obtain x where x: "x < length p" "dn ! x" "x \<noteq> prev" "p ! x = y" by blast
      then have "x \<noteq> ?j" using f by auto
      with x l show ?thesis by (intro exI [of _ x]) (auto simp add: nth_list_update)
    qed
  qed
  show ?thesis
    unfolding done_inner_def using l jl a' b' by (simp add: nth_list_update)
qed

lemma arr_inner_step:
  assumes "is_permutation p" "done_inner p dn prev i" "p ! prev \<noteq> i" "arr_inner p src arr dn prev i"
  shows "arr_inner p src (swap_at prev (p ! prev) arr) (dn[p ! prev := True]) (p ! prev) i"
proof -
  let ?j = "p ! prev"
  have f: "\<not> dn ! ?j" using assms(1-3) by (rule done_inner_fresh)
  have jl: "?j < length p" using assms by (simp add: done_inner_def perm_nth_less)
  have l: "length dn = length p" "i < length p" "prev < length p" "dn ! i" "dn ! prev"
    using assms(2) by (simp_all add: done_inner_def)
  have ne: "?j \<noteq> prev" using f l by auto
  have A: "length arr = length p" "arr ! prev = src ! i"
    "\<forall>x<length p. dn ! x \<and> x \<noteq> prev \<longrightarrow> arr ! x = src ! (p ! x)"
    "\<forall>x<length p. \<not> dn ! x \<longrightarrow> arr ! x = src ! x"
    using assms(4) by (simp_all add: arr_inner_def)
  have sw: "\<And>x. swap_at prev ?j arr ! x =
     (if x = ?j then arr ! prev else if x = prev then arr ! ?j else arr ! x)"
    using A(1) l jl by (simp add: swap_at_nth)
  show ?thesis
    unfolding arr_inner_def
    using A l jl f ne by (auto simp add: sw swap_at_length nth_list_update)
qed

lemma done_inner_exit:
  assumes "done_inner p dn prev i" "p ! prev = i"
  shows "done_outer p dn"
  using assms unfolding done_inner_def done_outer_def by metis

lemma arr_inner_exit:
  assumes "done_inner p dn prev i" "p ! prev = i" "arr_inner p src arr dn prev i"
  shows "arr_outer p src arr dn"
  using assms unfolding done_inner_def arr_inner_def arr_outer_def by metis


lemma nth_update_True_mono: "dn ! x \<Longrightarrow> dn[j := True] ! x"
  by (cases "j < length dn") (simp_all add: nth_list_update list_update_beyond)

lemma nth_update_True_other: "dn[j := True] ! x \<Longrightarrow> x \<noteq> j \<Longrightarrow> dn ! x"
  by (metis nth_list_update_neq)

lemma follow_cycle_total:
  assumes perm: "is_permutation p"
  shows "done_inner p dn prev i \<Longrightarrow> arr_inner p srcA a dn prev i \<Longrightarrow>
         arr_inner p srcB b dn prev i \<Longrightarrow>
         \<exists>a' b' dn'. follow_cycle p i prev (p ! prev) (a, b, dn) = Some (a', b', dn') \<and>
           done_outer p dn' \<and> arr_outer p srcA a' dn' \<and> arr_outer p srcB b' dn' \<and>
           (\<forall>x<length p. dn ! x \<longrightarrow> dn' ! x)"
proof (induction "length (filter (\<lambda>x. \<not> x) dn)" arbitrary: a b dn prev rule: less_induct)
  case less
  show ?case
  proof (cases "p ! prev = i")
    case True
    have "follow_cycle p i prev (p ! prev) (a, b, dn) = Some (a, b, dn)"
      using True by (subst follow_cycle.simps) simp
    moreover have "done_outer p dn"
      using less.prems(1) True by (rule done_inner_exit)
    moreover have "arr_outer p srcA a dn" "arr_outer p srcB b dn"
      using less.prems True by (auto intro: arr_inner_exit)
    ultimately show ?thesis by simp
  next
    case False
    let ?j = "p ! prev"
    let ?dn = "dn[?j := True]"
    have unfold: "follow_cycle p i prev ?j (a, b, dn) =
        follow_cycle p i ?j (p ! ?j) (swap_at prev ?j a, swap_at prev ?j b, ?dn)"
      using False by (subst follow_cycle.simps) simp
    have jl: "?j < length dn"
      using perm less.prems(1) by (simp add: done_inner_def perm_nth_less)
    have fresh: "\<not> dn ! ?j"
      using perm less.prems(1) False by (rule done_inner_fresh)
    have smaller: "length (filter (\<lambda>x. \<not> x) ?dn) < length (filter (\<lambda>x. \<not> x) dn)"
      using jl fresh by (rule count_false_update)
    have d: "done_inner p ?dn ?j i"
      using perm less.prems(1) False by (rule done_inner_step)
    have A: "arr_inner p srcA (swap_at prev ?j a) ?dn ?j i"
      using perm less.prems(1) False less.prems(2) by (rule arr_inner_step)
    have B: "arr_inner p srcB (swap_at prev ?j b) ?dn ?j i"
      using perm less.prems(1) False less.prems(3) by (rule arr_inner_step)
    from less.hyps [OF smaller d A B]
    obtain a' b' dn' where r:
      "follow_cycle p i ?j (p ! ?j) (swap_at prev ?j a, swap_at prev ?j b, ?dn) = Some (a', b', dn')"
      "done_outer p dn'" "arr_outer p srcA a' dn'" "arr_outer p srcB b' dn'"
      "\<forall>x<length p. ?dn ! x \<longrightarrow> dn' ! x"
      by blast
    have mono: "\<forall>x<length p. dn ! x \<longrightarrow> dn' ! x"
    proof (intro allI impI)
      fix x assume x: "x < length p" "dn ! x"
      from x(2) have "?dn ! x" by (rule nth_update_True_mono)
      with r(5) x show "dn' ! x" by blast
    qed
    show ?thesis
      unfolding unfold using r(1-4) mono by simp
  qed
qed

lemma done_inner_entry:
  assumes "done_outer p dn" "i < length p" "\<not> dn ! i"
  shows "done_inner p (dn[i := True]) i i"
proof -
  have l: "length dn = length p" using assms(1) by (simp add: done_outer_def)
  have a: "\<forall>x<length p. dn ! x \<longrightarrow> dn ! (p ! x)"
    and b: "\<forall>y<length p. dn ! y \<longrightarrow> (\<exists>x<length p. dn ! x \<and> p ! x = y)"
    using assms(1) by (simp_all add: done_outer_def)
  have a': "\<forall>x<length p. dn[i := True] ! x \<and> x \<noteq> i \<longrightarrow> dn[i := True] ! (p ! x)"
  proof (intro allI impI)
    fix x assume x: "x < length p" "dn[i := True] ! x \<and> x \<noteq> i"
    then have dx: "dn ! x" by (blast intro: nth_update_True_other)
    with a x have "dn ! (p ! x)" by blast
    then show "dn[i := True] ! (p ! x)" by (rule nth_update_True_mono)
  qed
  have b': "\<forall>y<length p. dn[i := True] ! y \<and> y \<noteq> i \<longrightarrow>
              (\<exists>x<length p. dn[i := True] ! x \<and> x \<noteq> i \<and> p ! x = y)"
  proof (intro allI impI)
    fix y assume y: "y < length p" "dn[i := True] ! y \<and> y \<noteq> i"
    then have "dn ! y" by (blast intro: nth_update_True_other)
    with b y obtain x where x: "x < length p" "dn ! x" "p ! x = y" by blast
    then have "x \<noteq> i" using assms(3) by auto
    with x l show "\<exists>x<length p. dn[i := True] ! x \<and> x \<noteq> i \<and> p ! x = y"
      by (intro exI [of _ x]) (simp add: nth_list_update)
  qed
  show ?thesis
    unfolding done_inner_def using l assms(2) a' b' by simp
qed

lemma arr_inner_entry:
  assumes "arr_outer p src arr dn" "length dn = length p" "i < length p" "\<not> dn ! i"
  shows "arr_inner p src arr (dn[i := True]) i i"
  using assms unfolding arr_outer_def arr_inner_def
  by (auto simp add: nth_list_update)

lemma reorder_loop_total:
  assumes perm: "is_permutation p"
  shows "done_outer p dn \<Longrightarrow> arr_outer p srcA a dn \<Longrightarrow> arr_outer p srcB b dn \<Longrightarrow>
         \<forall>i \<in> set rest. i < length p \<Longrightarrow>
         \<exists>a' b' dn'. reorder_loop p rest (a, b, dn) = Some (a', b', dn') \<and>
           done_outer p dn' \<and> arr_outer p srcA a' dn' \<and> arr_outer p srcB b' dn' \<and>
           (\<forall>x<length p. dn ! x \<longrightarrow> dn' ! x) \<and> (\<forall>i \<in> set rest. dn' ! i)"
proof (induction rest arbitrary: a b dn)
  case Nil
  then show ?case by simp
next
  case (Cons i rest)
  have il: "i < length p" and restl: "\<forall>i \<in> set rest. i < length p"
    using Cons.prems(4) by simp_all
  show ?case
  proof (cases "dn ! i")
    case True
    from Cons.IH [OF Cons.prems(1-3) restl]
    obtain a' b' dn' where r: "reorder_loop p rest (a, b, dn) = Some (a', b', dn')"
      "done_outer p dn'" "arr_outer p srcA a' dn'" "arr_outer p srcB b' dn'"
      "\<forall>x<length p. dn ! x \<longrightarrow> dn' ! x" "\<forall>i \<in> set rest. dn' ! i"
      by blast
    then show ?thesis using True il by simp
  next
    case False
    have l: "length dn = length p" using Cons.prems(1) by (simp add: done_outer_def)
    have d: "done_inner p (dn[i := True]) i i"
      using Cons.prems(1) il False by (rule done_inner_entry)
    have A: "arr_inner p srcA a (dn[i := True]) i i"
      using Cons.prems(2) l il False by (rule arr_inner_entry)
    have B: "arr_inner p srcB b (dn[i := True]) i i"
      using Cons.prems(3) l il False by (rule arr_inner_entry)
    from follow_cycle_total [OF perm d A B]
    obtain a1 b1 dn1 where c:
      "follow_cycle p i i (p ! i) (a, b, dn[i := True]) = Some (a1, b1, dn1)"
      "done_outer p dn1" "arr_outer p srcA a1 dn1" "arr_outer p srcB b1 dn1"
      "\<forall>x<length p. dn[i := True] ! x \<longrightarrow> dn1 ! x"
      by blast
    from Cons.IH [OF c(2-4) restl]
    obtain a' b' dn' where r: "reorder_loop p rest (a1, b1, dn1) = Some (a', b', dn')"
      "done_outer p dn'" "arr_outer p srcA a' dn'" "arr_outer p srcB b' dn'"
      "\<forall>x<length p. dn1 ! x \<longrightarrow> dn' ! x" "\<forall>i \<in> set rest. dn' ! i"
      by blast
    have i1: "dn1 ! i" using c(5) il l by simp
    have mono: "\<forall>x<length p. dn ! x \<longrightarrow> dn' ! x"
    proof (intro allI impI)
      fix x assume x: "x < length p" "dn ! x"
      from x(2) have "dn[i := True] ! x" by (rule nth_update_True_mono)
      with c(5) r(5) x show "dn' ! x" by blast
    qed
    have "reorder_loop p (i # rest) (a, b, dn) = Some (a', b', dn')"
      using False c(1) r(1) by simp
    then show ?thesis
      using r(2-4,6) mono i1 r(5) il by simp
  qed
qed

lemma reorder_in_place_total:
  assumes "is_permutation p" "length recv_nodes = length p" "length nodal_num_local = length p"
  shows "reorder_in_place p recv_nodes nodal_num_local =
           Some (reorder_by_copy p recv_nodes, reorder_by_copy p nodal_num_local)"
proof -
  let ?dn = "replicate (length p) False"
  have d: "done_outer p ?dn" by (simp add: done_outer_def)
  have A: "arr_outer p recv_nodes recv_nodes ?dn"
    and B: "arr_outer p nodal_num_local nodal_num_local ?dn"
    using assms(2,3) by (simp_all add: arr_outer_def)
  have r: "\<forall>i \<in> set [0..<length p]. i < length p" by simp
  from reorder_loop_total [OF assms(1) d A B r]
  obtain a' b' dn' where res:
    "reorder_loop p [0..<length p] (recv_nodes, nodal_num_local, ?dn) = Some (a', b', dn')"
    "arr_outer p recv_nodes a' dn'" "arr_outer p nodal_num_local b' dn'"
    "\<forall>i \<in> set [0..<length p]. dn' ! i"
    by blast
  have "a' = reorder_by_copy p recv_nodes"
    using res(2,4) by (intro nth_equalityI) (simp_all add: arr_outer_def reorder_by_copy_def)
  moreover have "b' = reorder_by_copy p nodal_num_local"
    using res(3,4) by (intro nth_equalityI) (simp_all add: arr_outer_def reorder_by_copy_def)
  ultimately show ?thesis
    by (simp add: reorder_in_place_def res(1))
qed

text \<open>
  C8. For every permutation \<open>p\<close> of the index range and every two arrays of that length,
  the in-place cycle-following reorder terminates and leaves in both arrays exactly what
  the sort-then-copy reference produces: \<open>out[i] = in[p[i]]\<close> for every index \<open>i\<close>.
\<close>

theorem reorder_in_place_refines_copy:
  assumes "is_permutation p" "length recv_nodes = length p" "length nodal_num_local = length p"
  shows "reorder_in_place p recv_nodes nodal_num_local =
           Some (reorder_by_copy p recv_nodes, reorder_by_copy p nodal_num_local) \<and>
         (\<forall>i<length p. reorder_by_copy p recv_nodes ! i = recv_nodes ! (p ! i) \<and>
            reorder_by_copy p nodal_num_local ! i = nodal_num_local ! (p ! i))"
  using reorder_in_place_total [OF assms] by (simp add: reorder_by_copy_def)

theorem reorder_in_place_refines_copy_witness:
  "is_permutation [2, 0, 1] \<and>
   reorder_in_place [2, 0, 1] [10, 20, 30 :: nat] [1, 2, 3 :: nat] =
     Some ([30, 10, 20], [3, 1, 2])"
proof -
  have p: "is_permutation [2, 0, 1]"
    by (simp add: is_permutation_def)
  have up: "[0..<3] = [0, 1, 2]"
    by (simp add: upt_rec)
  show ?thesis
    using p reorder_in_place_refines_copy [OF p, of "[10, 20, 30 :: nat]" "[1, 2, 3 :: nat]"]
    by (simp add: reorder_by_copy_def up)
qed

subsection \<open>Host discovery and load balancer\<close>

text \<open>
  In what follows the caller passes a freshly constructed, empty \<open>nodal_num_local\<close>,
  and \<open>p\<close> is any vector that \<^verbatim>\<open>std::sort\<close> may leave.
\<close>

lemma loop_breaks_mono: "loop_breaks c ctr v \<Longrightarrow> w \<le> v \<Longrightarrow> loop_breaks c ctr w"
  by (auto simp add: loop_breaks_def)

lemma fan_out_loop_result:
  "distinct ps \<Longrightarrow> \<forall>i \<in> set ps. i < length nl \<Longrightarrow>
   sorted_wrt (\<lambda>a b. \<not> sizes ! b > sizes ! a) ps \<Longrightarrow>
   length (fan_out_loop c ctr sizes ps nl) = length nl \<and>
   (\<forall>i<length nl. fan_out_loop c ctr sizes ps nl ! i =
      (if i \<in> set ps \<and> \<not> loop_breaks c ctr (sizes ! i)
       then assigned_fan_out c ctr (sizes ! i) else nl ! i))"
proof (induction ps arbitrary: nl)
  case Nil
  show ?case by simp
next
  case (Cons idx rest)
  have d: "distinct rest" "idx \<notin> set rest" and il: "idx < length nl"
    and s: "sorted_wrt (\<lambda>a b. \<not> sizes ! b > sizes ! a) rest"
    and le: "\<forall>i \<in> set rest. sizes ! i \<le> sizes ! idx"
    using Cons.prems by auto
  show ?case
  proof (cases "loop_breaks c ctr (sizes ! idx)")
    case True
    then have all: "\<forall>i \<in> set (idx # rest). loop_breaks c ctr (sizes ! i)"
      using le loop_breaks_mono by auto
    have "fan_out_loop c ctr sizes (idx # rest) nl = nl"
      using True by (auto simp add: loop_breaks_def Let_def)
    then show ?thesis using all by auto
  next
    case False
    let ?nl = "nl[idx := assigned_fan_out c ctr (sizes ! idx)]"
    have step: "fan_out_loop c ctr sizes (idx # rest) nl = fan_out_loop c ctr sizes rest ?nl"
      using False by (auto simp add: loop_breaks_def assigned_fan_out_def Let_def)
    have r: "\<forall>i \<in> set rest. i < length ?nl"
      using Cons.prems(2) by simp
    note IH = Cons.IH [OF d(1) r s]
    show ?thesis
      unfolding step using IH d(2) il False
      by (auto simp add: nth_list_update)
  qed
qed

lemma std_sort_desc_permutation: "std_sort_desc sizes p \<Longrightarrow> is_permutation p"
  by (simp add: std_sort_desc_def is_permutation_def)

lemma permutation_set: "is_permutation p \<Longrightarrow> set p = {0..<length p}"
proof -
  assume p: "is_permutation p"
  then have "set p \<subseteq> {0..<length p}" by (auto simp add: is_permutation_def)
  moreover have "card (set p) = card {0..<length p}"
    using p by (simp add: is_permutation_def distinct_card)
  ultimately show ?thesis by (simp add: card_subset_eq)
qed

lemma permutation_mset: "is_permutation p \<Longrightarrow> mset p = mset [0..<length p]"
  using permutation_set [of p]
  by (metis distinct_upt is_permutation_def set_eq_iff_mset_eq_distinct set_upt)

lemma reorder_by_copy_map: "reorder_by_copy p xs = map (\<lambda>i. xs ! i) p"
  by (rule nth_equalityI) (simp_all add: reorder_by_copy_def)

lemma reorder_by_copy_mset:
  assumes "is_permutation p" "length xs = length p"
  shows "mset (reorder_by_copy p xs) = mset xs"
proof -
  have "mset (map (\<lambda>i. xs ! i) p) = image_mset (\<lambda>i. xs ! i) (mset [0..<length p])"
    using permutation_mset [OF assms(1)] by simp
  also have "\<dots> = mset (map (\<lambda>i. xs ! i) [0..<length xs])"
    using assms(2) by simp
  also have "\<dots> = mset xs"
    by (simp add: map_nth)
  finally show ?thesis by (simp add: reorder_by_copy_map)
qed

lemma balance_nodes_result:
  assumes "std_sort_desc sizes p" "length recv_nodes = length sizes"
  shows "balance_nodes c recv_nodes sizes p [] =
           Some (map (\<lambda>k. recv_nodes ! (p ! k)) [0..<length sizes],
                 map (\<lambda>k. assigned_fan_out c (length sizes) (sizes ! (p ! k))) [0..<length sizes])"
proof (cases "length recv_nodes = 0")
  case True
  then show ?thesis using assms by (simp add: balance_nodes_def)
next
  case False
  let ?n = "length sizes"
  let ?init = "resize_fill ?n 1 ([] :: nat list)"
  let ?nl = "fan_out_loop c ?n sizes p ?init"
  have perm: "is_permutation p" using assms(1) by (rule std_sort_desc_permutation)
  have lp: "length p = ?n" using assms(1) by (simp add: std_sort_desc_def)
  have pre: "distinct p" "\<forall>i \<in> set p. i < length ?init"
    "sorted_wrt (\<lambda>a b. \<not> sizes ! b > sizes ! a) p"
    using assms(1) by (simp_all add: std_sort_desc_def resize_fill_def)
  note fo = fan_out_loop_result [OF pre, where c = c and ctr = ?n]
  have len: "length ?nl = ?n" using fo by (simp add: resize_fill_def)
  have val: "\<forall>i<?n. ?nl ! i = assigned_fan_out c ?n (sizes ! i)"
  proof (intro allI impI)
    fix i assume i: "i < ?n"
    then have "i \<in> set p" using permutation_set [OF perm] lp by simp
    moreover have "loop_breaks c ?n (sizes ! i) \<Longrightarrow> assigned_fan_out c ?n (sizes ! i) = 1"
      by (auto simp add: loop_breaks_def assigned_fan_out_def)
    ultimately show "?nl ! i = assigned_fan_out c ?n (sizes ! i)"
      using fo i by (simp add: resize_fill_def)
  qed
  have "reorder_in_place p recv_nodes ?nl =
          Some (reorder_by_copy p recv_nodes, reorder_by_copy p ?nl)"
    using perm assms(2) lp len by (intro reorder_in_place_total) simp_all
  moreover have "reorder_by_copy p ?nl =
      map (\<lambda>k. assigned_fan_out c ?n (sizes ! (p ! k))) [0..<?n]"
    using val lp perm_nth_less [OF perm] by (simp add: reorder_by_copy_def)
  ultimately show ?thesis
    using False assms(2) lp by (simp add: balance_nodes_def Let_def reorder_by_copy_def)
qed

lemma length_nodal_off_node_sizes:
  "length (nodal_off_node_sizes c local_cols) = length (nodal_recv_nodes c local_cols)"
  by (simp add: nodal_off_node_sizes_def allreduce_sum_def Let_def)

lemma gather_result:
  assumes "std_sort_desc (nodal_off_node_sizes c local_cols) p"
  shows "gather_off_node_nodes c local_cols p [] =
           Some (map (\<lambda>k. nodal_recv_nodes c local_cols ! (p ! k)) [0..<length p],
                 map (\<lambda>k. assigned_fan_out c (length p)
                            (nodal_off_node_sizes c local_cols ! (p ! k))) [0..<length p])"
proof -
  have lp: "length p = length (nodal_off_node_sizes c local_cols)"
    using assms by (simp add: std_sort_desc_def)
  show ?thesis
    unfolding gather_off_node_nodes_def lp
    using assms by (intro balance_nodes_result) (simp_all add: length_nodal_off_node_sizes)
qed

lemma std_sort_desc_nth:
  assumes "std_sort_desc sizes p" "i \<le> j" "j < length p"
  shows "sizes ! (p ! j) \<le> sizes ! (p ! i)"
proof (cases "i = j")
  case True
  then show ?thesis by simp
next
  case False
  then have "i < j" using assms(2) by simp
  moreover have "sorted_wrt (\<lambda>a b. \<not> sizes ! b > sizes ! a) p"
    using assms(1) by (simp add: std_sort_desc_def)
  ultimately have "\<not> sizes ! (p ! j) > sizes ! (p ! i)"
    using assms(3) sorted_wrt_nth_less [of "\<lambda>a b. \<not> sizes ! b > sizes ! a" p i j] by simp
  then show ?thesis by simp
qed

lemma eval_cols_8_6:
  "std_sort_desc (nodal_off_node_sizes example_small cols_8_6) [0, 1]"
  "nodal_off_node_sizes example_small cols_8_6 = [8, 6]"
  "nodal_recv_nodes example_small cols_8_6 = [1, 5]"
  by code_simp+

lemma eval_cols_6_4:
  "std_sort_desc (nodal_off_node_sizes example_small cols_6_4) [0, 1]"
  "nodal_off_node_sizes example_small cols_6_4 = [6, 4]"
  "nodal_recv_nodes example_small cols_6_4 = [1, 5]"
  by code_simp+

lemma eval_cols_6:
  "std_sort_desc (nodal_off_node_sizes example_small cols_6) [0]"
  "nodal_off_node_sizes example_small cols_6 = [6]"
  "nodal_recv_nodes example_small cols_6 = [1]"
  by code_simp+

lemma gather_cols_8_6:
  "gather_off_node_nodes example_small cols_8_6 [0, 1] [] = Some ([1, 5], [2, 3])"
  unfolding gather_result [OF eval_cols_8_6(1)] eval_cols_8_6
  by (simp add: assigned_fan_out_def example_small_def upt_rec)

lemma gather_cols_6_4:
  "gather_off_node_nodes example_small cols_6_4 [0, 1] [] = Some ([1, 5], [3, 2])"
  unfolding gather_result [OF eval_cols_6_4(1)] eval_cols_6_4
  by (simp add: assigned_fan_out_def example_small_def upt_rec)

lemma gather_cols_6:
  "gather_off_node_nodes example_small cols_6 [0] [] = Some ([1], [3])"
  unfolding gather_result [OF eval_cols_6(1)] eval_cols_6
  by (simp add: assigned_fan_out_def example_small_def upt_rec)

text \<open>
  C3, as claimed: a host whose volume exceeds the eager threshold gets the quotient of
  volume and threshold, capped at the ideal fan-out and never above \<open>PPN\<close>. With
  \<open>PPN = 4\<close>, eager threshold 2 and ideal fan-out 2, a host of volume 6 gets 3, not 2;
  with \<open>PPN = 16\<close>, eager threshold 1000 and ideal fan-out 4, a host of volume 10000
  gets 10, not 4.
\<close>

theorem fan_out_exceeds_ideal:
  "gather_off_node_nodes example_small cols_6 [0] [] = Some ([1], [3]) \<and>
   nodal_off_node_sizes example_small cols_6 = [6] \<and>
   spec_fan_out example_small 1 6 = 2 \<and>
   balance_nodes example_16 [3] [10000] [0] [] = Some ([3], [10]) \<and>
   spec_fan_out example_16 1 10000 = 4"
proof -
  have a: "gather_off_node_nodes example_small cols_6 [0] [] = Some ([1], [3])"
    "nodal_off_node_sizes example_small cols_6 = [6]"
    by (rule gather_cols_6, rule eval_cols_6)
  have b: "std_sort_desc [10000] [0]"
    by (simp add: std_sort_desc_def)
  have c: "balance_nodes example_16 [3] [10000] [0] [] = Some ([3], [10])"
    using balance_nodes_result [OF b, of "[3]" example_16]
    by (simp add: assigned_fan_out_def example_16_def)
  show ?thesis
    using a c by (simp add: spec_fan_out_def example_small_def example_16_def)
qed

text \<open>
  C3, amended: the function returns, the final host list is the decoded list rearranged
  by \<open>p\<close>, and the fan-out of the host at position \<open>k\<close>, of volume \<open>v\<close>, is: the
  quotient of \<open>v\<close> and the eager threshold if \<open>v\<close> exceeds that threshold and the
  quotient is below \<open>PPN\<close>; the ideal fan-out if \<open>v\<close> exceeds the eager threshold and
  the quotient is \<open>PPN\<close> or more; else the quotient of \<open>v\<close> and the short-message
  threshold capped at \<open>PPN\<close> if \<open>v\<close> exceeds that threshold and fewer than \<open>PPN\<close>
  hosts were decoded; otherwise 1. From the first host that falls in the last case on,
  every host has fan-out 1.
\<close>

theorem fan_out_rule_of_code:
  assumes "std_sort_desc (nodal_off_node_sizes c local_cols) p"
  shows "\<exists>recv_nodes nl.
           gather_off_node_nodes c local_cols p [] = Some (recv_nodes, nl) \<and>
           length recv_nodes = length p \<and> length nl = length p \<and>
           (\<forall>k<length p.
              recv_nodes ! k = nodal_recv_nodes c local_cols ! (p ! k) \<and>
              nl ! k =
                (let v = nodal_off_node_sizes c local_cols ! (p ! k)
                 in if v > eager_cutoff c
                    then (if v div eager_cutoff c < PPN c then v div eager_cutoff c
                          else ideal_n_comm c)
                    else if v > short_cutoff c \<and> length p < PPN c
                    then min (v div short_cutoff c) (PPN c)
                    else 1)) \<and>
           (\<forall>k<length p. \<forall>k'<length p.
              k \<le> k' \<and>
              \<not> nodal_off_node_sizes c local_cols ! (p ! k) > eager_cutoff c \<and>
              \<not> (nodal_off_node_sizes c local_cols ! (p ! k) > short_cutoff c \<and>
                   length p < PPN c)
              \<longrightarrow> nl ! k' = 1)"
proof -
  let ?sizes = "nodal_off_node_sizes c local_cols"
  let ?nl = "map (\<lambda>k. assigned_fan_out c (length p) (?sizes ! (p ! k))) [0..<length p]"
  have rule: "\<forall>k<length p. ?nl ! k =
      (let v = ?sizes ! (p ! k)
       in if v > eager_cutoff c
          then (if v div eager_cutoff c < PPN c then v div eager_cutoff c else ideal_n_comm c)
          else if v > short_cutoff c \<and> length p < PPN c
          then min (v div short_cutoff c) (PPN c)
          else 1)"
    by (auto simp add: assigned_fan_out_def Let_def min_def)
  have rest: "\<forall>k<length p. \<forall>k'<length p.
      k \<le> k' \<and> \<not> ?sizes ! (p ! k) > eager_cutoff c \<and>
      \<not> (?sizes ! (p ! k) > short_cutoff c \<and> length p < PPN c) \<longrightarrow> ?nl ! k' = 1"
  proof (intro allI impI)
    fix k k' assume k: "k < length p" "k' < length p"
      and h: "k \<le> k' \<and> \<not> ?sizes ! (p ! k) > eager_cutoff c \<and>
              \<not> (?sizes ! (p ! k) > short_cutoff c \<and> length p < PPN c)"
    have "?sizes ! (p ! k') \<le> ?sizes ! (p ! k)"
      using assms h k(2) by (intro std_sort_desc_nth) simp_all
    then show "?nl ! k' = 1"
      using h k(2) by (auto simp add: assigned_fan_out_def)
  qed
  show ?thesis
    unfolding gather_result [OF assms] using rule rest by simp
qed

theorem fan_out_rule_of_code_witness:
  "std_sort_desc (nodal_off_node_sizes example_small cols_8_6) [0, 1] \<and>
   nodal_off_node_sizes example_small cols_8_6 = [8, 6] \<and>
   gather_off_node_nodes example_small cols_8_6 [0, 1] [] = Some ([1, 5], [2, 3])"
proof -
  have s: "std_sort_desc (nodal_off_node_sizes example_small cols_8_6) [0, 1]"
    by (rule eval_cols_8_6)
  have e: "nodal_off_node_sizes example_small cols_8_6 = [8, 6]"
    "gather_off_node_nodes example_small cols_8_6 [0, 1] [] = Some ([1, 5], [2, 3])"
    by (rule eval_cols_8_6, rule gather_cols_8_6)
  show ?thesis
    using s e fan_out_rule_of_code [OF s] by simp
qed

lemma eval_cols_3_2:
  "std_sort_desc (nodal_off_node_sizes example_small cols_3_2) [0, 1]"
  "nodal_off_node_sizes example_small cols_3_2 = [3, 2]"
  "nodal_recv_nodes example_small cols_3_2 = [1, 5]"
  by code_simp+

lemma gather_cols_3_2:
  "gather_off_node_nodes example_small cols_3_2 [0, 1] [] = Some ([1, 5], [1, 2])"
  unfolding gather_result [OF eval_cols_3_2(1)] eval_cols_3_2
  by (simp add: assigned_fan_out_def example_small_def upt_rec)

text \<open>
  C2, as claimed: along the final host order the fan-out never increases. With
  \<open>PPN = 4\<close>, eager threshold 2 and ideal fan-out 2, volumes 8 and 6 give fan-outs 2 and
  3; with \<open>PPN = 16\<close>, eager threshold 1000 and ideal fan-out 4, volumes 16000 and 15000
  give fan-outs 4 and 15. The fan-out also rises from a host just above the eager
  threshold, which gets the small quotient by that threshold, to a host at or below it,
  which gets the quotient by the short-message threshold: with \<open>PPN = 4\<close>, eager
  threshold 2 and short-message threshold 1, volumes 3 and 2 give fan-outs 1 and 2.
\<close>

theorem fan_out_not_monotone:
  "std_sort_desc (nodal_off_node_sizes example_small cols_8_6) [0, 1] \<and>
   gather_off_node_nodes example_small cols_8_6 [0, 1] [] = Some ([1, 5], [2, 3]) \<and>
   \<not> sorted_wrt (\<lambda>a b. b \<le> a) [2, 3 :: nat] \<and>
   std_sort_desc [16000, 15000] [0, 1] \<and>
   balance_nodes example_16 [1, 2] [16000, 15000] [0, 1] [] = Some ([1, 2], [4, 15]) \<and>
   std_sort_desc (nodal_off_node_sizes example_small cols_3_2) [0, 1] \<and>
   gather_off_node_nodes example_small cols_3_2 [0, 1] [] = Some ([1, 5], [1, 2])"
proof -
  have a: "std_sort_desc (nodal_off_node_sizes example_small cols_8_6) [0, 1]"
    "gather_off_node_nodes example_small cols_8_6 [0, 1] [] = Some ([1, 5], [2, 3])"
    by (rule eval_cols_8_6, rule gather_cols_8_6)
  have b: "std_sort_desc [16000, 15000] [0, 1]"
    by (simp add: std_sort_desc_def)
  have c: "balance_nodes example_16 [1, 2] [16000, 15000] [0, 1] [] = Some ([1, 2], [4, 15])"
    using balance_nodes_result [OF b, of "[1, 2]" example_16]
    by (simp add: assigned_fan_out_def example_16_def upt_rec)
  have d: "std_sort_desc (nodal_off_node_sizes example_small cols_3_2) [0, 1]"
    "gather_off_node_nodes example_small cols_3_2 [0, 1] [] = Some ([1, 5], [1, 2])"
    by (rule eval_cols_3_2, rule gather_cols_3_2)
  show ?thesis
    using a b c d by simp
qed

text \<open>
  C2, amended: with positive thresholds, for positions \<open>i < j\<close> of the final order the
  fan-out at \<open>j\<close> exceeds the fan-out at \<open>i\<close> in exactly two situations, and in every
  other case the fan-out at \<open>i\<close> is at least the fan-out at \<open>j\<close>. (a) Both volumes
  exceed the eager threshold, the quotient of the earlier host by it is \<open>PPN\<close> or more, so
  that it was replaced by the ideal fan-out, and the quotient of the later host is below
  \<open>PPN\<close> and above the ideal fan-out. (b) The earlier volume exceeds the eager threshold,
  the later one lies above the short-message threshold and not above the eager threshold,
  fewer than \<open>PPN\<close> hosts were decoded, and the quotient of the later volume by the
  short-message threshold, capped at \<open>PPN\<close>, exceeds the fan-out of the earlier host.
\<close>

theorem fan_out_rises_only_across_regimes:
  assumes "std_sort_desc (nodal_off_node_sizes c local_cols) p"
    and "0 < eager_cutoff c" "0 < short_cutoff c" "0 < ideal_n_comm c"
    and "gather_off_node_nodes c local_cols p [] = Some (recv_nodes, nl)"
    and "i < j" "j < length p"
  shows "nl ! i < nl ! j \<longleftrightarrow>
           eager_cutoff c < nodal_off_node_sizes c local_cols ! (p ! j) \<and>
           PPN c \<le> nodal_off_node_sizes c local_cols ! (p ! i) div eager_cutoff c \<and>
           nodal_off_node_sizes c local_cols ! (p ! j) div eager_cutoff c < PPN c \<and>
           ideal_n_comm c < nodal_off_node_sizes c local_cols ! (p ! j) div eager_cutoff c
         \<or> eager_cutoff c < nodal_off_node_sizes c local_cols ! (p ! i) \<and>
           nodal_off_node_sizes c local_cols ! (p ! j) \<le> eager_cutoff c \<and>
           short_cutoff c < nodal_off_node_sizes c local_cols ! (p ! j) \<and>
           length p < PPN c \<and>
           (if nodal_off_node_sizes c local_cols ! (p ! i) div eager_cutoff c < PPN c
            then nodal_off_node_sizes c local_cols ! (p ! i) div eager_cutoff c
            else ideal_n_comm c)
             < min (nodal_off_node_sizes c local_cols ! (p ! j) div short_cutoff c) (PPN c)"
proof -
  let ?sizes = "nodal_off_node_sizes c local_cols"
  let ?vi = "?sizes ! (p ! i)" and ?vj = "?sizes ! (p ! j)"
  have le: "?vj \<le> ?vi"
    using assms(1,6,7) by (intro std_sort_desc_nth) simp_all
  have nl: "nl = map (\<lambda>k. assigned_fan_out c (length p) (?sizes ! (p ! k))) [0..<length p]"
    using assms(5) unfolding gather_result [OF assms(1)] by simp
  have fi: "nl ! i = assigned_fan_out c (length p) ?vi"
    and fj: "nl ! j = assigned_fan_out c (length p) ?vj"
    using assms(6,7) by (simp_all add: nl)
  have d1: "?vj div eager_cutoff c \<le> ?vi div eager_cutoff c"
    using le by (rule div_le_mono)
  have d2: "?vj div short_cutoff c \<le> ?vi div short_cutoff c"
    using le by (rule div_le_mono)
  have d3: "short_cutoff c < ?vi \<Longrightarrow> 1 \<le> ?vi div short_cutoff c"
    using assms(3) by (simp add: Suc_le_eq div_greater_zero_iff)
  have d4: "eager_cutoff c < ?vi \<Longrightarrow> 1 \<le> ?vi div eager_cutoff c"
    using assms(2) by (simp add: Suc_le_eq div_greater_zero_iff)
  have d5: "1 \<le> ideal_n_comm c"
    using assms(4) by simp
  show ?thesis
    unfolding fi fj assigned_fan_out_def
    using le d1 d2 d3 d4 d5 by (auto simp add: min_def)
qed

theorem fan_out_rises_only_across_regimes_witness:
  "std_sort_desc (nodal_off_node_sizes example_small cols_3_2) [0, 1] \<and>
   0 < eager_cutoff example_small \<and> 0 < short_cutoff example_small \<and>
   0 < ideal_n_comm example_small \<and>
   gather_off_node_nodes example_small cols_3_2 [0, 1] [] = Some ([1, 5], [1, 2]) \<and>
   nodal_off_node_sizes example_small cols_3_2 = [3, 2] \<and>
   [1, 2 :: nat] ! 0 < [1, 2] ! 1 \<and>
   eager_cutoff example_small < 3 \<and> 2 \<le> eager_cutoff example_small \<and>
   short_cutoff example_small < 2 \<and> length [0, 1 :: nat] < PPN example_small \<and>
   3 div eager_cutoff example_small < min (2 div short_cutoff example_small) (PPN example_small)"
proof -
  have s: "std_sort_desc (nodal_off_node_sizes example_small cols_3_2) [0, 1]"
    by (rule eval_cols_3_2)
  have pos: "0 < eager_cutoff example_small" "0 < short_cutoff example_small"
    "0 < ideal_n_comm example_small"
    by (simp_all add: example_small_def)
  have e: "gather_off_node_nodes example_small cols_3_2 [0, 1] [] = Some ([1, 5], [1, 2])"
    and v: "nodal_off_node_sizes example_small cols_3_2 = [3, 2]"
    by (rule gather_cols_3_2, rule eval_cols_3_2)
  have ij: "(0 :: nat) < 1" "1 < length [0, 1 :: nat]"
    by simp_all
  note rise = fan_out_rises_only_across_regimes [OF s pos e ij]
  have "[1, 2 :: nat] ! 0 < [1, 2] ! 1"
    unfolding rise v by (simp add: example_small_def)
  then show ?thesis
    using s pos e v by (simp add: example_small_def)
qed

subsection \<open>Bucket placement\<close>

lemma bucket_Suc:
  "bucket key (Suc n) b = (if key n = b then bucket key n b @ [n] else bucket key n b)"
  by (simp add: bucket_def)

lemma bucket_length_mono: "m \<le> n \<Longrightarrow> length (bucket key m b) \<le> length (bucket key n b)"
proof (induction n)
  case 0
  then show ?case by simp
next
  case (Suc n)
  then show ?case by (cases "m = Suc n") (auto simp add: bucket_Suc)
qed

lemma bucket_length_less:
  "m < n \<Longrightarrow> length (bucket key m (key m)) < length (bucket key n (key m))"
  using bucket_length_mono [of "Suc m" n key "key m"] by (simp add: bucket_Suc)

lemma take_drop_update_outside:
  "p < d \<or> d + c \<le> p \<Longrightarrow> take c (drop d (xs[p := v])) = take c (drop d xs)"
  by (auto simp add: list_eq_iff_nth_eq nth_list_update)

lemma take_drop_update_next:
  "d + c < length xs \<Longrightarrow> take (Suc c) (drop d (xs[d + c := v])) = take c (drop d xs) @ [v]"
  by (auto simp add: list_eq_iff_nth_eq nth_list_update nth_append min_def)

lemma displs_mono:
  assumes "\<forall>b<B. displs ! Suc b = displs ! b + (cnt b :: nat)"
  shows "a \<le> b \<Longrightarrow> b \<le> B \<Longrightarrow> displs ! a \<le> displs ! b"
proof (induction b)
  case 0
  then show ?case by simp
next
  case (Suc b)
  then show ?case using assms by (cases "a = Suc b") auto
qed

lemma place_fold:
  assumes K: "\<forall>i<n. key i < B"
    and D: "\<forall>b<B. displs ! Suc b = displs ! b + length (bucket key n b)"
    and L: "displs ! B \<le> length out0" "length cnt0 = B" "\<forall>b<B. cnt0 ! b = 0"
  shows "m \<le> n \<Longrightarrow>
     length (snd (fold (place_step key val displs) [0..<m] (cnt0, out0))) = length out0 \<and>
     length (fst (fold (place_step key val displs) [0..<m] (cnt0, out0))) = B \<and>
     (\<forall>b<B. fst (fold (place_step key val displs) [0..<m] (cnt0, out0)) ! b = length (bucket key m b) \<and>
        take (length (bucket key m b))
          (drop (displs ! b) (snd (fold (place_step key val displs) [0..<m] (cnt0, out0))))
        = map val (bucket key m b))"
proof (induction m)
  case 0
  show ?case using L by (simp add: bucket_def)
next
  case (Suc m)
  define st where "st = fold (place_step key val displs) [0..<m] (cnt0, out0)"
  have step: "fold (place_step key val displs) [0..<Suc m] (cnt0, out0) =
              place_step key val displs m st"
    by (simp add: st_def)
  from Suc have m: "m < n" by simp
  from Suc have IH: "length (snd st) = length out0" "length (fst st) = B"
    "\<forall>b<B. fst st ! b = length (bucket key m b) \<and>
       take (length (bucket key m b)) (drop (displs ! b) (snd st)) = map val (bucket key m b)"
    by (simp_all add: st_def)
  let ?k = "key m"
  have kB: "?k < B" using K m by simp
  let ?c = "length (bucket key m ?k)"
  let ?pos = "displs ! ?k + ?c"
  have cnt: "fst st ! ?k = ?c" using IH(3) kB by simp
  have room: "?pos < displs ! Suc ?k"
    using D kB bucket_length_less [OF m, of key] by simp
  have "displs ! Suc ?k \<le> displs ! B"
    using displs_mono [OF D, of "Suc ?k" B] kB by simp
  then have inr: "?pos < length (snd st)" using room L(1) IH(1) by simp
  have new: "place_step key val displs m st = ((fst st)[?k := Suc ?c], (snd st)[?pos := val m])"
    by (simp add: place_step_def Let_def cnt)
  have each: "\<forall>b<B. (fst st)[?k := Suc ?c] ! b = length (bucket key (Suc m) b) \<and>
       take (length (bucket key (Suc m) b)) (drop (displs ! b) ((snd st)[?pos := val m]))
         = map val (bucket key (Suc m) b)"
  proof (intro allI impI)
    fix b assume b: "b < B"
    show "(fst st)[?k := Suc ?c] ! b = length (bucket key (Suc m) b) \<and>
       take (length (bucket key (Suc m) b)) (drop (displs ! b) ((snd st)[?pos := val m]))
         = map val (bucket key (Suc m) b)"
    proof (cases "b = ?k")
      case True
      have "take (Suc ?c) (drop (displs ! ?k) ((snd st)[?pos := val m])) =
            take ?c (drop (displs ! ?k) (snd st)) @ [val m]"
        using inr by (rule take_drop_update_next)
      then show ?thesis
        using True IH(2,3) kB by (simp add: bucket_Suc)
    next
      case False
      have out: "?pos < displs ! b \<or> displs ! b + length (bucket key m b) \<le> ?pos"
      proof (cases "?k < b")
        case True
        then have "displs ! Suc ?k \<le> displs ! b"
          using displs_mono [OF D, of "Suc ?k" b] b by simp
        then show ?thesis using room by simp
      next
        case False
        with \<open>b \<noteq> ?k\<close> have "Suc b \<le> ?k" by simp
        then have "displs ! Suc b \<le> displs ! ?k"
          using displs_mono [OF D, of "Suc b" ?k] kB by simp
        moreover have "length (bucket key m b) \<le> length (bucket key n b)"
          using m by (intro bucket_length_mono) simp
        ultimately show ?thesis using D b by simp
      qed
      have "take (length (bucket key m b)) (drop (displs ! b) ((snd st)[?pos := val m])) =
            take (length (bucket key m b)) (drop (displs ! b) (snd st))"
        using out by (rule take_drop_update_outside)
      then show ?thesis
        using False IH(3) b by (simp add: bucket_Suc)
    qed
  qed
  show ?case
    unfolding step new using IH(1,2) each by simp
qed


lemma map_nodes_fold:
  assumes "distinct recv_nodes" "\<forall>node \<in> set recv_nodes. node < num_nodes c"
    and "length nl = length recv_nodes"
  shows "m \<le> length recv_nodes \<Longrightarrow>
     (\<exists>node_to_idx node_to_proc.
        fold (node_map_step c recv_nodes nl) [0..<m]
          (0, replicate (num_nodes c) 0, replicate (length recv_nodes) 0)
          = (sum_list (take m nl), node_to_idx, node_to_proc) \<and>
        length node_to_idx = num_nodes c \<and> length node_to_proc = length recv_nodes \<and>
        (\<forall>k<m. node_to_idx ! (recv_nodes ! k) = k \<and>
               node_to_proc ! k = sum_list (take k nl) mod PPN c))"
proof (induction m)
  case 0
  show ?case by simp
next
  case (Suc m)
  then obtain node_to_idx node_to_proc where IH:
    "fold (node_map_step c recv_nodes nl) [0..<m]
       (0, replicate (num_nodes c) 0, replicate (length recv_nodes) 0)
       = (sum_list (take m nl), node_to_idx, node_to_proc)"
    "length node_to_idx = num_nodes c" "length node_to_proc = length recv_nodes"
    "\<forall>k<m. node_to_idx ! (recv_nodes ! k) = k \<and> node_to_proc ! k = sum_list (take k nl) mod PPN c"
    by auto
  from Suc.prems have m: "m < length recv_nodes" by simp
  have ne: "\<forall>k<m. recv_nodes ! k \<noteq> recv_nodes ! m"
    using assms(1) m by (auto simp add: nth_eq_iff_index_eq)
  have nm: "recv_nodes ! m < num_nodes c" using assms(2) m by simp
  have sm: "sum_list (take m nl) + nl ! m = sum_list (take (Suc m) nl)"
    using m assms(3) by (simp add: take_Suc_conv_app_nth)
  let ?idx = "node_to_idx[recv_nodes ! m := m]"
  let ?proc = "node_to_proc[m := sum_list (take m nl) mod PPN c]"
  have step: "fold (node_map_step c recv_nodes nl) [0..<Suc m]
       (0, replicate (num_nodes c) 0, replicate (length recv_nodes) 0)
       = (sum_list (take (Suc m) nl), ?idx, ?proc)"
    by (simp add: IH(1) node_map_step_def Let_def sm)
  have vals: "\<forall>k<Suc m. ?idx ! (recv_nodes ! k) = k \<and> ?proc ! k = sum_list (take k nl) mod PPN c"
    using IH(2-4) ne nm m by (auto simp add: nth_list_update less_Suc_eq)
  show ?case
    unfolding step using IH(2,3) vals by simp
qed

subsection \<open>R stage, receive side\<close>

lemma next_slot:
  assumes "0 < (f :: nat)"
  shows "(if x mod f + 1 < f then x mod f + 1 else 0) = Suc x mod f"
proof -
  have "x mod f < f" using assms by simp
  then show ?thesis by (auto simp add: mod_Suc)
qed

lemma assign_fold:
  assumes H: "\<forall>i<n. col_idx node_to_idx col_to_node i < length nl"
    and F: "\<forall>k<length nl. 0 < nl ! k"
    and P: "0 < PPN c"
  shows "m \<le> n \<Longrightarrow>
     (\<exists>proc_idx sizes lcl.
        fold (assign_step c col_to_node nl node_to_idx node_to_proc) [0..<m]
          (replicate (length nl) 0, replicate (PPN c) 0, replicate n 0) = (proc_idx, sizes, lcl) \<and>
        length proc_idx = length nl \<and> length sizes = PPN c \<and> length lcl = n \<and>
        (\<forall>k<length nl.
           proc_idx ! k = length (bucket (col_idx node_to_idx col_to_node) m k) mod nl ! k) \<and>
        (\<forall>i<m. lcl ! i = slot_of c nl node_to_idx node_to_proc col_to_node i) \<and>
        (\<forall>b<PPN c. sizes ! b =
           length (bucket (slot_of c nl node_to_idx node_to_proc col_to_node) m b)))"
proof (induction m)
  case 0
  show ?case using F by (simp add: bucket_def)
next
  case (Suc m)
  let ?hidx = "col_idx node_to_idx col_to_node"
  let ?slot = "slot_of c nl node_to_idx node_to_proc col_to_node"
  from Suc obtain proc_idx sizes lcl where IH:
    "fold (assign_step c col_to_node nl node_to_idx node_to_proc) [0..<m]
       (replicate (length nl) 0, replicate (PPN c) 0, replicate n 0) = (proc_idx, sizes, lcl)"
    "length proc_idx = length nl" "length sizes = PPN c" "length lcl = n"
    "\<forall>k<length nl. proc_idx ! k = length (bucket ?hidx m k) mod nl ! k"
    "\<forall>i<m. lcl ! i = ?slot i"
    "\<forall>b<PPN c. sizes ! b = length (bucket ?slot m b)"
    by auto
  from Suc.prems have m: "m < n" by simp
  let ?k = "?hidx m"
  have k: "?k < length nl" using H m by simp
  have fk: "0 < nl ! ?k" using F k by simp
  have sl: "(node_to_proc ! ?k + proc_idx ! ?k) mod PPN c = ?slot m"
    using IH(5) k by (simp add: slot_of_def Let_def)
  have slP: "?slot m < PPN c" using P by (simp add: slot_of_def Let_def)
  let ?pi = "proc_idx[?k := Suc (length (bucket ?hidx m ?k)) mod nl ! ?k]"
  let ?sz = "sizes[?slot m := sizes ! ?slot m + 1]"
  let ?lcl = "lcl[m := ?slot m]"
  have upd: "(if proc_idx ! ?k + 1 < nl ! ?k then proc_idx[?k := proc_idx ! ?k + 1]
              else proc_idx[?k := 0]) = ?pi"
    using next_slot [OF fk, of "length (bucket ?hidx m ?k)"] IH(5) k
    by (auto simp add: mod_Suc)
  have kdef: "node_to_idx ! (col_to_node ! m) = ?k"
    by (simp add: col_idx_def)
  have body: "assign_step c col_to_node nl node_to_idx node_to_proc m (proc_idx, sizes, lcl)
                = (?pi, ?sz, ?lcl)"
    unfolding assign_step_def Let_def prod.case kdef upd sl by simp
  have step: "fold (assign_step c col_to_node nl node_to_idx node_to_proc) [0..<Suc m]
       (replicate (length nl) 0, replicate (PPN c) 0, replicate n 0) = (?pi, ?sz, ?lcl)"
    using body by (simp add: IH(1))
  have a: "\<forall>k<length nl. ?pi ! k = length (bucket ?hidx (Suc m) k) mod nl ! k"
    using IH(2,5) k by (auto simp add: nth_list_update bucket_Suc)
  have b: "\<forall>i<Suc m. ?lcl ! i = ?slot i"
    using IH(4,6) m by (auto simp add: nth_list_update less_Suc_eq)
  have d: "\<forall>b<PPN c. ?sz ! b = length (bucket ?slot (Suc m) b)"
    using IH(3,7) slP by (auto simp add: nth_list_update bucket_Suc)
  show ?case
    unfolding step using IH(2-4) a b d by simp
qed


lemma recv_displs_fold:
  assumes "length sizes = n"
  shows "m \<le> n \<Longrightarrow>
     (\<exists>displs. fold displs_step [0..<m] (replicate (n + 1) 0, sizes)
                 = (displs, replicate m 0 @ drop m sizes) \<and>
        length displs = n + 1 \<and> displs ! 0 = 0 \<and>
        (\<forall>b<m. displs ! Suc b = displs ! b + sizes ! b))"
proof (induction m)
  case 0
  show ?case by simp
next
  case (Suc m)
  then obtain displs where IH:
    "fold displs_step [0..<m] (replicate (n + 1) 0, sizes) = (displs, replicate m 0 @ drop m sizes)"
    "length displs = n + 1" "displs ! 0 = 0" "\<forall>b<m. displs ! Suc b = displs ! b + sizes ! b"
    by auto
  from Suc.prems assms have m: "m < length sizes" by simp
  have cur: "(replicate m 0 @ drop m sizes) ! m = sizes ! m"
    using m by (simp add: nth_append)
  have reset: "(replicate m 0 @ drop m sizes)[m := 0] = replicate (Suc m) 0 @ drop (Suc m) sizes"
    using m by (simp add: list_update_append replicate_append_same Cons_nth_drop_Suc [symmetric])
  let ?d = "displs[Suc m := displs ! m + sizes ! m]"
  have body: "displs_step m (displs, replicate m 0 @ drop m sizes)
                = (?d, replicate (Suc m) 0 @ drop (Suc m) sizes)"
    unfolding displs_step_def prod.case cur reset by simp
  have "fold displs_step [0..<Suc m] (replicate (n + 1) 0, sizes)
          = displs_step m (fold displs_step [0..<m] (replicate (n + 1) 0, sizes))"
    by simp
  then have step: "fold displs_step [0..<Suc m] (replicate (n + 1) 0, sizes)
                = (?d, replicate (Suc m) 0 @ drop (Suc m) sizes)"
    unfolding IH(1) body .
  have sm: "Suc m < length displs" using IH(2) m assms by simp
  have vals: "\<forall>b<Suc m. ?d ! Suc b = ?d ! b + sizes ! b"
    using IH(4) sm by (auto simp add: nth_list_update less_Suc_eq)
  show ?case
    unfolding step using IH(2,3) vals by simp
qed

lemma displs_total:
  fixes displs :: "nat list"
  assumes "displs ! 0 = 0" "\<forall>b<B. displs ! Suc b = displs ! b + f b"
  shows "k \<le> B \<Longrightarrow> displs ! k = sum f {..<k}"
  using assms by (induction k) simp_all

lemma bucket_total:
  "\<forall>i<n. key i < B \<Longrightarrow> sum (\<lambda>b. length (bucket key n b)) {..<B} = n"
proof (induction n)
  case 0
  show ?case by (simp add: bucket_def)
next
  case (Suc n)
  then have IH: "sum (\<lambda>b. length (bucket key n b)) {..<B} = n" and k: "key n < B"
    by simp_all
  have "sum (\<lambda>b. length (bucket key (Suc n) b)) {..<B} =
        sum (\<lambda>b. length (bucket key n b) + (if b = key n then 1 else 0)) {..<B}"
    by (intro sum.cong) (auto simp add: bucket_Suc)
  also have "\<dots> = n + 1"
    using k by (simp add: sum.distrib IH)
  finally show ?case by simp
qed

lemma add_recv_fold:
  "procs (fst (fold (add_recv_step displs lri) [0..<m] (rd, lrp))) =
     procs rd @ map int (filter (\<lambda>b. displs ! Suc b - displs ! b \<noteq> 0) [0..<m]) \<and>
   msg_counts (fst (fold (add_recv_step displs lri) [0..<m] (rd, lrp))) =
     msg_counts rd @ map (\<lambda>b. displs ! Suc b - displs ! b)
                       (filter (\<lambda>b. displs ! Suc b - displs ! b \<noteq> 0) [0..<m]) \<and>
   msg_positions (fst (fold (add_recv_step displs lri) [0..<m] (rd, lrp))) =
     msg_positions rd @ map (\<lambda>b. map int (slice displs lri b))
                          (filter (\<lambda>b. displs ! Suc b - displs ! b \<noteq> 0) [0..<m]) \<and>
   finalized (fst (fold (add_recv_step displs lri) [0..<m] (rd, lrp))) = finalized rd"
proof (induction m)
  case 0
  show ?case by simp
next
  case (Suc m)
  define st where "st = fold (add_recv_step displs lri) [0..<m] (rd, lrp)"
  have step: "fold (add_recv_step displs lri) [0..<Suc m] (rd, lrp) = add_recv_step displs lri m st"
    by (simp add: st_def)
  have body: "fst (add_recv_step displs lri m st) =
     (if displs ! Suc m - displs ! m \<noteq> 0
      then add_msg (int m) (displs ! Suc m - displs ! m) (map int (drop (displs ! m) lri)) (fst st)
      else fst st)"
    by (simp add: add_recv_step_def Let_def)
  show ?case
    unfolding step body using Suc [folded st_def]
    by (simp add: add_msg_def slice_def take_map)
qed

lemma concat_skip_empty:
  "concat (map g (filter (\<lambda>b. g b \<noteq> []) bs)) = concat (map g bs)"
  by (induction bs) simp_all

lemma count_list_upt: "k < B \<Longrightarrow> count_list [0..<B] k = 1"
  by (induction B) (auto simp add: less_Suc_eq)

lemma mset_buckets:
  "\<forall>i<n. key i < B \<Longrightarrow> mset (concat (map (bucket key n) [0..<B])) = mset [0..<n]"
proof (induction n)
  case 0
  show ?case by (simp add: bucket_def)
next
  case (Suc n)
  then have IH: "mset (concat (map (bucket key n) [0..<B])) = mset [0..<n]" and k: "key n < B"
    by simp_all
  have "\<And>bs. mset (concat (map (bucket key (Suc n)) bs)) =
          mset (concat (map (bucket key n) bs)) + replicate_mset (count_list bs (key n)) n"
  proof -
    fix bs show "mset (concat (map (bucket key (Suc n)) bs)) =
          mset (concat (map (bucket key n) bs)) + replicate_mset (count_list bs (key n)) n"
      by (induction bs) (simp_all add: bucket_Suc)
  qed
  moreover have "count_list [0..<B] (key n) = 1"
    using k by (rule count_list_upt)
  ultimately show ?case using IH by simp
qed


lemma assign_local_procs_result:
  assumes P: "0 < PPN c" and D: "distinct recv_nodes"
    and N: "\<forall>node \<in> set recv_nodes. node < num_nodes c"
    and L: "length nl = length recv_nodes" and F: "\<forall>f \<in> set nl. 0 < f"
    and C: "\<forall>i<n. col_to_node ! i \<in> set recv_nodes"
  shows "\<exists>proc_idx sizes lcl.
     assign_local_procs c n col_to_node recv_nodes nl = (proc_idx, sizes, lcl) \<and>
     length sizes = PPN c \<and> length lcl = n \<and> (\<forall>i<n. lcl ! i < PPN c) \<and>
     (\<forall>b<PPN c. sizes ! b = length (bucket (\<lambda>i. lcl ! i) n b)) \<and>
     (\<forall>i<n. \<forall>k<length recv_nodes. recv_nodes ! k = col_to_node ! i \<longrightarrow>
        lcl ! i = (sum_list (take k nl) mod PPN c +
                   length (filter (\<lambda>j. col_to_node ! j = col_to_node ! i) [0..<i]) mod nl ! k)
                  mod PPN c)"
proof -
  from map_nodes_fold [OF D N L, of "length recv_nodes"]
  obtain node_to_idx node_to_proc where M:
    "map_nodes_to_procs c recv_nodes nl = (sum_list (take (length recv_nodes) nl), node_to_idx, node_to_proc)"
    "\<forall>k<length recv_nodes. node_to_idx ! (recv_nodes ! k) = k \<and>
        node_to_proc ! k = sum_list (take k nl) mod PPN c"
    unfolding map_nodes_to_procs_def by auto
  let ?hidx = "col_idx node_to_idx col_to_node"
  let ?slot = "slot_of c nl node_to_idx node_to_proc col_to_node"
  have hid: "\<forall>i<n. ?hidx i < length nl \<and> recv_nodes ! (?hidx i) = col_to_node ! i"
  proof (intro allI impI)
    fix i assume "i < n"
    with C obtain k where "k < length recv_nodes" "recv_nodes ! k = col_to_node ! i"
      by (auto simp add: in_set_conv_nth)
    then show "?hidx i < length nl \<and> recv_nodes ! (?hidx i) = col_to_node ! i"
      using M(2) L by (auto simp add: col_idx_def)
  qed
  have F': "\<forall>k<length nl. 0 < nl ! k" using F by simp
  have H: "\<forall>i<n. ?hidx i < length nl" using hid by simp
  from assign_fold [OF H F' P, of n node_to_proc]
  obtain proc_idx sizes lcl where A:
    "fold (assign_step c col_to_node nl node_to_idx node_to_proc) [0..<n]
       (replicate (length nl) 0, replicate (PPN c) 0, replicate n 0) = (proc_idx, sizes, lcl)"
    "length sizes = PPN c" "length lcl = n"
    "\<forall>i<n. lcl ! i = ?slot i"
    "\<forall>b<PPN c. sizes ! b = length (bucket ?slot n b)"
    by auto
  have res: "assign_local_procs c n col_to_node recv_nodes nl = (proc_idx, sizes, lcl)"
    using A(1) by (simp add: assign_local_procs_def M(1) L)
  have bound: "\<forall>i<n. lcl ! i < PPN c"
    using A(4) P by (simp add: slot_of_def Let_def)
  have bk: "\<forall>b. bucket (\<lambda>i. lcl ! i) n b = bucket ?slot n b"
    unfolding bucket_def using A(4) by (auto intro: filter_cong)
  have formula: "\<forall>i<n. \<forall>k<length recv_nodes. recv_nodes ! k = col_to_node ! i \<longrightarrow>
        lcl ! i = (sum_list (take k nl) mod PPN c +
                   length (filter (\<lambda>j. col_to_node ! j = col_to_node ! i) [0..<i]) mod nl ! k)
                  mod PPN c"
  proof (intro allI impI)
    fix i k assume i: "i < n" and k: "k < length recv_nodes" and e: "recv_nodes ! k = col_to_node ! i"
    have hk: "?hidx i = k" using M(2) k e by (metis col_idx_def)
    have same: "filter (\<lambda>j. ?hidx j = k) [0..<i] =
                filter (\<lambda>j. col_to_node ! j = col_to_node ! i) [0..<i]"
    proof (rule filter_cong [OF refl])
      fix j assume "j \<in> set [0..<i]"
      then have j: "j < n" using i by simp
      show "(?hidx j = k) = (col_to_node ! j = col_to_node ! i)"
      proof
        assume "?hidx j = k"
        then show "col_to_node ! j = col_to_node ! i" using hid j e by auto
      next
        assume "col_to_node ! j = col_to_node ! i"
        then show "?hidx j = k" using hk by (simp add: col_idx_def)
      qed
    qed
    show "lcl ! i = (sum_list (take k nl) mod PPN c +
                   length (filter (\<lambda>j. col_to_node ! j = col_to_node ! i) [0..<i]) mod nl ! k)
                  mod PPN c"
      using A(4) i M(2) k same by (simp add: slot_of_def Let_def hk bucket_def)
  qed
  show ?thesis
    using res A(2,3,5) bound bk formula by simp
qed


lemma form_local_R_recv_result:
  assumes P: "0 < PPN c" and D: "distinct recv_nodes"
    and N: "\<forall>node \<in> set recv_nodes. node < num_nodes c"
    and L: "length nl = length recv_nodes" and F: "\<forall>f \<in> set nl. 0 < f"
    and LC: "length col_to_node = length column_map"
    and S: "set col_to_node \<subseteq> set recv_nodes"
  shows "\<exists>d lrp.
     form_local_R_recv c column_map col_to_node recv_nodes nl new_comm_data = Inr (d, lrp) \<and>
     procs d = map int (filter (\<lambda>b. bucket (\<lambda>i. off_node_col_to_lcl_proc c (length column_map)
                 col_to_node recv_nodes nl ! i) (length column_map) b \<noteq> []) [0..<PPN c]) \<and>
     msg_positions d =
       map (\<lambda>b. map int (bucket (\<lambda>i. off_node_col_to_lcl_proc c (length column_map)
                 col_to_node recv_nodes nl ! i) (length column_map) b))
         (filter (\<lambda>b. bucket (\<lambda>i. off_node_col_to_lcl_proc c (length column_map)
                 col_to_node recv_nodes nl ! i) (length column_map) b \<noteq> []) [0..<PPN c]) \<and>
     indices d = concat (msg_positions d)"
proof -
  let ?n = "length column_map"
  let ?lcl = "off_node_col_to_lcl_proc c ?n col_to_node recv_nodes nl"
  let ?key = "\<lambda>i. ?lcl ! i"
  have C: "\<forall>i<?n. col_to_node ! i \<in> set recv_nodes"
    using LC S by (auto simp add: subset_iff)
  from assign_local_procs_result [OF P D N L F C]
  obtain proc_idx sizes lcl where A:
    "assign_local_procs c ?n col_to_node recv_nodes nl = (proc_idx, sizes, lcl)"
    "length sizes = PPN c" "length lcl = ?n" "\<forall>i<?n. lcl ! i < PPN c"
    "\<forall>b<PPN c. sizes ! b = length (bucket (\<lambda>i. lcl ! i) ?n b)"
    by blast
  have lcl: "?lcl = lcl" by (simp add: off_node_col_to_lcl_proc_def A(1))
  from recv_displs_fold [OF A(2), of "PPN c"]
  obtain displs where Dp: "recv_displs (PPN c) sizes = (displs, replicate (PPN c) 0)"
    "length displs = PPN c + 1" "displs ! 0 = 0"
    "\<forall>b<PPN c. displs ! Suc b = displs ! b + sizes ! b"
    unfolding recv_displs_def using A(2) by auto
  have K: "\<forall>i<?n. ?key i < PPN c" using A(4) lcl by simp
  have D1: "\<forall>b<PPN c. displs ! Suc b = displs ! b + length (bucket ?key ?n b)"
    using Dp(4) A(5) lcl by simp
  have total: "displs ! PPN c = ?n"
    using displs_total [OF Dp(3) D1, of "PPN c"] bucket_total [OF K] by simp
  let ?lri = "snd (fold (place_step ?key (\<lambda>i. i) displs) [0..<?n]
                    (replicate (PPN c) 0, replicate ?n 0))"
  have "\<forall>b<PPN c. take (length (bucket ?key ?n b)) (drop (displs ! b) ?lri)
                      = map (\<lambda>i. i) (bucket ?key ?n b)"
    using place_fold [OF K D1, of "replicate ?n 0" "replicate (PPN c) 0" ?n "\<lambda>i. i"] total
    by simp
  then have sl: "\<forall>b<PPN c. slice displs ?lri b = bucket ?key ?n b"
    using D1 by (simp add: slice_def)
  let ?r = "fold (add_recv_step displs ?lri) [0..<PPN c] (new_comm_data, replicate (PPN c) 0)"
  let ?keep = "filter (\<lambda>b. bucket ?key ?n b \<noteq> []) [0..<PPN c]"
  have keep: "filter (\<lambda>b. displs ! Suc b - displs ! b \<noteq> 0) [0..<PPN c] = ?keep"
    using D1 by (intro filter_cong) simp_all
  have pos: "map (\<lambda>b. map int (slice displs ?lri b)) ?keep =
             map (\<lambda>b. map int (bucket ?key ?n b)) ?keep"
    using sl by simp
  note R = add_recv_fold [of displs ?lri "PPN c" new_comm_data "replicate (PPN c) 0",
      unfolded keep pos]
  have e: "procs new_comm_data = []" "msg_positions new_comm_data = []"
    "\<not> finalized new_comm_data"
    by (simp_all add: new_comm_data_def)
  have r1: "procs (fst ?r) = map int ?keep"
    using R [THEN conjunct1] unfolding e by simp
  have r2: "msg_positions (fst ?r) = map (\<lambda>b. map int (bucket ?key ?n b)) ?keep"
    using R [THEN conjunct2, THEN conjunct2, THEN conjunct1] unfolding e by simp
  have r3: "\<not> finalized (fst ?r)"
    using R [THEN conjunct2, THEN conjunct2, THEN conjunct2] e(3) by simp
  have run: "form_local_R_recv c column_map col_to_node recv_nodes nl new_comm_data =
       (case finalize (fst ?r) of Inl e \<Rightarrow> Inl e | Inr rd' \<Rightarrow> Inr (rd', snd ?r))"
  proof -
    have a: "fst (snd (assign_local_procs c ?n col_to_node recv_nodes nl)) = sizes"
      by (simp add: A(1))
    have d: "fst (recv_displs (PPN c) sizes) = displs"
      "snd (recv_displs (PPN c) sizes) = replicate (PPN c) 0"
      by (simp_all add: Dp(1))
    show ?thesis
      unfolding form_local_R_recv_def Let_def a d ..
  qed
  show ?thesis
    unfolding run using r1 r2 r3 by (simp add: finalize_def)
qed

text \<open>
  C5. The inputs are as host discovery leaves them: the hosts of \<open>recv_nodes\<close> are
  distinct and below \<open>num_nodes\<close>, every fan-out is positive, and every off-node
  column is owned by a host of \<open>recv_nodes\<close>. Then \<open>form_local_R_par_comm\<close> builds and
  finalizes its receive ledger, and: the column at position \<open>i\<close>, owned by the host at
  position \<open>k\<close> of \<open>recv_nodes\<close>, is assigned the local rank
  \<open>(base + occ mod fanout) mod PPN\<close>, where \<open>base\<close> is the sum of the fan-outs of the
  hosts before \<open>k\<close> modulo \<open>PPN\<close>, \<open>fanout\<close> the fan-out of host \<open>k\<close> and \<open>occ\<close>
  the number of earlier columns of the same host. The ledger has one non-empty message
  for each local rank that was assigned a column, the message of a rank holds exactly the
  positions of the columns assigned to it, and the index array of the ledger holds every
  position of the off-node column list exactly once.
\<close>

theorem form_local_R_recv_slots_cover:
  assumes P: "0 < PPN c" and D: "distinct recv_nodes"
    and N: "\<forall>node \<in> set recv_nodes. node < num_nodes c"
    and L: "length nl = length recv_nodes" and F: "\<forall>f \<in> set nl. 0 < f"
    and LC: "length col_to_node = length column_map"
    and S: "set col_to_node \<subseteq> set recv_nodes"
  shows "\<exists>d lrp.
     form_local_R_recv c column_map col_to_node recv_nodes nl new_comm_data = Inr (d, lrp) \<and>
     (\<forall>i<length column_map. \<forall>k<length recv_nodes. recv_nodes ! k = col_to_node ! i \<longrightarrow>
        off_node_col_to_lcl_proc c (length column_map) col_to_node recv_nodes nl ! i =
          (sum_list (take k nl) mod PPN c +
           length (filter (\<lambda>j. col_to_node ! j = col_to_node ! i) [0..<i]) mod nl ! k)
          mod PPN c) \<and>
     length (msg_positions d) = length (procs d) \<and> distinct (procs d) \<and>
     (\<forall>m<length (procs d).
        msg_positions d ! m \<noteq> [] \<and>
        msg_positions d ! m =
          map int (filter (\<lambda>i. int (off_node_col_to_lcl_proc c (length column_map) col_to_node
                                     recv_nodes nl ! i) = procs d ! m)
                     [0..<length column_map])) \<and>
     indices d = concat (msg_positions d) \<and>
     mset (indices d) = mset (map int [0..<length column_map]) \<and>
     distinct (indices d)"
proof -
  let ?n = "length column_map"
  let ?lcl = "off_node_col_to_lcl_proc c ?n col_to_node recv_nodes nl"
  let ?key = "\<lambda>i. ?lcl ! i"
  let ?keep = "filter (\<lambda>b. bucket ?key ?n b \<noteq> []) [0..<PPN c]"
  have C: "\<forall>i<?n. col_to_node ! i \<in> set recv_nodes"
    using LC S by (auto simp add: subset_iff)
  from assign_local_procs_result [OF P D N L F C]
  obtain proc_idx sizes lcl where A:
    "assign_local_procs c ?n col_to_node recv_nodes nl = (proc_idx, sizes, lcl)"
    "\<forall>i<?n. lcl ! i < PPN c"
    "\<forall>i<?n. \<forall>k<length recv_nodes. recv_nodes ! k = col_to_node ! i \<longrightarrow>
        lcl ! i = (sum_list (take k nl) mod PPN c +
                   length (filter (\<lambda>j. col_to_node ! j = col_to_node ! i) [0..<i]) mod nl ! k)
                  mod PPN c"
    by blast
  have lcl: "?lcl = lcl" by (simp add: off_node_col_to_lcl_proc_def A(1))
  have K: "\<forall>i<?n. ?key i < PPN c" using A(2) lcl by simp
  from form_local_R_recv_result [OF P D N L F LC S]
  obtain d lrp where R:
    "form_local_R_recv c column_map col_to_node recv_nodes nl new_comm_data = Inr (d, lrp)"
    "procs d = map int ?keep"
    "msg_positions d = map (\<lambda>b. map int (bucket ?key ?n b)) ?keep"
    "indices d = concat (msg_positions d)"
    by blast
  have len: "length (msg_positions d) = length (procs d)"
    by (simp add: R(2,3))
  have dist: "distinct (procs d)"
    by (simp add: R(2) distinct_map)
  have msgs: "\<forall>m<length (procs d).
        msg_positions d ! m \<noteq> [] \<and>
        msg_positions d ! m = map int (filter (\<lambda>i. int (?lcl ! i) = procs d ! m) [0..<?n])"
  proof (intro allI impI)
    fix m assume "m < length (procs d)"
    then have m: "m < length ?keep" by (simp add: R(2))
    then have "?keep ! m \<in> set ?keep" by (rule nth_mem)
    then have ne: "bucket ?key ?n (?keep ! m) \<noteq> []" by simp
    show "msg_positions d ! m \<noteq> [] \<and>
        msg_positions d ! m = map int (filter (\<lambda>i. int (?lcl ! i) = procs d ! m) [0..<?n])"
      using m ne by (simp add: R(2,3) bucket_def)
  qed
  have "concat (msg_positions d) = map int (concat (map (bucket ?key ?n) ?keep))"
    by (simp add: R(3) map_concat comp_def)
  also have "\<dots> = map int (concat (map (bucket ?key ?n) [0..<PPN c]))"
    by (simp add: concat_skip_empty)
  finally have ms: "mset (indices d) = mset (map int [0..<?n])"
    using mset_buckets [OF K] by (simp add: R(4) del: mset_upt)
  have "distinct (map int [0..<?n])"
    by (simp add: distinct_map)
  then have di: "distinct (indices d)"
    using ms by (metis mset_eq_imp_distinct_iff)
  show ?thesis
    using R(1,4) A(3) len dist msgs ms di unfolding lcl by blast
qed

theorem form_local_R_recv_slots_cover_witness:
  "form_local_R_recv example_small [100, 101, 102, 103, 104] [1, 1, 1, 5, 1] [1, 5] [2, 3]
     new_comm_data =
   Inr (\<lparr>procs = [0, 1, 2], msg_counts = [2, 2, 1], msg_positions = [[0, 2], [1, 4], [3]],
          indptr = [0, 2, 4, 5], indices = [0, 2, 1, 4, 3], finalized = True\<rparr>,
        [1, 1, 1, 0]) \<and>
   off_node_col_to_lcl_proc example_small 5 [1, 1, 1, 5, 1] [1, 5] [2, 3] = [0, 1, 0, 2, 1]"
proof -
  have h: "0 < PPN example_small" "distinct [1, 5 :: nat]"
    "\<forall>node \<in> set [1, 5 :: nat]. node < num_nodes example_small"
    "length [2, 3 :: nat] = length [1, 5 :: nat]" "\<forall>f \<in> set [2, 3 :: nat]. 0 < f"
    "length [1, 1, 1, 5, 1 :: nat] = length [100, 101, 102, 103, 104 :: int]"
    "set [1, 1, 1, 5, 1 :: nat] \<subseteq> set [1, 5]"
    by (simp_all add: example_small_def)
  have e: "form_local_R_recv example_small [100, 101, 102, 103, 104] [1, 1, 1, 5, 1] [1, 5] [2, 3]
     new_comm_data =
   Inr (\<lparr>procs = [0, 1, 2], msg_counts = [2, 2, 1], msg_positions = [[0, 2], [1, 4], [3]],
          indptr = [0, 2, 4, 5], indices = [0, 2, 1, 4, 3], finalized = True\<rparr>,
        [1, 1, 1, 0])"
    "off_node_col_to_lcl_proc example_small 5 [1, 1, 1, 5, 1] [1, 5] [2, 3] = [0, 1, 0, 2, 1]"
    by code_simp+
  show ?thesis
    using form_local_R_recv_slots_cover [OF h] e by simp
qed

subsection \<open>Global stage, receive side\<close>

lemma count_nodes_fold:
  assumes "\<forall>i<n. orig_nodes ! i < num_nodes c"
  shows "m \<le> n \<Longrightarrow>
     length (count_nodes c m orig_nodes) = num_nodes c \<and>
     (\<forall>v<num_nodes c. count_nodes c m orig_nodes ! v = length (bucket (\<lambda>i. orig_nodes ! i) m v))"
proof (induction m)
  case 0
  show ?case by (simp add: bucket_def count_nodes_def)
next
  case (Suc m)
  define ns where "ns = count_nodes c m orig_nodes"
  have step: "count_nodes c (Suc m) orig_nodes = ns[orig_nodes ! m := ns ! (orig_nodes ! m) + 1]"
    by (simp add: count_nodes_def ns_def)
  from Suc have IH: "length ns = num_nodes c"
    "\<forall>v<num_nodes c. ns ! v = length (bucket (\<lambda>i. orig_nodes ! i) m v)"
    by (simp_all add: ns_def)
  have om: "orig_nodes ! m < num_nodes c" using assms Suc.prems by simp
  show ?case
    unfolding step using IH om by (auto simp add: nth_list_update bucket_Suc)
qed

lemma node_displs_fold:
  assumes D: "distinct (map (\<lambda>proc. nat (get_node c rank proc)) recv_procs)"
    and N: "\<forall>proc \<in> set recv_procs. nat (get_node c rank proc) < num_nodes c"
  shows "m \<le> length recv_procs \<Longrightarrow>
     (\<exists>node_recv_idx displs.
        fold (node_displs_step c rank recv_procs node_sizes) [0..<m]
          (replicate (num_nodes c) 0, replicate (length recv_procs + 1) 0) = (node_recv_idx, displs) \<and>
        length displs = length recv_procs + 1 \<and> length node_recv_idx = num_nodes c \<and>
        displs ! 0 = 0 \<and>
        (\<forall>k<m. node_recv_idx ! peer_node c rank recv_procs k = k \<and>
               displs ! Suc k = displs ! k + node_sizes ! peer_node c rank recv_procs k))"
proof (induction m)
  case 0
  show ?case by simp
next
  case (Suc m)
  then obtain node_recv_idx displs where IH:
    "fold (node_displs_step c rank recv_procs node_sizes) [0..<m]
       (replicate (num_nodes c) 0, replicate (length recv_procs + 1) 0) = (node_recv_idx, displs)"
    "length displs = length recv_procs + 1" "length node_recv_idx = num_nodes c" "displs ! 0 = 0"
    "\<forall>k<m. node_recv_idx ! peer_node c rank recv_procs k = k \<and>
            displs ! Suc k = displs ! k + node_sizes ! peer_node c rank recv_procs k"
    by auto
  from Suc.prems have m: "m < length recv_procs" by simp
  let ?pn = "peer_node c rank recv_procs"
  have ne: "\<forall>k<m. ?pn k \<noteq> ?pn m"
    using D m nth_eq_iff_index_eq [OF D, of _ m]
    by (auto simp add: peer_node_def)
  have pm: "?pn m < num_nodes c" using N m by (simp add: peer_node_def)
  let ?idx = "node_recv_idx[?pn m := m]"
  let ?d = "displs[Suc m := displs ! m + node_sizes ! ?pn m]"
  have body: "node_displs_step c rank recv_procs node_sizes m (node_recv_idx, displs) = (?idx, ?d)"
    by (simp add: node_displs_step_def Let_def peer_node_def)
  have "fold (node_displs_step c rank recv_procs node_sizes) [0..<Suc m]
       (replicate (num_nodes c) 0, replicate (length recv_procs + 1) 0) =
       node_displs_step c rank recv_procs node_sizes m
         (fold (node_displs_step c rank recv_procs node_sizes) [0..<m]
            (replicate (num_nodes c) 0, replicate (length recv_procs + 1) 0))"
    by simp
  then have step: "fold (node_displs_step c rank recv_procs node_sizes) [0..<Suc m]
       (replicate (num_nodes c) 0, replicate (length recv_procs + 1) 0) = (?idx, ?d)"
    unfolding IH(1) body .
  have sm: "Suc m < length displs" using IH(2) m by simp
  have vals: "\<forall>k<Suc m. ?idx ! ?pn k = k \<and> ?d ! Suc k = ?d ! k + node_sizes ! ?pn k"
    using IH(3,5) ne pm sm by (auto simp add: nth_list_update less_Suc_eq)
  have d0: "?d ! 0 = 0" using IH(4) by simp
  show ?case
    unfolding step using IH(2,3) vals d0 by simp
qed

lemma remdups_adj_snoc:
  "ys \<noteq> [] \<Longrightarrow> remdups_adj (ys @ [x]) = remdups_adj ys @ (if last ys = x then [] else [x])"
proof -
  assume "ys \<noteq> []"
  then have e: "butlast ys @ [last ys] = ys" by simp
  have "butlast ys @ [last ys, x] = (butlast ys @ [last ys]) @ [x]"
    by simp
  then have "remdups_adj (ys @ [x]) = remdups_adj (butlast ys @ [last ys, x])"
    by (simp only: e)
  also have "\<dots> = remdups_adj (butlast ys @ [last ys]) @ (if last ys = x then [] else [x])"
    by (rule remdups_adj_append_two)
  finally show ?thesis by (simp only: e)
qed

lemma copy_unique_fold:
  "start < m \<Longrightarrow> m \<le> length xs \<Longrightarrow>
   fold (\<lambda>j recv_buffer. if xs ! j \<noteq> xs ! (j - 1) then recv_buffer @ [xs ! j] else recv_buffer)
     [start + 1..<m] [xs ! start] = remdups_adj (take (m - start) (drop start xs))"
proof (induction m)
  case 0
  then show ?case by simp
next
  case (Suc m)
  show ?case
  proof (cases "start = m")
    case True
    then show ?thesis using Suc.prems by (simp add: take_Suc_conv_app_nth)
  next
    case False
    then have sm: "start < m" "m < length xs" using Suc.prems by simp_all
    let ?ys = "take (m - start) (drop start xs)"
    have IH: "fold (\<lambda>j recv_buffer. if xs ! j \<noteq> xs ! (j - 1) then recv_buffer @ [xs ! j] else recv_buffer)
     [start + 1..<m] [xs ! start] = remdups_adj ?ys"
      using Suc.IH sm by simp
    have ne: "?ys \<noteq> []" using sm by simp
    have lst: "last ?ys = xs ! (m - 1)"
      using sm by (simp add: last_conv_nth)
    have "Suc m - start = Suc (m - start)" using sm by simp
    then have tk: "take (Suc m - start) (drop start xs) = ?ys @ [xs ! m]"
      using sm by (simp add: take_Suc_conv_app_nth)
    have up: "[start + 1..<Suc m] = [start + 1..<m] @ [m]" using sm by simp
    show ?thesis
      unfolding tk remdups_adj_snoc [OF ne] lst up fold_append comp_def IH
      by simp
  qed
qed

lemma copy_unique_eq:
  "start < stop \<Longrightarrow> stop \<le> length xs \<Longrightarrow>
   copy_unique xs start stop = remdups_adj (take (stop - start) (drop start xs))"
  unfolding copy_unique_def by (rule copy_unique_fold)

lemma sort_range_slice:
  assumes "start \<le> stop" "stop \<le> length xs"
  shows "length (sort_range start stop xs) = length xs"
    and "take (stop - start) (drop start (sort_range start stop xs)) =
           sort (take (stop - start) (drop start xs))"
    and "drop stop (sort_range start stop xs) = drop stop xs"
proof -
  let ?mid = "sort (take (stop - start) (drop start xs))"
  have l1: "length (take start xs) = start" using assms by simp
  have l2: "length ?mid = stop - start" using assms by simp
  show "length (sort_range start stop xs) = length xs"
    unfolding sort_range_def length_append l1 l2 using assms by simp
  show "take (stop - start) (drop start (sort_range start stop xs)) = ?mid"
    unfolding sort_range_def using l1 l2 by simp
  have "drop stop (take start xs @ ?mid @ drop stop xs) =
        drop (stop - start) (?mid @ drop stop xs)"
    using l1 assms by simp
  also have "\<dots> = drop stop xs"
    using l2 by simp
  finally show "drop stop (sort_range start stop xs) = drop stop xs"
    unfolding sort_range_def .
qed


lemma global_recv_fold:
  assumes mono: "\<forall>a b. a \<le> b \<and> b \<le> length recv_procs \<longrightarrow> displs ! a \<le> displs ! b"
    and top: "displs ! length recv_procs \<le> length arr0"
  shows "m \<le> length recv_procs \<Longrightarrow>
     length (fst (fold (global_recv_step recv_procs displs) [0..<m] (arr0, rd))) = length arr0 \<and>
     drop (displs ! m) (fst (fold (global_recv_step recv_procs displs) [0..<m] (arr0, rd)))
       = drop (displs ! m) arr0 \<and>
     procs (snd (fold (global_recv_step recv_procs displs) [0..<m] (arr0, rd))) =
       procs rd @ map (\<lambda>b. recv_procs ! b)
                    (filter (\<lambda>b. displs ! Suc b - displs ! b \<noteq> 0) [0..<m]) \<and>
     msg_counts (snd (fold (global_recv_step recv_procs displs) [0..<m] (arr0, rd))) =
       msg_counts rd @ map (\<lambda>b. length (remdups_adj (sort (slice displs arr0 b))))
                    (filter (\<lambda>b. displs ! Suc b - displs ! b \<noteq> 0) [0..<m]) \<and>
     msg_positions (snd (fold (global_recv_step recv_procs displs) [0..<m] (arr0, rd))) =
       msg_positions rd @ map (\<lambda>b. remdups_adj (sort (slice displs arr0 b)))
                    (filter (\<lambda>b. displs ! Suc b - displs ! b \<noteq> 0) [0..<m]) \<and>
     finalized (snd (fold (global_recv_step recv_procs displs) [0..<m] (arr0, rd))) = finalized rd"
proof (induction m)
  case 0
  show ?case by simp
next
  case (Suc m)
  define st where "st = fold (global_recv_step recv_procs displs) [0..<m] (arr0, rd)"
  have step: "fold (global_recv_step recv_procs displs) [0..<Suc m] (arr0, rd)
                = global_recv_step recv_procs displs m st"
    by (simp add: st_def)
  from Suc have m: "m < length recv_procs" by simp
  from Suc have IH: "length (fst st) = length arr0"
    "drop (displs ! m) (fst st) = drop (displs ! m) arr0"
    "procs (snd st) = procs rd @ map (\<lambda>b. recv_procs ! b)
                    (filter (\<lambda>b. displs ! Suc b - displs ! b \<noteq> 0) [0..<m])"
    "msg_counts (snd st) = msg_counts rd @ map (\<lambda>b. length (remdups_adj (sort (slice displs arr0 b))))
                    (filter (\<lambda>b. displs ! Suc b - displs ! b \<noteq> 0) [0..<m])"
    "msg_positions (snd st) = msg_positions rd @ map (\<lambda>b. remdups_adj (sort (slice displs arr0 b)))
                    (filter (\<lambda>b. displs ! Suc b - displs ! b \<noteq> 0) [0..<m])"
    "finalized (snd st) = finalized rd"
    by (simp_all add: st_def)
  let ?start = "displs ! m" and ?stop = "displs ! Suc m"
  have le: "?start \<le> ?stop" using mono m by simp
  have inr: "?stop \<le> length (fst st)"
    using mono [rule_format, of "Suc m" "length recv_procs"] m top IH(1) by simp
  have cur: "take (?stop - ?start) (drop ?start (fst st)) = slice displs arr0 m"
    by (simp add: slice_def IH(2))
  have tail: "drop ?stop (fst st) = drop ?stop arr0"
  proof -
    have "drop ?stop (fst st) = drop (?stop - ?start) (drop ?start (fst st))"
      using le by simp
    also have "\<dots> = drop (?stop - ?start) (drop ?start arr0)"
      by (simp only: IH(2))
    also have "\<dots> = drop ?stop arr0"
      using le by simp
    finally show ?thesis .
  qed
  show ?case
  proof (cases "?stop - ?start \<noteq> 0")
    case False
    then have "global_recv_step recv_procs displs m st = st"
      by (simp add: global_recv_step_def Let_def)
    then show ?thesis
      unfolding step using IH False tail by simp
  next
    case True
    then have lt: "?start < ?stop" by simp
    let ?arr = "sort_range ?start ?stop (fst st)"
    note sr = sort_range_slice [OF le inr]
    have buf: "copy_unique ?arr ?start ?stop = remdups_adj (sort (slice displs arr0 m))"
      using copy_unique_eq [OF lt, of ?arr] inr sr cur by simp
    have new: "global_recv_step recv_procs displs m st =
         (?arr, add_msg (recv_procs ! m) (length (remdups_adj (sort (slice displs arr0 m))))
                  (remdups_adj (sort (slice displs arr0 m))) (snd st))"
      using True by (simp add: global_recv_step_def Let_def buf)
    show ?thesis
      unfolding step new using IH sr tail True by (simp add: add_msg_def)
  qed
qed


lemma strict_sorted_remdups_adj:
  fixes xs :: "int list"
  shows "sorted xs \<Longrightarrow> sorted_wrt (<) (remdups_adj xs)"
  by (induction xs rule: remdups_adj.induct) (auto simp add: less_le)

lemma form_global_recv_result:
  assumes G: "\<forall>proc \<in> set recv_procs.
                0 \<le> get_node c rank proc \<and> get_node c rank proc < int (num_nodes c)"
    and D: "distinct (map (get_node c rank) recv_procs)"
    and LO: "length orig_nodes = length r_indices"
    and O: "\<forall>node \<in> set orig_nodes. int node \<in> get_node c rank ` set recv_procs"
  shows "\<exists>d. form_global_recv c rank recv_procs orig_nodes r_indices new_comm_data = Inr d \<and>
     procs d = map (\<lambda>b. recv_procs ! b)
                 (filter (\<lambda>b. bucket (\<lambda>i. orig_nodes ! i) (length r_indices)
                                (peer_node c rank recv_procs b) \<noteq> [])
                    [0..<length recv_procs]) \<and>
     msg_positions d =
       map (\<lambda>b. remdups_adj (sort (map (\<lambda>i. r_indices ! i)
                  (bucket (\<lambda>i. orig_nodes ! i) (length r_indices)
                     (peer_node c rank recv_procs b)))))
         (filter (\<lambda>b. bucket (\<lambda>i. orig_nodes ! i) (length r_indices)
                        (peer_node c rank recv_procs b) \<noteq> [])
            [0..<length recv_procs]) \<and>
     indices d = concat (msg_positions d)"
proof -
  let ?n = "length r_indices"
  let ?B = "length recv_procs"
  let ?pn = "peer_node c rank recv_procs"
  let ?orig = "\<lambda>i. orig_nodes ! i"
  have inj: "inj_on nat (get_node c rank ` set recv_procs)"
  proof (rule inj_onI)
    fix x y assume x: "x \<in> get_node c rank ` set recv_procs"
      and y: "y \<in> get_node c rank ` set recv_procs" and e: "nat x = nat y"
    have "0 \<le> x" "0 \<le> y" using G x y by auto
    with e show "x = y" by (metis nat_0_le)
  qed
  have "distinct (map nat (map (get_node c rank) recv_procs))"
    using D inj by (simp add: distinct_map del: map_map)
  then have Dn: "distinct (map (\<lambda>proc. nat (get_node c rank proc)) recv_procs)"
    by (simp add: comp_def)
  have Nn: "\<forall>proc \<in> set recv_procs. nat (get_node c rank proc) < num_nodes c"
    using G by auto
  have cover: "\<forall>i<?n. \<exists>k<?B. orig_nodes ! i = ?pn k"
  proof (intro allI impI)
    fix i assume "i < ?n"
    then have "orig_nodes ! i \<in> set orig_nodes" using LO by simp
    with O obtain proc where "proc \<in> set recv_procs" "int (orig_nodes ! i) = get_node c rank proc"
      by auto
    then show "\<exists>k<?B. orig_nodes ! i = ?pn k"
      by (metis in_set_conv_nth nat_int peer_node_def)
  qed
  have On: "\<forall>i<?n. orig_nodes ! i < num_nodes c"
    using cover Nn by (auto simp add: peer_node_def)
  note cn = count_nodes_fold [OF On, of ?n, simplified]
  from node_displs_fold [OF Dn Nn, of ?B "count_nodes c ?n orig_nodes"]
  obtain node_recv_idx displs where ND:
    "node_displs c rank recv_procs (count_nodes c ?n orig_nodes) = (node_recv_idx, displs)"
    "length displs = ?B + 1" "displs ! 0 = 0"
    "\<forall>k<?B. node_recv_idx ! ?pn k = k \<and>
        displs ! Suc k = displs ! k + count_nodes c ?n orig_nodes ! ?pn k"
    unfolding node_displs_def by auto
  let ?key = "\<lambda>i. node_recv_idx ! (orig_nodes ! i)"
  have K: "\<forall>i<?n. ?key i < ?B"
    using cover ND(4) by auto
  have pnN: "\<forall>b<?B. ?pn b < num_nodes c"
    using Nn by (simp add: peer_node_def)
  have bk: "\<forall>b<?B. bucket ?key ?n b = bucket ?orig ?n (?pn b)"
  proof (intro allI impI)
    fix b assume b: "b < ?B"
    show "bucket ?key ?n b = bucket ?orig ?n (?pn b)"
      unfolding bucket_def
    proof (rule filter_cong [OF refl])
      fix i assume "i \<in> set [0..<?n]"
      then obtain k where k: "k < ?B" "orig_nodes ! i = ?pn k" using cover by auto
      show "(?key i = b) = (orig_nodes ! i = ?pn b)"
        using k b ND(4) by metis
    qed
  qed
  have D1: "\<forall>b<?B. displs ! Suc b = displs ! b + length (bucket ?key ?n b)"
    using ND(4) cn pnN bk by simp
  have total: "displs ! ?B = ?n"
    using displs_total [OF ND(3) D1, of ?B] bucket_total [OF K] by simp
  let ?arr0 = "snd (fold (place_step ?key (\<lambda>i. r_indices ! i) displs) [0..<?n]
                     (replicate ?B 0, replicate ?n 0))"
  note pf = place_fold [OF K D1, of "replicate ?n 0" "replicate ?B 0" ?n "\<lambda>i. r_indices ! i"]
  have larr: "length ?arr0 = ?n" using pf total by simp
  have "\<forall>b<?B. take (length (bucket ?key ?n b)) (drop (displs ! b) ?arr0)
                   = map (\<lambda>i. r_indices ! i) (bucket ?key ?n b)"
    using pf total by simp
  then have sl: "\<forall>b<?B. slice displs ?arr0 b = map (\<lambda>i. r_indices ! i) (bucket ?orig ?n (?pn b))"
    using D1 bk by (simp add: slice_def)
  have mono: "\<forall>a b. a \<le> b \<and> b \<le> ?B \<longrightarrow> displs ! a \<le> displs ! b"
    using displs_mono [OF D1] by blast
  have top: "displs ! ?B \<le> length ?arr0" using total larr by simp
  let ?keep = "filter (\<lambda>b. bucket ?orig ?n (?pn b) \<noteq> []) [0..<?B]"
  have keep: "filter (\<lambda>b. displs ! Suc b - displs ! b \<noteq> 0) [0..<?B] = ?keep"
    using D1 bk by (intro filter_cong) simp_all
  have pos: "map (\<lambda>b. remdups_adj (sort (slice displs ?arr0 b))) ?keep =
             map (\<lambda>b. remdups_adj (sort (map (\<lambda>i. r_indices ! i) (bucket ?orig ?n (?pn b))))) ?keep"
    using sl by simp
  let ?r = "fold (global_recv_step recv_procs displs) [0..<?B] (?arr0, new_comm_data)"
  note R = global_recv_fold [OF mono top, of ?B new_comm_data, unfolded keep pos]
  have e: "procs new_comm_data = []" "msg_positions new_comm_data = []"
    "\<not> finalized new_comm_data"
    by (simp_all add: new_comm_data_def)
  have r1: "procs (snd ?r) = map (\<lambda>b. recv_procs ! b) ?keep"
    using R unfolding e by simp
  have r2: "msg_positions (snd ?r) =
      map (\<lambda>b. remdups_adj (sort (map (\<lambda>i. r_indices ! i) (bucket ?orig ?n (?pn b))))) ?keep"
    using R unfolding e by simp
  have r3: "\<not> finalized (snd ?r)"
    using R e(3) by simp
  have run: "form_global_recv c rank recv_procs orig_nodes r_indices new_comm_data =
             finalize (snd ?r)"
  proof -
    have a: "fst (node_displs c rank recv_procs (count_nodes c ?n orig_nodes)) = node_recv_idx"
      "snd (node_displs c rank recv_procs (count_nodes c ?n orig_nodes)) = displs"
      by (simp_all add: ND(1))
    show ?thesis
      unfolding form_global_recv_def Let_def a ..
  qed
  show ?thesis
    unfolding run using r1 r2 r3 by (simp add: finalize_def)
qed

text \<open>
  C6. The receive peers lie on distinct hosts with ids in \<open>[0, num_nodes)\<close>, and every
  origin host recorded in \<open>orig_nodes\<close> is the host of a receive peer (outside these
  conditions the C++ writes out of bounds). Then \<open>form_global_par_comm\<close> builds and
  finalizes its receive ledger, and the index list added for a peer is non-empty, strictly
  increasing, and equal as a set to the global column indices of the R-stage send ledger
  whose origin host is the host of that peer. Every peer for which there is such an index
  gets a message.
\<close>

theorem form_global_recv_dedup:
  assumes G: "\<forall>proc \<in> set recv_procs.
                0 \<le> get_node c rank proc \<and> get_node c rank proc < int (num_nodes c)"
    and D: "distinct (map (get_node c rank) recv_procs)"
    and LO: "length orig_nodes = length r_indices"
    and O: "\<forall>node \<in> set orig_nodes. int node \<in> get_node c rank ` set recv_procs"
  shows "\<exists>d. form_global_recv c rank recv_procs orig_nodes r_indices new_comm_data = Inr d \<and>
     length (msg_positions d) = length (procs d) \<and>
     (\<forall>m<length (procs d).
        procs d ! m \<in> set recv_procs \<and> msg_positions d ! m \<noteq> [] \<and>
        sorted_wrt (<) (msg_positions d ! m) \<and>
        set (msg_positions d ! m) =
          {r_indices ! i | i. i < length r_indices \<and>
             int (orig_nodes ! i) = get_node c rank (procs d ! m)}) \<and>
     (\<forall>proc \<in> set recv_procs.
        (\<exists>i<length r_indices. int (orig_nodes ! i) = get_node c rank proc)
          \<longrightarrow> proc \<in> set (procs d)) \<and>
     indices d = concat (msg_positions d)"
proof -
  let ?n = "length r_indices"
  let ?B = "length recv_procs"
  let ?pn = "peer_node c rank recv_procs"
  let ?orig = "\<lambda>i. orig_nodes ! i"
  let ?keep = "filter (\<lambda>b. bucket ?orig ?n (?pn b) \<noteq> []) [0..<?B]"
  let ?msg = "\<lambda>b. remdups_adj (sort (map (\<lambda>i. r_indices ! i) (bucket ?orig ?n (?pn b))))"
  from form_global_recv_result [OF G D LO O]
  obtain d where R:
    "form_global_recv c rank recv_procs orig_nodes r_indices new_comm_data = Inr d"
    "procs d = map (\<lambda>b. recv_procs ! b) ?keep"
    "msg_positions d = map ?msg ?keep"
    "indices d = concat (msg_positions d)"
    by blast
  have same: "\<And>b i. b < ?B \<Longrightarrow>
      (int (orig_nodes ! i) = get_node c rank (recv_procs ! b)) = (orig_nodes ! i = ?pn b)"
  proof -
    fix b i assume "b < ?B"
    then have "0 \<le> get_node c rank (recv_procs ! b)" using G by simp
    then show "(int (orig_nodes ! i) = get_node c rank (recv_procs ! b)) = (orig_nodes ! i = ?pn b)"
      unfolding peer_node_def by (metis nat_0_le nat_int)
  qed
  have len: "length (msg_positions d) = length (procs d)"
    by (simp add: R(2,3))
  have msgs: "\<forall>m<length (procs d).
        procs d ! m \<in> set recv_procs \<and> msg_positions d ! m \<noteq> [] \<and>
        sorted_wrt (<) (msg_positions d ! m) \<and>
        set (msg_positions d ! m) =
          {r_indices ! i | i. i < ?n \<and> int (orig_nodes ! i) = get_node c rank (procs d ! m)}"
  proof (intro allI impI)
    fix m assume "m < length (procs d)"
    then have m: "m < length ?keep" by (simp add: R(2))
    define b where "b = ?keep ! m"
    have "b \<in> set ?keep" unfolding b_def using m by (rule nth_mem)
    then have b: "b < ?B" and ne: "bucket ?orig ?n (?pn b) \<noteq> []" by simp_all
    have p: "procs d ! m = recv_procs ! b" using m by (simp add: R(2) b_def)
    have q: "msg_positions d ! m = ?msg b" using m by (simp add: R(3) b_def)
    have s0: "recv_procs ! b \<in> set recv_procs" using b by simp
    have s1: "sorted_wrt (<) (?msg b)"
      by (rule strict_sorted_remdups_adj) simp
    have s2: "set (?msg b) =
        {r_indices ! i | i. i < ?n \<and> int (orig_nodes ! i) = get_node c rank (recv_procs ! b)}"
      using same [OF b] by (auto simp add: bucket_def)
    have "length (?msg b) \<ge> Suc 0"
      using ne by (intro remdups_adj_length_ge1) (metis length_0_conv length_map length_sort)
    then have s3: "?msg b \<noteq> []" by auto
    show "procs d ! m \<in> set recv_procs \<and> msg_positions d ! m \<noteq> [] \<and>
        sorted_wrt (<) (msg_positions d ! m) \<and>
        set (msg_positions d ! m) =
          {r_indices ! i | i. i < ?n \<and> int (orig_nodes ! i) = get_node c rank (procs d ! m)}"
      unfolding p q using s0 s1 s2 s3 by (intro conjI)
  qed
  have served: "\<forall>proc \<in> set recv_procs.
        (\<exists>i<?n. int (orig_nodes ! i) = get_node c rank proc) \<longrightarrow> proc \<in> set (procs d)"
  proof (intro ballI impI)
    fix proc assume "proc \<in> set recv_procs"
      and ex: "\<exists>i<?n. int (orig_nodes ! i) = get_node c rank proc"
    then obtain b where b: "b < ?B" "recv_procs ! b = proc"
      by (auto simp add: in_set_conv_nth)
    from ex obtain i where i: "i < ?n" "int (orig_nodes ! i) = get_node c rank proc" by blast
    then have "orig_nodes ! i = ?pn b" using same [OF b(1), of i] b(2) by simp
    then have "i \<in> set (bucket ?orig ?n (?pn b))" using i(1) by (simp add: bucket_def)
    then have "bucket ?orig ?n (?pn b) \<noteq> []" by auto
    then have "b \<in> set ?keep" using b(1) by simp
    then have "recv_procs ! b \<in> set (procs d)" unfolding R(2) by simp
    then show "proc \<in> set (procs d)" using b(2) by simp
  qed
  show ?thesis
    using R(1,4) len msgs served by blast
qed


theorem form_global_recv_dedup_witness:
  "\<exists>d. form_global_recv example_small 0 [21, 5] [1, 5, 1, 1, 5] [40, 90, 30, 40, 90]
          new_comm_data = Inr d \<and>
        procs d = [21, 5] \<and> msg_positions d = [[90], [30, 40]] \<and> indices d = [90, 30, 40]"
proof -
  have h: "\<forall>proc \<in> set [21, 5 :: int].
             0 \<le> get_node example_small 0 proc \<and>
             get_node example_small 0 proc < int (num_nodes example_small)"
    "distinct (map (get_node example_small 0) [21, 5])"
    "length [1, 5, 1, 1, 5 :: nat] = length [40, 90, 30, 40, 90 :: int]"
    "\<forall>node \<in> set [1, 5, 1, 1, 5 :: nat]. int node \<in> get_node example_small 0 ` set [21, 5]"
    by (simp_all add: example_small_def topo_defs)
  have e1: "map (\<lambda>b. [21, 5 :: int] ! b)
              (filter (\<lambda>b. bucket (\<lambda>i. [1, 5, 1, 1, 5] ! i) (length [40, 90, 30, 40, 90 :: int])
                             (peer_node example_small 0 [21, 5] b) \<noteq> [])
                 [0..<length [21, 5 :: int]]) = [21, 5]"
    by code_simp
  have e2: "map (\<lambda>b. remdups_adj (sort (map (\<lambda>i. [40, 90, 30, 40, 90 :: int] ! i)
                  (bucket (\<lambda>i. [1, 5, 1, 1, 5] ! i) (length [40, 90, 30, 40, 90 :: int])
                     (peer_node example_small 0 [21, 5] b)))))
         (filter (\<lambda>b. bucket (\<lambda>i. [1, 5, 1, 1, 5] ! i) (length [40, 90, 30, 40, 90 :: int])
                        (peer_node example_small 0 [21, 5] b) \<noteq> [])
            [0..<length [21, 5 :: int]]) = [[90], [30, 40]]"
    by code_simp
  from form_global_recv_result [OF h]
  obtain d where d:
    "form_global_recv example_small 0 [21, 5] [1, 5, 1, 1, 5] [40, 90, 30, 40, 90] new_comm_data
       = Inr d"
    "procs d = [21, 5]" "msg_positions d = [[90], [30, 40]]" "indices d = concat (msg_positions d)"
    unfolding e1 e2 by blast
  show ?thesis
    using form_global_recv_dedup [OF h] d by simp
qed

subsection \<open>What host discovery hands to the R stage\<close>

text \<open>
  The decoded host list is the union of the hosts that the processes of the host need, in
  increasing order. With positive thresholds, the host list and the fan-outs returned by
  \<open>gather_off_node_nodes\<close> have the properties that the theorem on the R stage assumes of
  \<open>recv_nodes\<close> and \<open>nodal_num_local\<close>.
\<close>

lemma bit_mark: "bit (x OR push_bit pos (1 :: int)) j \<longleftrightarrow> bit x j \<or> j = pos"
  by (auto simp add: bit_or_iff bit_exp_iff)

lemma decode_test: "(drop_bit j (x :: int) AND 1 = 1) \<longleftrightarrow> bit x j"
  by (simp add: and_one_eq bit_iff_odd_drop_bit odd_iff_mod_2_eq_one)

lemma node_word: "node < num_nodes c \<Longrightarrow> node div int_size < bitmap_len c"
  by (auto simp add: bitmap_len_def int_size_def Let_def)

lemma mark_fold:
  "\<forall>node \<in> set cols. node div int_size < length bm \<Longrightarrow> i < length bm \<Longrightarrow> j < int_size \<Longrightarrow>
   length (fst (fold mark_step cols (bm, sz))) = length bm \<and>
   (bit (fst (fold mark_step cols (bm, sz)) ! i) j \<longleftrightarrow>
      bit (bm ! i) j \<or> i * int_size + j \<in> set cols)"
proof (induction cols arbitrary: bm sz)
  case Nil
  show ?case by simp
next
  case (Cons node cols)
  let ?bm = "bm[node div int_size := bm ! (node div int_size) OR push_bit (node mod int_size) 1]"
  let ?sz = "sz[node := sz ! node + 1]"
  have step: "fold mark_step (node # cols) (bm, sz) = fold mark_step cols (?bm, ?sz)"
    by (simp add: mark_step_def Let_def)
  have pre: "\<forall>node \<in> set cols. node div int_size < length ?bm" "i < length ?bm"
    using Cons.prems by simp_all
  note IH = Cons.IH [OF pre Cons.prems(3), of ?sz]
  have nd: "node div int_size < length bm" using Cons.prems(1) by simp
  have here: "bit (?bm ! i) j \<longleftrightarrow> bit (bm ! i) j \<or> i * int_size + j = node"
  proof (cases "i = node div int_size")
    case True
    have "j = node mod int_size \<longleftrightarrow> i * int_size + j = node"
      using True Cons.prems(3) unfolding int_size_def by presburger
    then show ?thesis using True nd by (simp add: bit_or_iff bit_exp_iff)
  next
    case False
    then have "i * int_size + j \<noteq> node" using Cons.prems(3) by (auto simp add: int_size_def)
    then show ?thesis using False by simp
  qed
  show ?case
    unfolding step using IH here by auto
qed


lemma allreduce_bor_bit:
  "i < n \<Longrightarrow>
   bit (allreduce_bor n contribs ! i) j \<longleftrightarrow> (\<exists>v \<in> set contribs. bit (v ! i) j)"
proof -
  have "\<And>acc :: int. bit (fold (\<lambda>v acc. acc OR v ! i) contribs acc) j \<longleftrightarrow>
          bit acc j \<or> (\<exists>v \<in> set contribs. bit (v ! i) j)"
    by (induction contribs) (auto simp add: bit_or_iff)
  then show ?thesis if "i < n"
    using that by (simp add: allreduce_bor_def)
qed

lemma decode_nodes_mem:
  "x \<in> set (decode_nodes N bm) \<longleftrightarrow>
     x div int_size < N \<and> bit (bm ! (x div int_size)) (x mod int_size)"
proof
  assume "x \<in> set (decode_nodes N bm)"
  then obtain i j where ij: "i < N" "j < int_size" "bit (bm ! i) j" "x = i * int_size + j"
    by (auto simp add: decode_nodes_def decode_test)
  then have "x div int_size = i" "x mod int_size = j"
    by (simp_all add: int_size_def)
  then show "x div int_size < N \<and> bit (bm ! (x div int_size)) (x mod int_size)"
    using ij by simp
next
  assume h: "x div int_size < N \<and> bit (bm ! (x div int_size)) (x mod int_size)"
  have e: "x = x div int_size * int_size + x mod int_size" by simp
  have j: "x mod int_size < int_size" by (simp add: int_size_def)
  have "x div int_size * int_size + x mod int_size \<in>
        (+) (x div int_size * int_size) ` {j. j < int_size \<and> bit (bm ! (x div int_size)) j}"
    using h j by blast
  then have "x \<in> (+) (x div int_size * int_size) ` {j. j < int_size \<and> bit (bm ! (x div int_size)) j}"
    using e by simp
  then show "x \<in> set (decode_nodes N bm)"
    unfolding decode_nodes_def using h
    by (simp add: decode_test) (rule bexI [of _ "x div int_size"], simp_all)
qed

lemma decode_nodes_sorted: "sorted_wrt (<) (decode_nodes N bm)"
proof -
  have "sorted_wrt (<) (decode_nodes N bm) \<and> (\<forall>x \<in> set (decode_nodes N bm). x < N * int_size)"
  proof (induction N)
    case 0
    show ?case by (simp add: decode_nodes_def)
  next
    case (Suc N)
    let ?last = "map (\<lambda>j. N * int_size + j)
                   (filter (\<lambda>j. drop_bit j (bm ! N) AND 1 = 1) [0..<int_size])"
    have split: "decode_nodes (Suc N) bm = decode_nodes N bm @ ?last"
      by (simp add: decode_nodes_def)
    have s: "sorted_wrt (<) ?last"
      by (simp add: sorted_wrt_map sorted_wrt_filter)
    have r: "\<forall>x \<in> set ?last. N * int_size \<le> x \<and> x < Suc N * int_size"
      by auto
    show ?case
      unfolding split using Suc s r by (fastforce simp add: sorted_wrt_append)
  qed
  then show ?thesis by simp
qed

lemma nodal_recv_nodes_union:
  assumes "\<forall>cols \<in> set local_cols. \<forall>node \<in> set cols. node < num_nodes c"
  shows "set (nodal_recv_nodes c local_cols) = \<Union> (set ` set local_cols)"
proof (rule set_eqI)
  fix x
  let ?N = "bitmap_len c"
  let ?i = "x div int_size" and ?j = "x mod int_size"
  have j: "?j < int_size" by (simp add: int_size_def)
  have x: "?i * int_size + ?j = x" by simp
  have bm: "\<And>cols. cols \<in> set local_cols \<Longrightarrow> ?i < ?N \<Longrightarrow>
      bit (fst (mark_nodes c cols) ! ?i) ?j \<longleftrightarrow> x \<in> set cols"
  proof -
    fix cols assume c: "cols \<in> set local_cols" and i: "?i < ?N"
    have "\<forall>node \<in> set cols. node div int_size < length (replicate ?N (0 :: int))"
      using assms c node_word by simp
    from mark_fold [OF this _ j, of ?i "replicate (num_nodes c) 0"] i
    show "bit (fst (mark_nodes c cols) ! ?i) ?j \<longleftrightarrow> x \<in> set cols"
      by (simp add: mark_nodes_def)
  qed
  show "x \<in> set (nodal_recv_nodes c local_cols) \<longleftrightarrow> x \<in> \<Union> (set ` set local_cols)"
  proof
    assume "x \<in> set (nodal_recv_nodes c local_cols)"
    then have i: "?i < ?N"
      and "bit (allreduce_bor ?N (map (\<lambda>cols. fst (mark_nodes c cols)) local_cols) ! ?i) ?j"
      by (simp_all add: nodal_recv_nodes_def decode_nodes_mem)
    then obtain cols where "cols \<in> set local_cols" "bit (fst (mark_nodes c cols) ! ?i) ?j"
      by (auto simp add: allreduce_bor_bit)
    then show "x \<in> \<Union> (set ` set local_cols)" using bm i by auto
  next
    assume "x \<in> \<Union> (set ` set local_cols)"
    then obtain cols where c: "cols \<in> set local_cols" "x \<in> set cols" by auto
    then have "x < num_nodes c" using assms by simp
    then have i: "?i < ?N" by (rule node_word)
    then have "bit (fst (mark_nodes c cols) ! ?i) ?j" using bm c by simp
    then have "bit (allreduce_bor ?N (map (\<lambda>cols. fst (mark_nodes c cols)) local_cols) ! ?i) ?j"
      using c(1) i by (auto simp add: allreduce_bor_bit)
    then show "x \<in> set (nodal_recv_nodes c local_cols)"
      using i by (simp add: nodal_recv_nodes_def decode_nodes_mem)
  qed
qed


lemma assigned_fan_out_pos:
  assumes "0 < eager_cutoff c" "0 < short_cutoff c" "0 < ideal_n_comm c" "0 < PPN c"
  shows "0 < assigned_fan_out c ctr v"
proof -
  have "v > eager_cutoff c \<Longrightarrow> 0 < v div eager_cutoff c"
    using assms(1) by (simp add: div_greater_zero_iff)
  moreover have "v > short_cutoff c \<Longrightarrow> 0 < v div short_cutoff c"
    using assms(2) by (simp add: div_greater_zero_iff)
  ultimately show ?thesis
    using assms(3,4) by (auto simp add: assigned_fan_out_def)
qed

lemma gather_output_wellformed:
  assumes S: "std_sort_desc (nodal_off_node_sizes c local_cols) p"
    and N: "\<forall>cols \<in> set local_cols. \<forall>node \<in> set cols. node < num_nodes c"
    and T: "0 < eager_cutoff c" "0 < short_cutoff c" "0 < ideal_n_comm c" "0 < PPN c"
    and G: "gather_off_node_nodes c local_cols p [] = Some (recv_nodes, nl)"
  shows "distinct recv_nodes \<and> set recv_nodes = \<Union> (set ` set local_cols) \<and>
         (\<forall>node \<in> set recv_nodes. node < num_nodes c) \<and>
         length nl = length recv_nodes \<and> (\<forall>f \<in> set nl. 0 < f)"
proof -
  let ?dec = "nodal_recv_nodes c local_cols"
  have perm: "is_permutation p" using S by (rule std_sort_desc_permutation)
  have lp: "length ?dec = length p"
    using S by (simp add: std_sort_desc_def length_nodal_off_node_sizes)
  have rn: "recv_nodes = reorder_by_copy p ?dec"
    and nl: "nl = map (\<lambda>k. assigned_fan_out c (length p)
                            (nodal_off_node_sizes c local_cols ! (p ! k))) [0..<length p]"
    using G unfolding gather_result [OF S] by (simp_all add: reorder_by_copy_def)
  have ms: "mset recv_nodes = mset ?dec"
    unfolding rn using perm lp by (rule reorder_by_copy_mset)
  have "distinct ?dec"
    using decode_nodes_sorted [of "bitmap_len c"]
    by (simp add: nodal_recv_nodes_def strict_sorted_iff)
  then have d: "distinct recv_nodes"
    using ms by (metis mset_eq_imp_distinct_iff)
  have st: "set recv_nodes = \<Union> (set ` set local_cols)"
    using ms nodal_recv_nodes_union [OF N] by (metis set_mset_mset)
  have bound: "\<forall>node \<in> set recv_nodes. node < num_nodes c"
    unfolding st using N by auto
  have len: "length nl = length recv_nodes"
    by (simp add: nl rn reorder_by_copy_def)
  have pos: "\<forall>f \<in> set nl. 0 < f"
    unfolding nl using assigned_fan_out_pos [OF T] by auto
  show ?thesis using d st bound len pos by simp
qed

subsection \<open>The library sort\<close>

text \<open>
  The unguarded linear insert returns as soon as some earlier element does not compare
  after the inserted one, and it then moves the element down to the position behind the
  last such element.
\<close>

lemma linear_insert_loop_result:
  "l < length xs \<Longrightarrow> \<exists>k<l. \<not> cmp val (xs ! k) \<Longrightarrow>
   \<exists>j. 0 < j \<and> j \<le> l \<and> \<not> cmp val (xs ! (j - 1)) \<and> (\<forall>k. j \<le> k \<and> k < l \<longrightarrow> cmp val (xs ! k)) \<and>
       linear_insert_loop cmp val l xs =
         Some (take j xs @ [val] @ take (l - j) (drop j xs) @ drop (Suc l) xs)"
proof (induction l arbitrary: xs)
  case 0
  then show ?case by simp
next
  case (Suc n)
  show ?case
  proof (cases "cmp val (xs ! n)")
    case False
    have "xs[Suc n := val] = take (Suc n) xs @ [val] @ drop (Suc (Suc n)) xs"
      using Suc.prems(1) by (simp add: upd_conv_take_nth_drop)
    then have "linear_insert_loop cmp val (Suc n) xs =
        Some (take (Suc n) xs @ [val] @ take (Suc n - Suc n) (drop (Suc n) xs)
                @ drop (Suc (Suc n)) xs)"
      using False by simp
    then show ?thesis
      using False by (intro exI [of _ "Suc n"]) auto
  next
    case True
    let ?xs = "xs[Suc n := xs ! n]"
    have len: "n < length ?xs" using Suc.prems(1) by simp
    obtain k where k: "k < Suc n" "\<not> cmp val (xs ! k)" using Suc.prems(2) by blast
    then have "k < n" using True by (cases "k = n") auto
    then have "\<exists>k<n. \<not> cmp val (?xs ! k)" using k(2) by auto
    from Suc.IH [OF len this] obtain j where j: "0 < j" "j \<le> n" "\<not> cmp val (?xs ! (j - 1))"
      "\<forall>k. j \<le> k \<and> k < n \<longrightarrow> cmp val (?xs ! k)"
      "linear_insert_loop cmp val n ?xs =
         Some (take j ?xs @ [val] @ take (n - j) (drop j ?xs) @ drop (Suc n) ?xs)"
      by blast
    have a: "take j ?xs = take j xs" using j(2) by simp
    have b: "take (n - j) (drop j ?xs) = take (n - j) (drop j xs)"
      using j(2) by (simp add: drop_update_swap)
    have c: "drop (Suc n) ?xs = xs ! n # drop (Suc (Suc n)) xs"
      using Suc.prems(1) by (simp add: drop_update_swap flip: Cons_nth_drop_Suc)
    have d: "take (Suc n - j) (drop j xs) = take (n - j) (drop j xs) @ [xs ! n]"
      using j(2) Suc.prems(1) by (simp add: Suc_diff_le take_Suc_conv_app_nth)
    have "linear_insert_loop cmp val (Suc n) xs =
        Some (take j xs @ [val] @ take (Suc n - j) (drop j xs) @ drop (Suc (Suc n)) xs)"
      using True j(5) by (simp add: a b c d)
    moreover have "\<not> cmp val (xs ! (j - 1))"
      using j(1,2,3) by simp
    moreover have "\<forall>k. j \<le> k \<and> k < Suc n \<longrightarrow> cmp val (xs ! k)"
      using j(4) True by (auto simp add: less_Suc_eq)
    ultimately show ?thesis
      using j(1,2) by (intro exI [of _ j]) auto
  qed
qed


lemma take_split: "j \<le> i \<Longrightarrow> take i xs = take j xs @ take (i - j) (drop j xs)"
  by (metis le_add_diff_inverse take_add)

lemma inserted_props:
  assumes "j \<le> i" "i < length xs"
  shows "length (inserted j i xs) = length xs"
    and "take (Suc i) (inserted j i xs) = take j xs @ [xs ! i] @ take (i - j) (drop j xs)"
    and "drop (Suc i) (inserted j i xs) = drop (Suc i) xs"
    and "mset (take (Suc i) (inserted j i xs)) = mset (take (Suc i) xs)"
proof -
  have l: "length (take j xs @ [xs ! i] @ take (i - j) (drop j xs)) = Suc i"
    using assms by simp
  show "length (inserted j i xs) = length xs"
    using assms by (simp add: inserted_def)
  show t: "take (Suc i) (inserted j i xs) = take j xs @ [xs ! i] @ take (i - j) (drop j xs)"
    using l unfolding inserted_def
    by (metis append.assoc append_eq_conv_conj)
  show "drop (Suc i) (inserted j i xs) = drop (Suc i) xs"
    using l unfolding inserted_def
    by (metis append.assoc append_eq_conv_conj)
  have "take (Suc i) xs = take j xs @ take (i - j) (drop j xs) @ [xs ! i]"
    using assms take_split [OF assms(1), of xs] by (simp add: take_Suc_conv_app_nth)
  then show "mset (take (Suc i) (inserted j i xs)) = mset (take (Suc i) xs)"
    unfolding t by simp
qed

lemma inserted_sorted:
  assumes "j \<le> i" "i < length xs" "sorted_wrt Q (take i xs)"
    and "\<forall>k<j. Q (xs ! k) (xs ! i)" "\<forall>k. j \<le> k \<and> k < i \<longrightarrow> Q (xs ! i) (xs ! k)"
  shows "sorted_wrt Q (take (Suc i) (inserted j i xs))"
proof -
  have s: "sorted_wrt Q (take j xs @ take (i - j) (drop j xs))"
    using assms(3) take_split [OF assms(1), of xs] by simp
  have a: "\<forall>x \<in> set (take j xs). Q x (xs ! i)"
    using assms(1,2,4) by (auto simp add: in_set_conv_nth)
  have b: "\<forall>x \<in> set (take (i - j) (drop j xs)). Q (xs ! i) x"
  proof
    fix x assume "x \<in> set (take (i - j) (drop j xs))"
    then obtain k where k: "k < i - j" "x = take (i - j) (drop j xs) ! k"
      by (auto simp add: in_set_conv_nth)
    then have "x = xs ! (j + k)" using assms(1,2) by simp
    then show "Q (xs ! i) x" using assms(5) k(1) by simp
  qed
  show ?thesis
    unfolding inserted_props(2) [OF assms(1,2)]
    using s a b by (auto simp add: sorted_wrt_append)
qed

lemma unguarded_linear_insert_result:
  fixes key :: "'a \<Rightarrow> nat"
  assumes C: "\<And>a b. cmp a b \<longleftrightarrow> key b < key a"
    and i: "i < length xs"
    and srt: "sorted_wrt (\<lambda>a b. key b \<le> key a) (take i xs)"
    and stop: "\<exists>k<i. key (xs ! i) \<le> key (xs ! k)"
  shows "\<exists>j\<le>i. unguarded_linear_insert cmp i xs = Some (inserted j i xs) \<and>
           (\<forall>k<j. key (xs ! i) \<le> key (xs ! k)) \<and>
           (\<forall>k. j \<le> k \<and> k < i \<longrightarrow> key (xs ! k) < key (xs ! i))"
proof -
  have "\<exists>k<i. \<not> cmp (xs ! i) (xs ! k)"
    using stop by (simp add: C not_less)
  from linear_insert_loop_result [of i xs cmp "xs ! i", OF i this] obtain j where j: "0 < j" "j \<le> i"
    "\<not> cmp (xs ! i) (xs ! (j - 1))" "\<forall>k. j \<le> k \<and> k < i \<longrightarrow> cmp (xs ! i) (xs ! k)"
    "linear_insert_loop cmp (xs ! i) i xs =
       Some (take j xs @ [xs ! i] @ take (i - j) (drop j xs) @ drop (Suc i) xs)"
    by blast
  have before: "\<forall>k<j. key (xs ! i) \<le> key (xs ! k)"
  proof (intro allI impI)
    fix k assume k: "k < j"
    have "key (xs ! i) \<le> key (xs ! (j - 1))"
      using j(3) by (simp add: C)
    moreover have "key (xs ! (j - 1)) \<le> key (xs ! k)"
    proof (cases "k = j - 1")
      case True
      then show ?thesis by simp
    next
      case False
      then have "k < j - 1" "j - 1 < length (take i xs)"
        using k j(1,2) i by simp_all
      from sorted_wrt_nth_less [OF srt this] show ?thesis
        using j(2) k by simp
    qed
    ultimately show "key (xs ! i) \<le> key (xs ! k)" by simp
  qed
  show ?thesis
    using j(2,4,5) before
    by (intro exI [of _ j]) (simp add: unguarded_linear_insert_def inserted_def C)
qed

lemma insertion_step_result:
  fixes key :: "'a \<Rightarrow> nat"
  assumes C: "\<And>a b. cmp a b \<longleftrightarrow> key b < key a"
    and i: "0 < i" "i < length xs"
    and srt: "sorted_wrt (\<lambda>a b. key b \<le> key a) (take i xs)"
  shows "\<exists>j\<le>i. insertion_step cmp 0 i xs = Some (inserted j i xs) \<and>
           (\<forall>k<j. key (xs ! i) \<le> key (xs ! k)) \<and>
           (\<forall>k. j \<le> k \<and> k < i \<longrightarrow> key (xs ! k) < key (xs ! i))"
proof (cases "cmp (xs ! i) (xs ! 0)")
  case True
  have "(move_backward 0 i xs)[0 := xs ! i] = inserted 0 i xs"
    using i by (cases xs) (simp_all add: move_backward_def inserted_def)
  moreover have "\<forall>k. k < i \<longrightarrow> key (xs ! k) < key (xs ! i)"
  proof (intro allI impI)
    fix k assume k: "k < i"
    have "key (xs ! k) \<le> key (xs ! 0)"
    proof (cases "k = 0")
      case False
      then have "0 < k" "k < length (take i xs)" using k i by simp_all
      from sorted_wrt_nth_less [OF srt this] show ?thesis using k by simp
    qed simp
    then show "key (xs ! k) < key (xs ! i)"
      using True by (simp add: C)
  qed
  ultimately show ?thesis
    using True by (intro exI [of _ 0]) (simp add: insertion_step_def)
next
  case False
  then have "\<exists>k<i. key (xs ! i) \<le> key (xs ! k)"
    using i(1) by (auto simp add: C not_less)
  from unguarded_linear_insert_result [of cmp key, OF C i(2) srt this]
  show ?thesis
    using False by (simp add: insertion_step_def)
qed

text \<open>A loop over a range of positions preserves what every iteration preserves.\<close>

lemma for_each_append:
  "for_each body (is @ js) xs =
     (case for_each body is xs of None \<Rightarrow> None | Some ys \<Rightarrow> for_each body js ys)"
  by (induction "is" arbitrary: xs) (auto split: option.splits)

lemma for_each_upt:
  assumes "a \<le> b" "Inv a xs"
    and "\<And>i ys. a \<le> i \<Longrightarrow> i < b \<Longrightarrow> Inv i ys \<Longrightarrow> \<exists>zs. body i ys = Some zs \<and> Inv (Suc i) zs"
  shows "\<exists>zs. for_each body [a..<b] xs = Some zs \<and> Inv b zs"
  using assms
proof (induction b)
  case 0
  then show ?case by simp
next
  case (Suc b)
  show ?case
  proof (cases "a = Suc b")
    case True
    then show ?thesis using Suc.prems(2) by simp
  next
    case False
    then have ab: "a \<le> b" using Suc.prems(1) by simp
    from Suc.IH [OF ab Suc.prems(2)] Suc.prems(3)
    obtain ys where ys: "for_each body [a..<b] xs = Some ys" "Inv b ys"
      by (metis less_Suc_eq)
    from Suc.prems(3) [OF ab _ ys(2)] obtain zs where "body b ys = Some zs" "Inv (Suc b) zs"
      by auto
    then show ?thesis
      using ab ys(1) by (simp add: for_each_append)
  qed
qed


lemma ins_inv_step:
  fixes key :: "'a \<Rightarrow> nat"
  assumes inv: "ins_inv Q xs i ys" and i: "i < length xs" and j: "j \<le> i"
    and before: "\<forall>k<j. key (ys ! i) \<le> key (ys ! k)"
    and after: "\<forall>k. j \<le> k \<and> k < i \<longrightarrow> key (ys ! k) < key (ys ! i)"
    and Qins: "\<forall>k<i. (key (xs ! i) \<le> key (xs ! k) \<longrightarrow> Q (xs ! k) (xs ! i)) \<and>
                     (key (xs ! k) < key (xs ! i) \<longrightarrow> Q (xs ! i) (xs ! k))"
  shows "ins_inv Q xs (Suc i) (inserted j i ys)"
proof -
  have len: "length ys = length xs" and dr: "drop i ys = drop i xs"
    and ms: "mset (take i ys) = mset (take i xs)" and srt: "sorted_wrt Q (take i ys)"
    using inv by (simp_all add: ins_inv_def)
  have iy: "i < length ys" using i len by simp
  have val: "ys ! i = xs ! i"
    using dr i iy by (metis Cons_nth_drop_Suc list.inject)
  have dr': "drop (Suc i) ys = drop (Suc i) xs"
    using dr by (metis drop_Suc tl_drop)
  have old: "\<And>k. k < i \<Longrightarrow> \<exists>k'<i. ys ! k = xs ! k'"
  proof -
    fix k assume k: "k < i"
    then have "ys ! k \<in> set (take i ys)"
      using iy by (auto simp add: in_set_conv_nth intro!: exI [of _ k])
    then have "ys ! k \<in> set (take i xs)"
      using ms by (metis set_mset_mset)
    then show "\<exists>k'<i. ys ! k = xs ! k'"
      by (auto simp add: in_set_conv_nth)
  qed
  have qb: "\<forall>k<j. Q (ys ! k) (ys ! i)"
  proof (intro allI impI)
    fix k assume k: "k < j"
    then obtain k' where "k' < i" "ys ! k = xs ! k'" using old j by (metis less_le_trans)
    then show "Q (ys ! k) (ys ! i)" using before k Qins val by auto
  qed
  have qa: "\<forall>k. j \<le> k \<and> k < i \<longrightarrow> Q (ys ! i) (ys ! k)"
  proof (intro allI impI)
    fix k assume k: "j \<le> k \<and> k < i"
    then obtain k' where "k' < i" "ys ! k = xs ! k'" using old by blast
    then show "Q (ys ! i) (ys ! k)" using after k Qins val by auto
  qed
  have "mset (take (Suc i) (inserted j i ys)) = mset (take (Suc i) xs)"
    using inserted_props(4) [OF j iy] ms val i iy by (simp add: take_Suc_conv_app_nth)
  moreover have "sorted_wrt Q (take (Suc i) (inserted j i ys))"
    using j iy srt qb qa by (rule inserted_sorted)
  ultimately show ?thesis
    using inserted_props(1,3) [OF j iy] len dr' by (simp add: ins_inv_def)
qed

lemma ins_inv_key:
  assumes "ins_inv Q xs i ys" "\<And>a b. Q a b \<Longrightarrow> key b \<le> key a"
  shows "sorted_wrt (\<lambda>a b. key b \<le> (key a :: nat)) (take i ys)"
  using assms by (auto simp add: ins_inv_def intro: sorted_wrt_mono_rel [of _ Q])

lemma insertion_sort_result:
  fixes key :: "'a \<Rightarrow> nat"
  assumes C: "\<And>a b. cmp a b \<longleftrightarrow> key b < key a"
    and n: "n \<le> length xs"
    and Qk: "\<And>a b. Q a b \<Longrightarrow> key b \<le> key a"
    and Qins: "\<forall>i<n. \<forall>k<i. (key (xs ! i) \<le> key (xs ! k) \<longrightarrow> Q (xs ! k) (xs ! i)) \<and>
                            (key (xs ! k) < key (xs ! i) \<longrightarrow> Q (xs ! i) (xs ! k))"
  shows "\<exists>ys. insertion_sort cmp 0 n xs = Some ys \<and> ins_inv Q xs n ys"
proof (cases "n = 0")
  case True
  then show ?thesis by (simp add: insertion_sort_def ins_inv_def)
next
  case False
  then have one: "1 \<le> n" by simp
  have start: "ins_inv Q xs 1 xs"
    by (cases xs) (simp_all add: ins_inv_def)
  have step: "\<exists>zs. insertion_step cmp 0 i ys = Some zs \<and> ins_inv Q xs (Suc i) zs"
    if "1 \<le> i" "i < n" "ins_inv Q xs i ys" for i ys
  proof -
    have i: "0 < i" "i < length ys" "i < length xs"
      using that n by (simp_all add: ins_inv_def)
    from insertion_step_result [of cmp key, OF C i(1,2) ins_inv_key [OF that(3) Qk]]
    obtain j where j: "j \<le> i" "insertion_step cmp 0 i ys = Some (inserted j i ys)"
      "\<forall>k<j. key (ys ! i) \<le> key (ys ! k)"
      "\<forall>k. j \<le> k \<and> k < i \<longrightarrow> key (ys ! k) < key (ys ! i)"
      by blast
    have "ins_inv Q xs (Suc i) (inserted j i ys)"
      using that(3) i(3) j(1,3,4) Qins that(2) by (intro ins_inv_step [where key = key]) auto
    then show ?thesis using j(2) by simp
  qed
  from for_each_upt [of 1 n "ins_inv Q xs" xs "insertion_step cmp 0", OF one start step]
  show ?thesis
    using False by (simp add: insertion_sort_def)
qed

lemma unguarded_insertion_sort_result:
  fixes key :: "'a \<Rightarrow> nat"
  assumes C: "\<And>a b. cmp a b \<longleftrightarrow> key b < key a"
    and n: "a \<le> n" "n \<le> length xs"
    and start: "ins_inv (\<lambda>a b. key b \<le> key a) xs a ys"
    and stop: "\<forall>i. a \<le> i \<and> i < n \<longrightarrow> (\<exists>k<i. key (xs ! i) \<le> key (xs ! k))"
  shows "\<exists>zs. unguarded_insertion_sort cmp a n ys = Some zs \<and>
           ins_inv (\<lambda>a b. key b \<le> key a) xs n zs"
proof -
  let ?Q = "\<lambda>a b. key b \<le> key a"
  have step: "\<exists>zs. unguarded_linear_insert cmp i ys = Some zs \<and> ins_inv ?Q xs (Suc i) zs"
    if h: "a \<le> i" "i < n" "ins_inv ?Q xs i ys" for i ys
  proof -
    have len: "length ys = length xs" and dr: "drop i ys = drop i xs"
      and ms: "mset (take i ys) = mset (take i xs)" and srt: "sorted_wrt ?Q (take i ys)"
      using h(3) by (simp_all add: ins_inv_def)
    have i: "i < length ys" "i < length xs" using h(2) n len by simp_all
    have val: "ys ! i = xs ! i"
      using dr i by (metis Cons_nth_drop_Suc list.inject)
    obtain k where k: "k < i" "key (xs ! i) \<le> key (xs ! k)"
      using stop h(1,2) by blast
    then have "xs ! k \<in> set (take i xs)"
      using i by (auto simp add: in_set_conv_nth intro!: exI [of _ k])
    then have "xs ! k \<in> set (take i ys)"
      using ms by (metis set_mset_mset)
    then obtain k' where "k' < i" "ys ! k' = xs ! k"
      by (auto simp add: in_set_conv_nth)
    then have "\<exists>k<i. key (ys ! i) \<le> key (ys ! k)"
      using k(2) val by auto
    from unguarded_linear_insert_result [of cmp key, OF C i(1) srt this]
    obtain j where j: "j \<le> i" "unguarded_linear_insert cmp i ys = Some (inserted j i ys)"
      "\<forall>k<j. key (ys ! i) \<le> key (ys ! k)"
      "\<forall>k. j \<le> k \<and> k < i \<longrightarrow> key (ys ! k) < key (ys ! i)"
      by blast
    have "ins_inv ?Q xs (Suc i) (inserted j i ys)"
      using h(3) i(2) j(1,3,4) by (intro ins_inv_step [where key = key]) auto
    then show ?thesis using j(2) by simp
  qed
  from for_each_upt [of a n "ins_inv ?Q xs" ys "unguarded_linear_insert cmp", OF n(1) start step]
  show ?thesis
    by (simp add: unguarded_insertion_sort_def)
qed

text \<open>
  The partition. Both scans stop inside the range as long as the range holds an element
  that is not before the pivot and one that is not after it; the median of three provides
  both at the start, and every exchange provides them for the next round.
\<close>

lemma swap_at_mset: "a < length xs \<Longrightarrow> b < length xs \<Longrightarrow> mset (swap_at a b xs) = mset xs"
  unfolding swap_at_def by (metis mset_swap)

lemma scan_up_result:
  fixes key :: "'a \<Rightarrow> nat"
  assumes C: "\<And>a b. cmp a b \<longleftrightarrow> key b < key a"
  shows "\<exists>k. f \<le> k \<and> k < length xs \<and> key (xs ! k) \<le> key (xs ! pv) \<Longrightarrow>
     \<exists>f'. scan_up cmp pv f xs = Some f' \<and> f \<le> f' \<and> f' < length xs \<and>
          key (xs ! f') \<le> key (xs ! pv) \<and>
          (\<forall>k. f \<le> k \<and> k < f' \<longrightarrow> key (xs ! pv) < key (xs ! k)) \<and>
          (\<forall>k. f \<le> k \<and> k < length xs \<and> key (xs ! k) \<le> key (xs ! pv) \<longrightarrow> f' \<le> k)"
  using C
proof (induction cmp pv f xs rule: scan_up.induct)
  case (1 cmp pivot first xs)
  note C = "1.prems"(2)
  obtain k where k: "first \<le> k" "k < length xs" "key (xs ! k) \<le> key (xs ! pivot)"
    using "1.prems"(1) by blast
  then have fl: "first < length xs" by simp
  show ?case
  proof (cases "cmp (xs ! first) (xs ! pivot)")
    case False
    then have "scan_up cmp pivot first xs = Some first"
      using fl by (simp add: scan_up.simps)
    moreover have "key (xs ! first) \<le> key (xs ! pivot)"
      using False by (simp add: C not_less)
    ultimately show ?thesis
      using fl by (intro exI [of _ first]) auto
  next
    case True
    then have "k \<noteq> first" using k(3) by (auto simp add: C)
    then have "\<exists>k. Suc first \<le> k \<and> k < length xs \<and> key (xs ! k) \<le> key (xs ! pivot)"
      using k by (intro exI [of _ k]) simp
    from "1.IH" [OF fl True this C] obtain f' where f': "scan_up cmp pivot (Suc first) xs = Some f'"
      "Suc first \<le> f'" "f' < length xs" "key (xs ! f') \<le> key (xs ! pivot)"
      "\<forall>k. Suc first \<le> k \<and> k < f' \<longrightarrow> key (xs ! pivot) < key (xs ! k)"
      "\<forall>k. Suc first \<le> k \<and> k < length xs \<and> key (xs ! k) \<le> key (xs ! pivot) \<longrightarrow> f' \<le> k"
      by blast
    have "scan_up cmp pivot first xs = Some f'"
      using fl True f'(1) by (simp add: scan_up.simps)
    moreover have "\<forall>k. first \<le> k \<and> k < f' \<longrightarrow> key (xs ! pivot) < key (xs ! k)"
      using f'(5) True by (metis C Suc_leI le_neq_implies_less)
    moreover have "\<forall>k. first \<le> k \<and> k < length xs \<and> key (xs ! k) \<le> key (xs ! pivot) \<longrightarrow> f' \<le> k"
      using f'(6) True by (metis C Suc_leI le_neq_implies_less not_less)
    ultimately show ?thesis
      using f'(2,3,4) by (intro exI [of _ f']) simp
  qed
qed

lemma scan_down_result:
  fixes key :: "'a \<Rightarrow> nat"
  assumes C: "\<And>a b. cmp a b \<longleftrightarrow> key b < key a"
  shows "\<exists>k\<le>l. key (xs ! pv) \<le> key (xs ! k) \<Longrightarrow>
     \<exists>l'. scan_down cmp pv l xs = Some l' \<and> l' \<le> l \<and> key (xs ! pv) \<le> key (xs ! l') \<and>
          (\<forall>k. l' < k \<and> k \<le> l \<longrightarrow> key (xs ! k) < key (xs ! pv)) \<and>
          (\<forall>k\<le>l. key (xs ! pv) \<le> key (xs ! k) \<longrightarrow> k \<le> l')"
proof (induction l)
  case 0
  then have "\<not> cmp (xs ! pv) (xs ! 0)" by (simp add: C not_less)
  then show ?case using 0 by auto
next
  case (Suc l)
  show ?case
  proof (cases "cmp (xs ! pv) (xs ! Suc l)")
    case False
    then have "key (xs ! pv) \<le> key (xs ! Suc l)" by (simp add: C not_less)
    then show ?thesis
      using False by (intro exI [of _ "Suc l"]) auto
  next
    case True
    obtain k where k: "k \<le> Suc l" "key (xs ! pv) \<le> key (xs ! k)"
      using Suc.prems by blast
    then have "k \<noteq> Suc l" using True by (auto simp add: C)
    then have "\<exists>k\<le>l. key (xs ! pv) \<le> key (xs ! k)"
      using k by (intro exI [of _ k]) simp
    from Suc.IH [OF this] obtain l' where l': "scan_down cmp pv l xs = Some l'" "l' \<le> l"
      "key (xs ! pv) \<le> key (xs ! l')"
      "\<forall>k. l' < k \<and> k \<le> l \<longrightarrow> key (xs ! k) < key (xs ! pv)"
      "\<forall>k\<le>l. key (xs ! pv) \<le> key (xs ! k) \<longrightarrow> k \<le> l'"
      by blast
    have "\<forall>k. l' < k \<and> k \<le> Suc l \<longrightarrow> key (xs ! k) < key (xs ! pv)"
      using l'(4) True by (metis C le_SucE)
    moreover have "\<forall>k\<le>Suc l. key (xs ! pv) \<le> key (xs ! k) \<longrightarrow> k \<le> l'"
      using l'(5) True by (metis C le_SucE not_less)
    ultimately show ?thesis
      using True l'(1,2,3) by (intro exI [of _ l']) simp
  qed
qed


lemma unguarded_partition_result:
  fixes key :: "'a \<Rightarrow> nat"
  assumes C: "\<And>a b. cmp a b \<longleftrightarrow> key b < key a"
  shows "pv < F0 \<Longrightarrow> F0 \<le> f \<Longrightarrow> lim \<le> L \<Longrightarrow> L \<le> length xs \<Longrightarrow>
     \<forall>k. F0 \<le> k \<and> k < f \<longrightarrow> key (xs ! pv) \<le> key (xs ! k) \<Longrightarrow>
     \<forall>k. lim \<le> k \<and> k < L \<longrightarrow> key (xs ! k) \<le> key (xs ! pv) \<Longrightarrow>
     \<exists>k. f \<le> k \<and> k < L \<and> key (xs ! k) \<le> key (xs ! pv) \<Longrightarrow>
     \<exists>k. F0 \<le> k \<and> k < lim \<and> key (xs ! pv) \<le> key (xs ! k) \<Longrightarrow>
     \<exists>cut' ys. unguarded_partition cmp f lim pv xs = Some (cut', ys) \<and> F0 \<le> cut' \<and> cut' < L \<and>
        length ys = length xs \<and> mset ys = mset xs \<and>
        (\<forall>k. k < F0 \<or> L \<le> k \<longrightarrow> ys ! k = xs ! k) \<and>
        (\<forall>k. F0 \<le> k \<and> k < cut' \<longrightarrow> key (ys ! pv) \<le> key (ys ! k)) \<and>
        (\<forall>k. cut' \<le> k \<and> k < L \<longrightarrow> key (ys ! k) \<le> key (ys ! pv))"
proof (induction lim arbitrary: f xs rule: less_induct)
  case (less lim)
  note pv = less.prems(1) and f = less.prems(2) and lim = less.prems(3) and L = less.prems(4)
    and left = less.prems(5) and right = less.prems(6)
  obtain ku where ku: "f \<le> ku" "ku < L" "key (xs ! ku) \<le> key (xs ! pv)"
    using less.prems(7) by blast
  obtain kd where kd: "F0 \<le> kd" "kd < lim" "key (xs ! pv) \<le> key (xs ! kd)"
    using less.prems(8) by blast
  have "\<exists>k. f \<le> k \<and> k < length xs \<and> key (xs ! k) \<le> key (xs ! pv)"
    using ku L by (intro exI [of _ ku]) simp
  from scan_up_result [of cmp key, OF C this]
  obtain f' where f': "scan_up cmp pv f xs = Some f'" "f \<le> f'" "f' < length xs"
    "key (xs ! f') \<le> key (xs ! pv)"
    "\<forall>k. f \<le> k \<and> k < f' \<longrightarrow> key (xs ! pv) < key (xs ! k)"
    "\<forall>k. f \<le> k \<and> k < length xs \<and> key (xs ! k) \<le> key (xs ! pv) \<longrightarrow> f' \<le> k"
    by blast
  have f'L: "f' < L" using f'(6) ku L by (metis le_less_trans less_le_trans)
  obtain l0 where l0: "lim = Suc l0" using kd(2) by (cases lim) simp_all
  have "\<exists>k\<le>l0. key (xs ! pv) \<le> key (xs ! k)"
    using kd l0 by (intro exI [of _ kd]) simp
  from scan_down_result [of cmp key, OF C this]
  obtain l' where l': "scan_down cmp pv l0 xs = Some l'" "l' \<le> l0"
    "key (xs ! pv) \<le> key (xs ! l')"
    "\<forall>k. l' < k \<and> k \<le> l0 \<longrightarrow> key (xs ! k) < key (xs ! pv)"
    "\<forall>k\<le>l0. key (xs ! pv) \<le> key (xs ! k) \<longrightarrow> k \<le> l'"
    by blast
  have l'F: "F0 \<le> l'" using l'(5) kd l0 by (metis le_trans less_Suc_eq_le)
  have l'L: "l' < L" using l'(2) l0 lim by simp
  have eq: "unguarded_partition cmp f lim pv xs =
      (if \<not> f' < l' then Some (f', xs)
       else unguarded_partition cmp (Suc f') l' pv (swap_at f' l' xs))"
    by (subst unguarded_partition.simps) (simp add: f'(1) l0 l'(1))
  show ?case
  proof (cases "f' < l'")
    case False
    have a: "\<forall>k. F0 \<le> k \<and> k < f' \<longrightarrow> key (xs ! pv) \<le> key (xs ! k)"
      using left f'(5) by (metis le_less_linear less_imp_le)
    have b: "\<forall>k. f' \<le> k \<and> k < L \<longrightarrow> key (xs ! k) \<le> key (xs ! pv)"
    proof (intro allI impI)
      fix k assume k: "f' \<le> k \<and> k < L"
      show "key (xs ! k) \<le> key (xs ! pv)"
      proof (cases "lim \<le> k")
        case True
        then show ?thesis using right k by simp
      next
        case nl: False
        then have kl: "k \<le> l0" using l0 by simp
        show ?thesis
        proof (cases "l' < k")
          case True
          then show ?thesis using l'(4) kl by (simp add: less_imp_le)
        next
          case False
          then have "k = f'" using k \<open>\<not> f' < l'\<close> by simp
          then show ?thesis using f'(4) by simp
        qed
      qed
    qed
    have "F0 \<le> f'" using f f'(2) by simp
    then show ?thesis
      unfolding eq using False f'L a b by simp
  next
    case True
    let ?xs = "swap_at f' l' xs"
    have ll: "l' < length xs" using l'L L by simp
    have nth: "\<And>x. ?xs ! x = (if x = l' then xs ! f' else if x = f' then xs ! l' else xs ! x)"
      using f'(3) ll by (simp add: swap_at_nth)
    have pvn: "pv \<noteq> f'" "pv \<noteq> l'" using pv f f'(2) l'F by simp_all
    have p1: "F0 \<le> Suc f'" using f f'(2) by simp
    have p2: "l' \<le> L" using l'L by simp
    have p3: "L \<le> length ?xs" using L by (simp add: swap_at_length)
    have p4: "\<forall>k. F0 \<le> k \<and> k < Suc f' \<longrightarrow> key (?xs ! pv) \<le> key (?xs ! k)"
    proof (intro allI impI)
      fix k assume k: "F0 \<le> k \<and> k < Suc f'"
      have kl: "k \<noteq> l'" using k True by simp
      show "key (?xs ! pv) \<le> key (?xs ! k)"
      proof (cases "k = f'")
        case True
        then show ?thesis using l'(3) pvn kl by (simp add: nth)
      next
        case False
        then have "k < f'" using k by simp
        then have "key (xs ! pv) \<le> key (xs ! k)"
          using left f'(5) k by (metis le_less_linear less_imp_le)
        then show ?thesis using False kl pvn by (simp add: nth)
      qed
    qed
    have p5: "\<forall>k. l' \<le> k \<and> k < L \<longrightarrow> key (?xs ! k) \<le> key (?xs ! pv)"
    proof (intro allI impI)
      fix k assume k: "l' \<le> k \<and> k < L"
      have kf: "k \<noteq> f'" using k True by simp
      show "key (?xs ! k) \<le> key (?xs ! pv)"
      proof (cases "k = l'")
        case True
        then show ?thesis using f'(4) pvn by (simp add: nth)
      next
        case False
        then have lk: "l' < k" using k by simp
        have "key (xs ! k) \<le> key (xs ! pv)"
        proof (cases "lim \<le> k")
          case True
          then show ?thesis using right k by simp
        next
          case False
          then have "k \<le> l0" using l0 by simp
          then show ?thesis using l'(4) lk by (simp add: less_imp_le)
        qed
        then show ?thesis using False kf pvn by (simp add: nth)
      qed
    qed
    have p6: "\<exists>k. Suc f' \<le> k \<and> k < L \<and> key (?xs ! k) \<le> key (?xs ! pv)"
      using True l'L f'(4) pvn by (intro exI [of _ l']) (simp add: nth)
    have p7: "\<exists>k. F0 \<le> k \<and> k < l' \<and> key (?xs ! pv) \<le> key (?xs ! k)"
      using True f f'(2) l'(3) pvn by (intro exI [of _ f']) (simp add: nth)
    have dec: "l' < lim" using l'(2) l0 by simp
    from less.IH [OF dec pv p1 p2 p3 p4 p5 p6 p7]
    obtain c ys where r: "unguarded_partition cmp (Suc f') l' pv ?xs = Some (c, ys)"
      "F0 \<le> c" "c < L" "length ys = length ?xs" "mset ys = mset ?xs"
      "\<forall>k. k < F0 \<or> L \<le> k \<longrightarrow> ys ! k = ?xs ! k"
      "\<forall>k. F0 \<le> k \<and> k < c \<longrightarrow> key (ys ! pv) \<le> key (ys ! k)"
      "\<forall>k. c \<le> k \<and> k < L \<longrightarrow> key (ys ! k) \<le> key (ys ! pv)"
      by blast
    have out: "\<forall>k. k < F0 \<or> L \<le> k \<longrightarrow> ys ! k = xs ! k"
    proof (intro allI impI)
      fix k assume k: "k < F0 \<or> L \<le> k"
      then have "k \<noteq> f'" "k \<noteq> l'" using f f'(2) f'L l'F l'L by auto
      then have "?xs ! k = xs ! k" by (simp add: nth)
      then show "ys ! k = xs ! k" using r(6) k by metis
    qed
    have "mset ys = mset xs"
      using r(5) f'(3) ll by (simp add: swap_at_mset)
    then show ?thesis
      unfolding eq using True r(1,2,3,4,7,8) out by (simp add: swap_at_length)
  qed
qed


lemma move_median_to_first_result:
  fixes key :: "'a \<Rightarrow> nat"
  assumes C: "\<And>a b. cmp a b \<longleftrightarrow> key b < key a"
  shows "\<exists>m k1 k2. {m, k1, k2} = {a, b, c} \<and>
           move_median_to_first cmp result a b c xs = swap_at result m xs \<and>
           key (xs ! k1) \<le> key (xs ! m) \<and> key (xs ! m) \<le> key (xs ! k2)"
proof -
  let ?ka = "key (xs ! a)" and ?kb = "key (xs ! b)" and ?kc = "key (xs ! c)"
  consider (b1) "?kb < ?ka" "?kc < ?kb" | (c1) "?kb < ?ka" "\<not> ?kc < ?kb" "?kc < ?ka"
    | (a1) "?kb < ?ka" "\<not> ?kc < ?kb" "\<not> ?kc < ?ka" | (a2) "\<not> ?kb < ?ka" "?kc < ?ka"
    | (c2) "\<not> ?kb < ?ka" "\<not> ?kc < ?ka" "?kc < ?kb"
    | (b2) "\<not> ?kb < ?ka" "\<not> ?kc < ?ka" "\<not> ?kc < ?kb"
    by blast
  then show ?thesis
  proof cases
    case b1
    then have "move_median_to_first cmp result a b c xs = swap_at result b xs"
      by (simp add: move_median_to_first_def C)
    then show ?thesis using b1 by (intro exI [of _ b] exI [of _ c] exI [of _ a]) auto
  next
    case c1
    then have "move_median_to_first cmp result a b c xs = swap_at result c xs"
      by (simp add: move_median_to_first_def C)
    then show ?thesis using c1 by (intro exI [of _ c] exI [of _ b] exI [of _ a]) auto
  next
    case a1
    then have "move_median_to_first cmp result a b c xs = swap_at result a xs"
      by (simp add: move_median_to_first_def C)
    then show ?thesis using a1 by (intro exI [of _ a] exI [of _ b] exI [of _ c]) auto
  next
    case a2
    then have "move_median_to_first cmp result a b c xs = swap_at result a xs"
      by (simp add: move_median_to_first_def C)
    then show ?thesis using a2 by (intro exI [of _ a] exI [of _ c] exI [of _ b]) auto
  next
    case c2
    then have "move_median_to_first cmp result a b c xs = swap_at result c xs"
      by (simp add: move_median_to_first_def C)
    then show ?thesis using c2 by (intro exI [of _ c] exI [of _ a] exI [of _ b]) auto
  next
    case b2
    then have "move_median_to_first cmp result a b c xs = swap_at result b xs"
      by (simp add: move_median_to_first_def C)
    then show ?thesis using b2 by (intro exI [of _ b] exI [of _ a] exI [of _ c]) auto
  qed
qed

lemma unguarded_partition_pivot_result:
  fixes key :: "'a \<Rightarrow> nat"
  assumes C: "\<And>a b. cmp a b \<longleftrightarrow> key b < key a"
    and big: "first + 4 \<le> lim" and lim: "lim \<le> length xs"
  shows "\<exists>cut' ys. unguarded_partition_pivot cmp first lim xs = Some (cut', ys) \<and>
           first < cut' \<and> cut' < lim \<and> length ys = length xs \<and> mset ys = mset xs \<and>
           (\<forall>k. k < first \<or> lim \<le> k \<longrightarrow> ys ! k = xs ! k) \<and>
           (\<forall>l r. first \<le> l \<and> l < cut' \<and> cut' \<le> r \<and> r < lim \<longrightarrow> key (ys ! r) \<le> key (ys ! l))"
proof -
  let ?a = "first + 1" and ?b = "first + (lim - first) div 2" and ?c = "lim - 1"
  define zs where "zs = move_median_to_first cmp first ?a ?b ?c xs"
  have d: "?a < ?b" "?b < ?c" "?c < lim" using big by presburger+
  from move_median_to_first_result [of cmp key ?a ?b ?c first xs, OF C]
  obtain m k1 k2 where m: "{m, k1, k2} = {?a, ?b, ?c}" "zs = swap_at first m xs"
    "key (xs ! k1) \<le> key (xs ! m)" "key (xs ! m) \<le> key (xs ! k2)"
    unfolding zs_def by blast
  have card: "card {m, k1, k2} = 3"
    unfolding m(1) using d by simp
  have dist: "m \<noteq> k1" "m \<noteq> k2"
    using card by (auto simp add: card_insert_if split: if_splits)
  have mem: "m \<in> {?a, ?b, ?c}" "k1 \<in> {?a, ?b, ?c}" "k2 \<in> {?a, ?b, ?c}"
    using m(1) by auto
  have inr: "first < x \<and> x < lim" if mx: "x \<in> {?a, ?b, ?c}" for x
  proof -
    consider "x = ?a" | "x = ?b" | "x = ?c" using mx by blast
    then show ?thesis
    proof cases
      case 1
      then show ?thesis using d by linarith
    next
      case 2
      then show ?thesis using d by linarith
    next
      case 3
      then show ?thesis using d by linarith
    qed
  qed
  have rng: "first < m" "m < lim" "first < k1" "k1 < lim" "first < k2" "k2 < lim"
    using inr [OF mem(1)] inr [OF mem(2)] inr [OF mem(3)] by simp_all
  have fl: "first < length xs" "m < length xs" using rng lim by simp_all
  have nth: "\<And>x. zs ! x = (if x = m then xs ! first else if x = first then xs ! m else xs ! x)"
    unfolding m(2) using fl by (simp add: swap_at_nth)
  have len: "length zs = length xs" unfolding m(2) by (simp add: swap_at_length)
  have ms: "mset zs = mset xs" unfolding m(2) using fl by (simp add: swap_at_mset)
  have p7: "\<exists>k. first + 1 \<le> k \<and> k < lim \<and> key (zs ! k) \<le> key (zs ! first)"
    using rng dist m(3) by (intro exI [of _ k1]) (simp add: nth)
  have p8: "\<exists>k. first + 1 \<le> k \<and> k < lim \<and> key (zs ! first) \<le> key (zs ! k)"
    using rng dist m(4) by (intro exI [of _ k2]) (simp add: nth)
  have p5: "\<forall>k. first + 1 \<le> k \<and> k < first + 1 \<longrightarrow> key (zs ! first) \<le> key (zs ! k)"
    by simp
  have p6: "\<forall>k. lim \<le> k \<and> k < lim \<longrightarrow> key (zs ! k) \<le> key (zs ! first)"
    by simp
  have p4: "lim \<le> length zs" using lim len by simp
  from unguarded_partition_result [of cmp key first "first + 1" "first + 1" lim lim zs,
      OF C _ _ _ p4 p5 p6 p7 p8]
  obtain c ys where r: "unguarded_partition cmp (first + 1) lim first zs = Some (c, ys)"
    "first + 1 \<le> c" "c < lim" "length ys = length zs" "mset ys = mset zs"
    "\<forall>k. k < first + 1 \<or> lim \<le> k \<longrightarrow> ys ! k = zs ! k"
    "\<forall>k. first + 1 \<le> k \<and> k < c \<longrightarrow> key (ys ! first) \<le> key (ys ! k)"
    "\<forall>k. c \<le> k \<and> k < lim \<longrightarrow> key (ys ! k) \<le> key (ys ! first)"
    by auto
  have out: "\<forall>k. k < first \<or> lim \<le> k \<longrightarrow> ys ! k = xs ! k"
  proof (intro allI impI)
    fix k assume k: "k < first \<or> lim \<le> k"
    then have "k \<noteq> m" "k \<noteq> first" using rng by auto
    then have "zs ! k = xs ! k" by (simp add: nth)
    moreover have "ys ! k = zs ! k" using r(6) k by auto
    ultimately show "ys ! k = xs ! k" by simp
  qed
  have part: "\<forall>l r. first \<le> l \<and> l < c \<and> c \<le> r \<and> r < lim \<longrightarrow> key (ys ! r) \<le> key (ys ! l)"
  proof (intro allI impI)
    fix l r' assume h: "first \<le> l \<and> l < c \<and> c \<le> r' \<and> r' < lim"
    have "key (ys ! first) \<le> key (ys ! l)"
      using r(7) h by (cases "l = first") auto
    moreover have "key (ys ! r') \<le> key (ys ! first)" using r(8) h by simp
    ultimately show "key (ys ! r') \<le> key (ys ! l)" by simp
  qed
  have "unguarded_partition_pivot cmp first lim xs = Some (c, ys)"
    using r(1) by (simp add: unguarded_partition_pivot_def Let_def zs_def)
  then show ?thesis
    using r(2,3,4,5) len ms out part by (intro exI [of _ c] exI [of _ ys]) simp
qed

text \<open>The heap sort that takes over when the depth limit is used up.\<close>

lemma is_desc_le: "is_desc tp h \<Longrightarrow> tp \<le> h"
  by (induction rule: is_desc.induct) auto

lemma is_desc_parent: "is_desc tp h \<Longrightarrow> h \<noteq> tp \<Longrightarrow> is_desc tp ((h - 1) div 2) \<and> 0 < h"
  by (cases rule: is_desc.cases) auto

lemma hole_move:
  assumes "a < length xs" "b < length xs"
  shows "mset (xs[a := xs ! b, b := v]) = mset (xs[a := v])"
proof (cases "a = b")
  case True
  then show ?thesis by simp
next
  case False
  let ?zs = "xs[a := v]"
  have "xs[a := xs ! b, b := v] = ?zs[a := ?zs ! b, b := ?zs ! a]"
    using False assms by simp
  moreover have "mset (?zs[a := ?zs ! b, b := ?zs ! a]) = mset ?zs"
    using assms by (metis length_list_update mset_swap)
  ultimately show ?thesis by simp
qed

lemma hole_down:
  fixes key :: "'a \<Rightarrow> nat"
  assumes inv: "hole_inv key first tp n h xs" and bound: "first + n \<le> length xs"
    and c: "0 < c" "c < n" "(c - 1) div 2 = h"
    and least: "\<forall>i. 0 < i \<and> i < n \<and> (i - 1) div 2 = h \<longrightarrow> key (xs ! (first + c)) \<le> key (xs ! (first + i))"
  shows "hole_inv key first tp n c (xs[first + h := xs ! (first + c)])"
proof -
  let ?xs = "xs[first + h := xs ! (first + c)]"
  have h: "h < n" "is_desc tp h"
    and pairs: "\<And>i. 0 < i \<Longrightarrow> i < n \<Longrightarrow> tp \<le> (i - 1) div 2 \<Longrightarrow> i \<noteq> h \<Longrightarrow> (i - 1) div 2 \<noteq> h \<Longrightarrow>
        key (xs ! (first + (i - 1) div 2)) \<le> key (xs ! (first + i))"
    and grand: "\<And>d. h \<noteq> tp \<Longrightarrow> 0 < d \<Longrightarrow> d < n \<Longrightarrow> (d - 1) div 2 = h \<Longrightarrow>
        key (xs ! (first + (h - 1) div 2)) \<le> key (xs ! (first + d))"
    using inv by (auto simp add: hole_inv_def)
  have hc: "h < c" using c(1,3) by linarith
  have tp: "tp \<le> h" using h(2) by (rule is_desc_le)
  have nth: "\<And>j. ?xs ! (first + j) = (if j = h then xs ! (first + c) else xs ! (first + j))"
    using h(1) bound by (simp add: nth_list_update)
  have d: "is_desc tp c" using h(2) c(1,3) by (rule is_desc_child)
  have p: "key (?xs ! (first + (i - 1) div 2)) \<le> key (?xs ! (first + i))"
    if i: "0 < i" "i < n" "tp \<le> (i - 1) div 2" "i \<noteq> c" "(i - 1) div 2 \<noteq> c" for i
  proof (cases "i = h")
    case True
    then have ht: "h \<noteq> tp" using i(1,3) by linarith
    have "(h - 1) div 2 \<noteq> h" using True i(1) by linarith
    then show ?thesis
      using True grand [OF ht c] by (simp add: nth)
  next
    case False
    show ?thesis
    proof (cases "(i - 1) div 2 = h")
      case True
      then show ?thesis using least i(1,2) False by (simp add: nth)
    next
      case nh: False
      then show ?thesis using pairs [OF i(1,2,3) False nh] False by (simp add: nth)
    qed
  qed
  have g: "key (?xs ! (first + (c - 1) div 2)) \<le> key (?xs ! (first + d))"
    if dd: "0 < d" "d < n" "(d - 1) div 2 = c" for d
  proof -
    have "c < d" using dd(1,3) by linarith
    then have dh: "d \<noteq> h" "(d - 1) div 2 \<noteq> h" "tp \<le> (d - 1) div 2"
      using hc dd(3) tp by simp_all
    have "key (xs ! (first + c)) \<le> key (xs ! (first + d))"
      using pairs [OF dd(1,2) dh(3) dh(1) dh(2)] dd(3) by simp
    then show ?thesis using dh(1) c(3) by (simp add: nth)
  qed
  show ?thesis
    unfolding hole_inv_def using c(2) d p g by blast
qed


lemma children: "0 < (i :: nat) \<Longrightarrow> (i - 1) div 2 = h \<Longrightarrow> i = 2 * h + 1 \<or> i = 2 * h + 2"
  by presburger

lemma adjust_heap_loop_result:
  fixes key :: "'a \<Rightarrow> nat"
  assumes C: "\<And>a b. cmp a b \<longleftrightarrow> key b < key a"
  shows "hole_inv key first tp n h xs \<Longrightarrow> first + n \<le> length xs \<Longrightarrow>
     \<exists>h' ys. adjust_heap_loop cmp first n h h xs = (h', h', ys) \<and> \<not> h' < (n - 1) div 2 \<and>
        hole_inv key first tp n h' ys \<and> length ys = length xs \<and>
        (\<forall>v. mset (ys[first + h' := v]) = mset (xs[first + h := v])) \<and>
        (\<forall>k. k < first \<or> first + n \<le> k \<longrightarrow> ys ! k = xs ! k)"
proof (induction "n - h" arbitrary: h xs rule: less_induct)
  case less
  note inv = less.prems(1) and bound = less.prems(2)
  show ?case
  proof (cases "h < (n - 1) div 2")
    case False
    then have "adjust_heap_loop cmp first n h h xs = (h, h, xs)"
      by (subst adjust_heap_loop.simps) simp
    then show ?thesis using False inv by simp
  next
    case True
    let ?r = "2 * (h + 1)"
    define c where "c = (if cmp (xs ! (first + ?r)) (xs ! (first + (?r - 1))) then ?r - 1 else ?r)"
    let ?xs = "xs[first + h := xs ! (first + c)]"
    have rn: "?r < n" using True by presburger
    have eq: "adjust_heap_loop cmp first n h h xs = adjust_heap_loop cmp first n c c ?xs"
      using True by (subst adjust_heap_loop.simps) (simp add: Let_def c_def)
    have cc: "c = ?r - 1 \<or> c = ?r" by (simp add: c_def)
    then have c: "0 < c" "c < n" "(c - 1) div 2 = h" "h < c"
      using rn by auto
    have kc: "key (xs ! (first + c)) \<le> key (xs ! (first + (?r - 1)))"
      "key (xs ! (first + c)) \<le> key (xs ! (first + ?r))"
      using C [of "xs ! (first + ?r)" "xs ! (first + (?r - 1))"] by (auto simp add: c_def)
    have least: "\<forall>i. 0 < i \<and> i < n \<and> (i - 1) div 2 = h \<longrightarrow>
        key (xs ! (first + c)) \<le> key (xs ! (first + i))"
    proof (intro allI impI)
      fix i assume "0 < i \<and> i < n \<and> (i - 1) div 2 = h"
      then have "i = 2 * h + 1 \<or> i = 2 * h + 2" using children by blast
      then show "key (xs ! (first + c)) \<le> key (xs ! (first + i))"
        using kc by auto
    qed
    have inv': "hole_inv key first tp n c ?xs"
      using inv bound c(1,2,3) least by (rule hole_down)
    have dec: "n - c < n - h" using c(2,4) by simp
    have bound': "first + n \<le> length ?xs" using bound by simp
    from less.hyps [OF dec inv' bound']
    obtain h' ys where r: "adjust_heap_loop cmp first n c c ?xs = (h', h', ys)"
      "\<not> h' < (n - 1) div 2" "hole_inv key first tp n h' ys" "length ys = length ?xs"
      "\<forall>v. mset (ys[first + h' := v]) = mset (?xs[first + c := v])"
      "\<forall>k. k < first \<or> first + n \<le> k \<longrightarrow> ys ! k = ?xs ! k"
      by blast
    have hn: "h < n" using c(2,4) by simp
    have ms: "\<forall>v. mset (ys[first + h' := v]) = mset (xs[first + h := v])"
    proof
      fix v
      have "mset (?xs[first + c := v]) = mset (xs[first + h := v])"
        using hn c(2) bound by (intro hole_move) simp_all
      then show "mset (ys[first + h' := v]) = mset (xs[first + h := v])"
        using r(5) by simp
    qed
    have out: "\<forall>k. k < first \<or> first + n \<le> k \<longrightarrow> ys ! k = xs ! k"
    proof (intro allI impI)
      fix k assume k: "k < first \<or> first + n \<le> k"
      then have "k \<noteq> first + h" using hn by auto
      then have "?xs ! k = xs ! k" by simp
      then show "ys ! k = xs ! k" using r(6) k by metis
    qed
    show ?thesis
      unfolding eq using r(1,2,3,4) ms out by simp
  qed
qed


lemma push_heap_result:
  fixes key :: "'a \<Rightarrow> nat"
  assumes C: "\<And>a b. cmp a b \<longleftrightarrow> key b < key a"
  shows "hole_inv key first tp n h xs \<Longrightarrow>
     \<forall>c. 0 < c \<and> c < n \<and> (c - 1) div 2 = h \<longrightarrow> key v \<le> key (xs ! (first + c)) \<Longrightarrow>
     first + n \<le> length xs \<Longrightarrow>
     heap_from key first tp n (push_heap cmp first h tp v xs) \<and>
     length (push_heap cmp first h tp v xs) = length xs \<and>
     mset (push_heap cmp first h tp v xs) = mset (xs[first + h := v]) \<and>
     (\<forall>k. k < first \<or> first + n \<le> k \<longrightarrow> push_heap cmp first h tp v xs ! k = xs ! k)"
proof (induction h arbitrary: xs rule: less_induct)
  case (less h)
  note inv = less.prems(1) and below = less.prems(2) and bound = less.prems(3)
  let ?p = "(h - 1) div 2"
  have h: "h < n" "is_desc tp h"
    and pairs: "\<And>i. 0 < i \<Longrightarrow> i < n \<Longrightarrow> tp \<le> (i - 1) div 2 \<Longrightarrow> i \<noteq> h \<Longrightarrow> (i - 1) div 2 \<noteq> h \<Longrightarrow>
        key (xs ! (first + (i - 1) div 2)) \<le> key (xs ! (first + i))"
    and grand: "\<And>d. h \<noteq> tp \<Longrightarrow> 0 < d \<Longrightarrow> d < n \<Longrightarrow> (d - 1) div 2 = h \<Longrightarrow>
        key (xs ! (first + (h - 1) div 2)) \<le> key (xs ! (first + d))"
    using inv by (auto simp add: hole_inv_def)
  have tph: "tp \<le> h" using h(2) by (rule is_desc_le)
  show ?case
  proof (cases "h > tp \<and> cmp (xs ! (first + ?p)) v")
    case False
    let ?ys = "xs[first + h := v]"
    have eq: "push_heap cmp first h tp v xs = ?ys"
      using False by (subst push_heap.simps) (auto simp add: Let_def)
    have nth: "\<And>j. ?ys ! (first + j) = (if j = h then v else xs ! (first + j))"
      using h(1) bound by (simp add: nth_list_update)
    have "key (?ys ! (first + (i - 1) div 2)) \<le> key (?ys ! (first + i))"
      if i: "0 < i" "i < n" "tp \<le> (i - 1) div 2" for i
    proof (cases "i = h")
      case True
      then have ht: "tp < h" using i(1,3) by linarith
      then have "\<not> cmp (xs ! (first + ?p)) v" using False by simp
      then have "key (xs ! (first + ?p)) \<le> key v" by (simp add: C not_less)
      moreover have "?p \<noteq> h" using ht by linarith
      ultimately show ?thesis using True by (simp add: nth)
    next
      case nh: False
      show ?thesis
      proof (cases "(i - 1) div 2 = h")
        case True
        then show ?thesis using below i(1,2) nh by (simp add: nth)
      next
        case False
        then show ?thesis using pairs [OF i nh False] nh by (simp add: nth)
      qed
    qed
    then have "heap_from key first tp n ?ys"
      by (simp add: heap_from_def)
    moreover have "\<forall>k. k < first \<or> first + n \<le> k \<longrightarrow> ?ys ! k = xs ! k"
      using h(1) by auto
    ultimately show ?thesis
      unfolding eq by simp
  next
    case True
    define p where "p = (h - 1) div 2"
    define xs' where "xs' = xs[first + h := xs ! (first + p)]"
    have ht: "tp < h" "h \<noteq> tp" using True by simp_all
    have pv: "key v < key (xs ! (first + p))" using True by (simp add: C p_def)
    have ph: "p < h" unfolding p_def using ht(1) by linarith
    have dp: "is_desc tp p" unfolding p_def using is_desc_parent [OF h(2) ht(2)] by simp
    have tpp: "tp \<le> p" using dp by (rule is_desc_le)
    have eq: "push_heap cmp first h tp v xs = push_heap cmp first p tp v xs'"
      using True by (subst push_heap.simps) (simp add: Let_def p_def xs'_def)
    have nth: "\<And>j. xs' ! (first + j) = (if j = h then xs ! (first + p) else xs ! (first + j))"
      unfolding xs'_def using h(1) bound by (simp add: nth_list_update)
    have grand': "\<And>d. 0 < d \<Longrightarrow> d < n \<Longrightarrow> (d - 1) div 2 = h \<Longrightarrow>
        key (xs ! (first + p)) \<le> key (xs ! (first + d))"
      unfolding p_def using grand [OF ht(2)] by simp
    have sib: "key (xs ! (first + p)) \<le> key (xs ! (first + d))"
      if d: "0 < d" "d < n" "(d - 1) div 2 = p" "d \<noteq> h" for d
    proof -
      have "(d - 1) div 2 \<noteq> h" using d(3) ph by simp
      from pairs [OF d(1,2) _ d(4) this] tpp d(3) show ?thesis by simp
    qed
    have pp: "key (xs' ! (first + (i - 1) div 2)) \<le> key (xs' ! (first + i))"
      if i: "0 < i" "i < n" "tp \<le> (i - 1) div 2" "i \<noteq> p" "(i - 1) div 2 \<noteq> p" for i
    proof (cases "(i - 1) div 2 = h")
      case True
      then have "i \<noteq> h" using i(1) by linarith
      then show ?thesis using True grand' [OF i(1,2) True] by (simp add: nth)
    next
      case False
      have ih: "i \<noteq> h" using i(5) p_def by auto
      show ?thesis using pairs [OF i(1,2,3) ih False] ih False by (simp add: nth)
    qed
    have gg: "key (xs' ! (first + (p - 1) div 2)) \<le> key (xs' ! (first + d))"
      if d: "p \<noteq> tp" "0 < d" "d < n" "(d - 1) div 2 = p" for d
    proof -
      define q where "q = (p - 1) div 2"
      have p0: "0 < p" "is_desc tp q"
        unfolding q_def using is_desc_parent [OF dp d(1)] by simp_all
      have tq: "tp \<le> q" using p0(2) by (rule is_desc_le)
      have qp: "q < p" unfolding q_def using p0(1) by linarith
      have qh: "q \<noteq> h" using ph qp by simp
      have pn: "p < n" using ph h(1) by simp
      have a: "key (xs ! (first + q)) \<le> key (xs ! (first + p))"
        using pairs [of p] p0(1) pn tq ph qp unfolding q_def by simp
      have "key (xs' ! (first + q)) \<le> key (xs' ! (first + d))"
      proof (cases "d = h")
        case True
        then show ?thesis using a qh by (simp add: nth)
      next
        case False
        then show ?thesis using a sib [OF d(2,3,4) False] qh by (simp add: nth)
      qed
      then show ?thesis by (simp add: q_def)
    qed
    have inv': "hole_inv key first tp n p xs'"
      unfolding hole_inv_def using ph h(1) dp pp gg by auto
    have below': "\<forall>c. 0 < c \<and> c < n \<and> (c - 1) div 2 = p \<longrightarrow> key v \<le> key (xs' ! (first + c))"
    proof (intro allI impI)
      fix c assume c: "0 < c \<and> c < n \<and> (c - 1) div 2 = p"
      show "key v \<le> key (xs' ! (first + c))"
      proof (cases "c = h")
        case True
        then show ?thesis using pv by (simp add: nth)
      next
        case False
        then show ?thesis using pv sib [of c] c by (simp add: nth)
      qed
    qed
    have bound': "first + n \<le> length xs'" using bound by (simp add: xs'_def)
    note IH = less.IH [OF ph inv' below' bound']
    have "mset (xs'[first + p := v]) = mset (xs[first + h := v])"
      unfolding xs'_def using h(1) ph bound by (intro hole_move) simp_all
    moreover have "\<forall>k. k < first \<or> first + n \<le> k \<longrightarrow> xs' ! k = xs ! k"
      unfolding xs'_def using h(1) by auto
    moreover have "length xs' = length xs" by (simp add: xs'_def)
    ultimately show ?thesis
      unfolding eq using IH by simp
  qed
qed


lemma adjust_heap_result:
  fixes key :: "'a \<Rightarrow> nat"
  assumes C: "\<And>a b. cmp a b \<longleftrightarrow> key b < key a"
    and H: "heap_from key first (Suc tp) n xs" and tn: "tp < n" and bound: "first + n \<le> length xs"
  shows "heap_from key first tp n (adjust_heap cmp first tp n v xs) \<and>
     length (adjust_heap cmp first tp n v xs) = length xs \<and>
     mset (adjust_heap cmp first tp n v xs) = mset (xs[first + tp := v]) \<and>
     (\<forall>k. k < first \<or> first + n \<le> k \<longrightarrow> adjust_heap cmp first tp n v xs ! k = xs ! k)"
proof -
  have "\<And>i. 0 < i \<Longrightarrow> tp \<le> (i - 1) div 2 \<Longrightarrow> (i - 1) div 2 \<noteq> tp \<Longrightarrow> Suc tp \<le> (i - 1) div 2"
    by simp
  then have inv0: "hole_inv key first tp n tp xs"
    using H tn by (auto simp add: hole_inv_def heap_from_def intro: is_desc_refl)
  from adjust_heap_loop_result [of cmp key, OF C inv0 bound]
  obtain h ys where r: "adjust_heap_loop cmp first n tp tp xs = (h, h, ys)"
    "\<not> h < (n - 1) div 2" "hole_inv key first tp n h ys" "length ys = length xs"
    "\<forall>v. mset (ys[first + h := v]) = mset (xs[first + tp := v])"
    "\<forall>k. k < first \<or> first + n \<le> k \<longrightarrow> ys ! k = xs ! k"
    by blast
  have hn: "h < n" using r(3) by (simp add: hole_inv_def)
  have boundy: "first + n \<le> length ys" using bound r(4) by simp
  show ?thesis
  proof (cases "n mod 2 = 0 \<and> h = (n - 2) div 2")
    case True
    define c where "c = 2 * (h + 1) - 1"
    define ys' where "ys' = ys[first + h := ys ! (first + c)]"
    have eq: "adjust_heap cmp first tp n v xs = push_heap cmp first c tp v ys'"
      using True by (simp add: adjust_heap_def r(1) Let_def c_def ys'_def)
    have c: "0 < c" "c < n" "(c - 1) div 2 = h" "2 * c + 1 \<ge> n"
      unfolding c_def using True tn by presburger+
    have least: "\<forall>i. 0 < i \<and> i < n \<and> (i - 1) div 2 = h \<longrightarrow>
        key (ys ! (first + c)) \<le> key (ys ! (first + i))"
    proof (intro allI impI)
      fix i assume i: "0 < i \<and> i < n \<and> (i - 1) div 2 = h"
      then have "i = 2 * h + 1 \<or> i = 2 * h + 2" using children by blast
      moreover have "\<not> 2 * h + 2 < n" using True by presburger
      ultimately have "i = c" using i by (simp add: c_def)
      then show "key (ys ! (first + c)) \<le> key (ys ! (first + i))" by simp
    qed
    have inv': "hole_inv key first tp n c ys'"
      unfolding ys'_def using r(3) boundy c(1,2,3) least by (rule hole_down)
    have below: "\<forall>d. 0 < d \<and> d < n \<and> (d - 1) div 2 = c \<longrightarrow> key v \<le> key (ys' ! (first + d))"
    proof (intro allI impI)
      fix d assume d: "0 < d \<and> d < n \<and> (d - 1) div 2 = c"
      then have "d = 2 * c + 1 \<or> d = 2 * c + 2" using children by blast
      then have False using d c(4) by linarith
      then show "key v \<le> key (ys' ! (first + d))" by simp
    qed
    have bound': "first + n \<le> length ys'" using boundy by (simp add: ys'_def)
    note P = push_heap_result [of cmp key first tp n c ys' v, OF C inv' below bound']
    have "mset (ys'[first + c := v]) = mset (ys[first + h := v])"
      unfolding ys'_def using hn c(2) boundy by (intro hole_move) simp_all
    then have ms: "mset (ys'[first + c := v]) = mset (xs[first + tp := v])"
      using r(5) by simp
    have out: "\<forall>k. k < first \<or> first + n \<le> k \<longrightarrow> ys' ! k = xs ! k"
    proof (intro allI impI)
      fix k assume k: "k < first \<or> first + n \<le> k"
      then have "k \<noteq> first + h" using hn by auto
      then have "ys' ! k = ys ! k" by (simp add: ys'_def)
      then show "ys' ! k = xs ! k" using r(6) k by metis
    qed
    have "length ys' = length xs" using r(4) by (simp add: ys'_def)
    then show ?thesis
      unfolding eq using P ms out by simp
  next
    case False
    have eq: "adjust_heap cmp first tp n v xs = push_heap cmp first h tp v ys"
      using False by (auto simp add: adjust_heap_def r(1) Let_def)
    have nochild: "\<not> 2 * h + 1 < n"
      using False r(2) tn by presburger
    have below: "\<forall>d. 0 < d \<and> d < n \<and> (d - 1) div 2 = h \<longrightarrow> key v \<le> key (ys ! (first + d))"
    proof (intro allI impI)
      fix d assume d: "0 < d \<and> d < n \<and> (d - 1) div 2 = h"
      then have "d = 2 * h + 1 \<or> d = 2 * h + 2" using children by blast
      then have False using d nochild by linarith
      then show "key v \<le> key (ys ! (first + d))" by simp
    qed
    note P = push_heap_result [of cmp key first tp n h ys v, OF C r(3) below boundy]
    show ?thesis
      unfolding eq using P r(4,5,6) by simp
  qed
qed


lemma three_parts:
  "a \<le> b \<Longrightarrow> xs = take a xs @ take (b - a) (drop a xs) @ drop b xs"
  by (metis append_take_drop_id drop_drop le_add_diff_inverse2)

lemma range_perm:
  assumes "length ys = length xs" "mset ys = mset xs"
    and "\<forall>k. k < a \<or> b \<le> k \<longrightarrow> ys ! k = xs ! k" and "a \<le> b" "b \<le> length xs"
  shows "mset (take (b - a) (drop a ys)) = mset (take (b - a) (drop a xs))"
proof -
  have t: "take a ys = take a xs"
    using assms(1,3,4,5) by (intro nth_equalityI) simp_all
  have d: "drop b ys = drop b xs"
    using assms(1,3) by (intro nth_equalityI) simp_all
  have "mset ys = mset (take a ys) + mset (take (b - a) (drop a ys)) + mset (drop b ys)"
    using three_parts [OF assms(4), of ys] by (metis mset_append add.assoc)
  moreover have "mset xs = mset (take a xs) + mset (take (b - a) (drop a xs)) + mset (drop b xs)"
    using three_parts [OF assms(4), of xs] by (metis mset_append add.assoc)
  ultimately show ?thesis
    using assms(2) t d by simp
qed

lemma range_elem:
  assumes "length ys = length xs" "mset ys = mset xs"
    and "\<forall>k. k < a \<or> b \<le> k \<longrightarrow> ys ! k = xs ! k" and "a \<le> b" "b \<le> length xs"
    and h: "a \<le> h" "h < b"
  shows "\<exists>h'. a \<le> h' \<and> h' < b \<and> ys ! h = xs ! h'"
proof -
  have "ys ! h = take (b - a) (drop a ys) ! (h - a)"
    using h assms(1,5) by simp
  moreover have "h - a < length (take (b - a) (drop a ys))"
    using h assms(1,5) by simp
  ultimately have "ys ! h \<in> set (take (b - a) (drop a ys))"
    by (metis nth_mem)
  then have "ys ! h \<in> set (take (b - a) (drop a xs))"
    using range_perm [OF assms(1-5)] by (metis set_mset_mset)
  then obtain j where j: "j < length (take (b - a) (drop a xs))"
    "take (b - a) (drop a xs) ! j = ys ! h"
    by (auto simp add: in_set_conv_nth)
  then have "j < b - a" "xs ! (a + j) = ys ! h"
    using assms(5) by simp_all
  then show ?thesis
    by (intro exI [of _ "a + j"]) auto
qed

lemma root_min:
  fixes key :: "'a \<Rightarrow> nat"
  assumes "heap_from key first 0 n xs"
  shows "i < n \<Longrightarrow> key (xs ! first) \<le> key (xs ! (first + i))"
proof (induction i rule: less_induct)
  case (less i)
  show ?case
  proof (cases "i = 0")
    case True
    then show ?thesis by simp
  next
    case False
    then have p: "(i - 1) div 2 < i" by linarith
    then have "key (xs ! first) \<le> key (xs ! (first + (i - 1) div 2))"
      using less by simp
    moreover have "key (xs ! (first + (i - 1) div 2)) \<le> key (xs ! (first + i))"
      using assms False less.prems by (simp add: heap_from_def)
    ultimately show ?thesis by simp
  qed
qed

lemma make_heap_loop_result:
  fixes key :: "'a \<Rightarrow> nat"
  assumes C: "\<And>a b. cmp a b \<longleftrightarrow> key b < key a"
  shows "heap_from key first (Suc p) n xs \<Longrightarrow> p < n \<Longrightarrow> first + n \<le> length xs \<Longrightarrow>
     heap_from key first 0 n (make_heap_loop cmp first n p xs) \<and>
     length (make_heap_loop cmp first n p xs) = length xs \<and>
     mset (make_heap_loop cmp first n p xs) = mset xs \<and>
     (\<forall>k. k < first \<or> first + n \<le> k \<longrightarrow> make_heap_loop cmp first n p xs ! k = xs ! k)"
proof (induction p arbitrary: xs)
  case 0
  from adjust_heap_result [of cmp key first 0 n xs "xs ! first", OF C 0]
  show ?case by simp
next
  case (Suc p)
  define ys where "ys = adjust_heap cmp first (Suc p) n (xs ! (first + Suc p)) xs"
  from adjust_heap_result [of cmp key first "Suc p" n xs "xs ! (first + Suc p)", OF C Suc.prems]
  have a: "heap_from key first (Suc p) n ys" "length ys = length xs" "mset ys = mset xs"
    "\<forall>k. k < first \<or> first + n \<le> k \<longrightarrow> ys ! k = xs ! k"
    by (simp_all add: ys_def)
  have "p < n" "first + n \<le> length ys" using Suc.prems a(2) by simp_all
  from Suc.IH [OF a(1) this] a(2,3,4)
  show ?case by (simp add: ys_def)
qed

lemma make_heap_result:
  fixes key :: "'a \<Rightarrow> nat"
  assumes C: "\<And>a b. cmp a b \<longleftrightarrow> key b < key a"
    and n: "2 \<le> n" "first + n \<le> length xs"
  shows "heap_from key first 0 n (make_heap cmp first (first + n) xs) \<and>
     length (make_heap cmp first (first + n) xs) = length xs \<and>
     mset (make_heap cmp first (first + n) xs) = mset xs \<and>
     (\<forall>k. k < first \<or> first + n \<le> k \<longrightarrow> make_heap cmp first (first + n) xs ! k = xs ! k)"
proof -
  have "\<And>i. 0 < i \<Longrightarrow> i < n \<Longrightarrow> \<not> Suc ((n - 2) div 2) \<le> (i - 1) div 2"
    by linarith
  then have h: "heap_from key first (Suc ((n - 2) div 2)) n xs"
    by (auto simp add: heap_from_def)
  have p: "(n - 2) div 2 < n" using n(1) by linarith
  from make_heap_loop_result [of cmp key first "(n - 2) div 2" n xs, OF C h p n(2)]
  show ?thesis
    using n(1) by (simp add: make_heap_def)
qed

lemma pop_heap_result:
  fixes key :: "'a \<Rightarrow> nat"
  assumes C: "\<And>a b. cmp a b \<longleftrightarrow> key b < key a"
    and H: "heap_from key first 0 (Suc n) xs" and n: "0 < n" "first + n < length xs"
  shows "heap_from key first 0 n (pop_heap cmp first (first + n) (first + n) xs) \<and>
     pop_heap cmp first (first + n) (first + n) xs ! (first + n) = xs ! first \<and>
     length (pop_heap cmp first (first + n) (first + n) xs) = length xs \<and>
     mset (pop_heap cmp first (first + n) (first + n) xs) = mset xs \<and>
     (\<forall>k. k < first \<or> first + n < k \<longrightarrow>
        pop_heap cmp first (first + n) (first + n) xs ! k = xs ! k)"
proof -
  define xs1 where "xs1 = xs[first + n := xs ! first]"
  define ys where "ys = adjust_heap cmp first 0 n (xs ! (first + n)) xs1"
  have eq: "pop_heap cmp first (first + n) (first + n) xs = ys"
    by (simp add: pop_heap_def ys_def xs1_def)
  have nth1: "\<And>j. j < n \<Longrightarrow> xs1 ! (first + j) = xs ! (first + j)"
    by (simp add: xs1_def)
  have "\<And>i. 0 < i \<Longrightarrow> i < n \<Longrightarrow> (i - 1) div 2 < n" by linarith
  then have h1: "heap_from key first (Suc 0) n xs1"
    using H by (auto simp add: heap_from_def nth1)
  have b1: "first + n \<le> length xs1" using n(2) by (simp add: xs1_def)
  from adjust_heap_result [of cmp key first 0 n xs1 "xs ! (first + n)", OF C h1 n(1) b1]
  have a: "heap_from key first 0 n ys" "length ys = length xs1"
    "mset ys = mset (xs1[first := xs ! (first + n)])"
    "\<forall>k. k < first \<or> first + n \<le> k \<longrightarrow> ys ! k = xs1 ! k"
    by (simp_all add: ys_def)
  have "xs1[first := xs ! (first + n)] = xs[first + n := xs ! first, first := xs ! (first + n)]"
    by (simp add: xs1_def)
  moreover have "mset (xs[first + n := xs ! first, first := xs ! (first + n)]) = mset xs"
    using n(2) by (intro mset_swap) simp_all
  ultimately have ms: "mset ys = mset xs" using a(3) by simp
  have last: "ys ! (first + n) = xs ! first"
    using a(4) n(2) by (simp add: xs1_def)
  have out: "\<forall>k. k < first \<or> first + n < k \<longrightarrow> ys ! k = xs ! k"
  proof (intro allI impI)
    fix k assume k: "k < first \<or> first + n < k"
    then have "xs1 ! k = xs ! k" by (auto simp add: xs1_def)
    moreover have "ys ! k = xs1 ! k" using a(4) k by auto
    ultimately show "ys ! k = xs ! k" by simp
  qed
  show ?thesis
    unfolding eq using a(1,2) ms last out by (simp add: xs1_def)
qed


lemma sort_heap_result:
  fixes key :: "'a \<Rightarrow> nat"
  assumes C: "\<And>a b. cmp a b \<longleftrightarrow> key b < key a"
  shows "heap_from key first 0 n xs \<Longrightarrow> 0 < n \<Longrightarrow> first + n \<le> L \<Longrightarrow> L \<le> length xs \<Longrightarrow>
     \<forall>k h. first + n \<le> k \<and> k < L \<and> first \<le> h \<and> h < first + n \<longrightarrow> key (xs ! k) \<le> key (xs ! h) \<Longrightarrow>
     length (sort_heap cmp first (first + n) xs) = length xs \<and>
     mset (sort_heap cmp first (first + n) xs) = mset xs \<and>
     (\<forall>k. k < first \<or> L \<le> k \<longrightarrow> sort_heap cmp first (first + n) xs ! k = xs ! k) \<and>
     (\<forall>k. first < k \<and> k < L \<longrightarrow>
        key (sort_heap cmp first (first + n) xs ! k) \<le> key (sort_heap cmp first (first + n) xs ! first))"
proof (induction n arbitrary: xs)
  case 0
  then show ?case by simp
next
  case (Suc m)
  note H = Suc.prems(1) and L = Suc.prems(3,4) and popped = Suc.prems(5)
  show ?case
  proof (cases "m = 0")
    case True
    then have "sort_heap cmp first (first + Suc m) xs = xs"
      by (subst sort_heap.simps) simp
    moreover have "\<forall>k. first < k \<and> k < L \<longrightarrow> key (xs ! k) \<le> key (xs ! first)"
      using popped True by simp
    ultimately show ?thesis by simp
  next
    case False
    define ys where "ys = pop_heap cmp first (first + m) (first + m) xs"
    have eq: "sort_heap cmp first (first + Suc m) xs = sort_heap cmp first (first + m) ys"
      using False by (subst sort_heap.simps) (simp add: ys_def)
    have m: "0 < m" "first + m < length xs" using False L by simp_all
    from pop_heap_result [of cmp key first m xs, OF C H m]
    have a: "heap_from key first 0 m ys" "ys ! (first + m) = xs ! first"
      "length ys = length xs" "mset ys = mset xs"
      "\<forall>k. k < first \<or> first + m < k \<longrightarrow> ys ! k = xs ! k"
      by (simp_all add: ys_def)
    have out1: "\<forall>k. k < first \<or> first + Suc m \<le> k \<longrightarrow> ys ! k = xs ! k"
      using a(5) by auto
    have b: "first \<le> first + Suc m" "first + Suc m \<le> length xs" using L by simp_all
    have popped': "\<forall>k h. first + m \<le> k \<and> k < L \<and> first \<le> h \<and> h < first + m \<longrightarrow>
        key (ys ! k) \<le> key (ys ! h)"
    proof (intro allI impI)
      fix k h assume kh: "first + m \<le> k \<and> k < L \<and> first \<le> h \<and> h < first + m"
      then have "first \<le> h" "h < first + Suc m" by simp_all
      from range_elem [OF a(3,4) out1 b this]
      obtain h' where h': "first \<le> h'" "h' < first + Suc m" "ys ! h = xs ! h'" by blast
      show "key (ys ! k) \<le> key (ys ! h)"
      proof (cases "k = first + m")
        case True
        have "h' - first < Suc m" using h' by simp
        from root_min [OF H this] show ?thesis
          using True a(2) h' by simp
      next
        case False
        then have "ys ! k = xs ! k" using a(5) kh by simp
        moreover have "key (xs ! k) \<le> key (xs ! h')"
          using popped False kh h' by simp
        ultimately show ?thesis using h'(3) by simp
      qed
    qed
    have L': "first + m \<le> L" "L \<le> length ys" using L a(3) by simp_all
    note IH = Suc.IH [OF a(1) m(1) L' popped']
    have "\<forall>k. k < first \<or> L \<le> k \<longrightarrow> ys ! k = xs ! k"
      using a(5) L by auto
    then show ?thesis
      unfolding eq using IH a(3,4) by simp
  qed
qed

lemma partial_sort_result:
  fixes key :: "'a \<Rightarrow> nat"
  assumes C: "\<And>a b. cmp a b \<longleftrightarrow> key b < key a"
    and n: "2 \<le> n" "first + n \<le> length xs"
  shows "length (partial_sort cmp first (first + n) (first + n) xs) = length xs \<and>
     mset (partial_sort cmp first (first + n) (first + n) xs) = mset xs \<and>
     (\<forall>k. k < first \<or> first + n \<le> k \<longrightarrow>
        partial_sort cmp first (first + n) (first + n) xs ! k = xs ! k) \<and>
     (\<forall>k. first < k \<and> k < first + n \<longrightarrow>
        key (partial_sort cmp first (first + n) (first + n) xs ! k)
          \<le> key (partial_sort cmp first (first + n) (first + n) xs ! first))"
proof -
  define ys where "ys = make_heap cmp first (first + n) xs"
  have eq: "partial_sort cmp first (first + n) (first + n) xs = sort_heap cmp first (first + n) ys"
    by (simp add: partial_sort_def heap_select_def ys_def)
  from make_heap_result [of cmp key n first xs, OF C n]
  have a: "heap_from key first 0 n ys" "length ys = length xs" "mset ys = mset xs"
    "\<forall>k. k < first \<or> first + n \<le> k \<longrightarrow> ys ! k = xs ! k"
    by (simp_all add: ys_def)
  have p: "0 < n" "first + n \<le> first + n" "first + n \<le> length ys"
    using n a(2) by simp_all
  have v: "\<forall>k h. first + n \<le> k \<and> k < first + n \<and> first \<le> h \<and> h < first + n \<longrightarrow>
      key (ys ! k) \<le> key (ys ! h)"
    by simp
  from sort_heap_result [of cmp key first n ys "first + n", OF C a(1) p v]
  show ?thesis
    unfolding eq using a(2,3,4) by simp
qed

text \<open>
  The introsort loop leaves the vector in a state in which every element from position 16
  on has an earlier element that is not after it, which is what the unguarded part of the
  final insertion sort relies on.
\<close>

lemma introsort_loop_result:
  fixes key :: "'a \<Rightarrow> nat"
  assumes C: "\<And>a b. cmp a b \<longleftrightarrow> key b < key a"
  shows "first \<le> lim \<Longrightarrow> lim \<le> length xs \<Longrightarrow>
     \<exists>ys. introsort_loop cmp first lim d xs = Some ys \<and> length ys = length xs \<and>
       mset ys = mset xs \<and> (\<forall>k. k < first \<or> lim \<le> k \<longrightarrow> ys ! k = xs ! k) \<and>
       (\<forall>i. first + S_threshold \<le> i \<and> i < lim \<longrightarrow>
          (\<exists>j. first \<le> j \<and> j < i \<and> key (ys ! i) \<le> key (ys ! j)))"
proof (induction d arbitrary: first lim xs)
  case 0
  show ?case
  proof (cases "lim - first > S_threshold")
    case False
    then have "introsort_loop cmp first lim 0 xs = Some xs"
      by (subst introsort_loop.simps) simp
    then show ?thesis using False by auto
  next
    case True
    define n where "n = lim - first"
    have lim: "lim = first + n" using "0.prems"(1) by (simp add: n_def)
    have n: "2 \<le> n" "first + n \<le> length xs"
      using True "0.prems"(2) by (simp_all add: n_def S_threshold_def)
    have eq: "introsort_loop cmp first lim 0 xs = Some (partial_sort cmp first lim lim xs)"
      using True by (subst introsort_loop.simps) simp
    define ps where "ps = partial_sort cmp first lim lim xs"
    from partial_sort_result [of cmp key n first xs, OF C n]
    have a: "length ps = length xs" "mset ps = mset xs"
      "\<forall>k. k < first \<or> lim \<le> k \<longrightarrow> ps ! k = xs ! k"
      "\<forall>k. first < k \<and> k < lim \<longrightarrow> key (ps ! k) \<le> key (ps ! first)"
      unfolding ps_def lim by simp_all
    have "\<forall>i. first + S_threshold \<le> i \<and> i < lim \<longrightarrow>
        (\<exists>j. first \<le> j \<and> j < i \<and> key (ps ! i) \<le> key (ps ! j))"
      using a(4) by (auto simp add: S_threshold_def intro!: exI [of _ first])
    then show ?thesis
      using eq a(1,2,3) by (simp add: ps_def)
  qed
next
  case (Suc d)
  note fl = Suc.prems
  show ?case
  proof (cases "lim - first > S_threshold")
    case False
    then have "introsort_loop cmp first lim (Suc d) xs = Some xs"
      by (subst introsort_loop.simps) simp
    then show ?thesis using False by auto
  next
    case True
    then have big: "first + 4 \<le> lim" by (simp add: S_threshold_def)
    from unguarded_partition_pivot_result [of cmp key first lim xs, OF C big fl(2)]
    obtain c ys where p: "unguarded_partition_pivot cmp first lim xs = Some (c, ys)"
      "first < c" "c < lim" "length ys = length xs" "mset ys = mset xs"
      "\<forall>k. k < first \<or> lim \<le> k \<longrightarrow> ys ! k = xs ! k"
      "\<forall>l r. first \<le> l \<and> l < c \<and> c \<le> r \<and> r < lim \<longrightarrow> key (ys ! r) \<le> key (ys ! l)"
      by blast
    have c1: "c \<le> lim" "lim \<le> length ys" using p(3,4) fl(2) by simp_all
    from Suc.IH [OF c1]
    obtain zs where z: "introsort_loop cmp c lim d ys = Some zs" "length zs = length ys"
      "mset zs = mset ys" "\<forall>k. k < c \<or> lim \<le> k \<longrightarrow> zs ! k = ys ! k"
      "\<forall>i. c + S_threshold \<le> i \<and> i < lim \<longrightarrow>
          (\<exists>j. c \<le> j \<and> j < i \<and> key (zs ! i) \<le> key (zs ! j))"
      by blast
    have c2: "first \<le> c" "c \<le> length zs" using p(2) c1 z(2) by simp_all
    from Suc.IH [OF c2]
    obtain ws where w: "introsort_loop cmp first c d zs = Some ws" "length ws = length zs"
      "mset ws = mset zs" "\<forall>k. k < first \<or> c \<le> k \<longrightarrow> ws ! k = zs ! k"
      "\<forall>i. first + S_threshold \<le> i \<and> i < c \<longrightarrow>
          (\<exists>j. first \<le> j \<and> j < i \<and> key (ws ! i) \<le> key (ws ! j))"
      by blast
    have eq: "introsort_loop cmp first lim (Suc d) xs = Some ws"
      using True by (subst introsort_loop.simps) (simp add: p(1) z(1) w(1))
    have c2': "c \<le> length ys" using c2(2) z(2) by simp
    have right: "\<exists>r. c \<le> r \<and> r < lim \<and> zs ! i = ys ! r" if "c \<le> i" "i < lim" for i
      using range_elem [OF z(2,3,4) c1 that] by simp
    have left: "\<exists>l. first \<le> l \<and> l < c \<and> ws ! i = ys ! l" if i: "first \<le> i" "i < c" for i
    proof -
      from range_elem [OF w(2,3,4) c2 i]
      obtain l where "first \<le> l" "l < c" "ws ! i = zs ! l" by blast
      then show ?thesis using z(4) by (intro exI [of _ l]) simp
    qed
    have out: "\<forall>k. k < first \<or> lim \<le> k \<longrightarrow> ws ! k = xs ! k"
    proof (intro allI impI)
      fix k assume k: "k < first \<or> lim \<le> k"
      then have "ws ! k = zs ! k" "zs ! k = ys ! k" "ys ! k = xs ! k"
        using w(4) z(4) p(6) p(2,3) by auto
      then show "ws ! k = xs ! k" by simp
    qed
    have pr: "\<exists>j. first \<le> j \<and> j < i \<and> key (ws ! i) \<le> key (ws ! j)"
      if i: "first + S_threshold \<le> i" "i < lim" for i
    proof (cases "i < c")
      case True
      then show ?thesis using w(5) i by simp
    next
      case False
      then have ci: "c \<le> i" by simp
      have wi: "ws ! i = zs ! i" using w(4) ci by simp
      show ?thesis
      proof (cases "c + S_threshold \<le> i")
        case True
        then obtain j where j: "c \<le> j" "j < i" "key (zs ! i) \<le> key (zs ! j)"
          using z(5) i(2) by blast
        then have "ws ! j = zs ! j" using w(4) by simp
        then show ?thesis
          using j wi p(2) by (intro exI [of _ j]) simp
      next
        case False
        obtain r where r: "c \<le> r" "r < lim" "zs ! i = ys ! r"
          using right [OF ci i(2)] by blast
        obtain l where l: "first \<le> l" "l < c" "ws ! first = ys ! l"
          using left [of first] p(2) by auto
        have "key (ys ! r) \<le> key (ys ! l)" using p(7) r l by simp
        then show ?thesis
          using wi r(3) l(3) p(2) ci by (intro exI [of _ first]) simp
      qed
    qed
    show ?thesis
      unfolding eq using w(2) z(2) p(4) w(3) z(3) p(5) out pr by simp
  qed
qed


lemma ins_inv_full:
  assumes "ins_inv Q xs (length xs) ys"
  shows "mset ys = mset xs" "sorted_wrt Q ys"
proof -
  have l: "length ys = length xs" using assms by (simp add: ins_inv_def)
  then have t: "take (length xs) ys = ys" "take (length xs) xs = xs" by simp_all
  show "mset ys = mset xs" "sorted_wrt Q ys"
    using assms unfolding ins_inv_def t by simp_all
qed

lemma std_sort_result:
  fixes key :: "'a \<Rightarrow> nat"
  assumes C: "\<And>a b. cmp a b \<longleftrightarrow> key b < key a"
  shows "\<exists>ys. std_sort cmp xs = Some ys \<and> mset ys = mset xs \<and>
           sorted_wrt (\<lambda>a b. key b \<le> key a) ys"
proof (cases "xs = []")
  case True
  then show ?thesis by (simp add: std_sort_def)
next
  case False
  let ?n = "length xs" and ?Q = "\<lambda>a b. key b \<le> key a"
  from introsort_loop_result [of cmp key 0 ?n xs "lg ?n * 2", OF C]
  obtain ys where y: "introsort_loop cmp 0 ?n (lg ?n * 2) xs = Some ys" "length ys = ?n"
    "mset ys = mset xs"
    "\<forall>i. S_threshold \<le> i \<and> i < ?n \<longrightarrow> (\<exists>j<i. key (ys ! i) \<le> key (ys ! j))"
    by auto
  have eq: "std_sort cmp xs = final_insertion_sort cmp 0 ?n ys"
    using False by (simp add: std_sort_def y(1))
  have Qins: "\<And>m. \<forall>i<m. \<forall>k<i. (key (ys ! i) \<le> key (ys ! k) \<longrightarrow> ?Q (ys ! k) (ys ! i)) \<and>
      (key (ys ! k) < key (ys ! i) \<longrightarrow> ?Q (ys ! i) (ys ! k))"
    by simp
  have "\<exists>zs. final_insertion_sort cmp 0 ?n ys = Some zs \<and> ins_inv ?Q ys ?n zs"
  proof (cases "?n > S_threshold")
    case False
    have "?n \<le> length ys" using y(2) by simp
    from insertion_sort_result [of cmp key ?n ys ?Q, OF C this _ Qins]
    show ?thesis using False by (simp add: final_insertion_sort_def)
  next
    case True
    have "S_threshold \<le> length ys" using True y(2) by simp
    from insertion_sort_result [of cmp key S_threshold ys ?Q, OF C this _ Qins]
    obtain zs where z: "insertion_sort cmp 0 S_threshold ys = Some zs"
      "ins_inv ?Q ys S_threshold zs"
      by auto
    have b: "S_threshold \<le> ?n" "?n \<le> length ys" using True y(2) by simp_all
    have stop: "\<forall>i. S_threshold \<le> i \<and> i < ?n \<longrightarrow> (\<exists>k<i. key (ys ! i) \<le> key (ys ! k))"
      using y(4) by simp
    from unguarded_insertion_sort_result [of cmp key S_threshold ?n ys zs, OF C b z(2) stop]
    show ?thesis using True z(1) by (simp add: final_insertion_sort_def)
  qed
  then obtain zs where z: "final_insertion_sort cmp 0 ?n ys = Some zs" "ins_inv ?Q ys ?n zs"
    by blast
  then have "mset zs = mset ys" "sorted_wrt ?Q zs"
    using y(2) ins_inv_full [of ?Q ys zs] by simp_all
  then show ?thesis
    unfolding eq using z(1) y(3) by simp
qed

lemma std_sort_small:
  fixes key :: "'a \<Rightarrow> nat"
  assumes C: "\<And>a b. cmp a b \<longleftrightarrow> key b < key a"
    and small: "length xs \<le> S_threshold"
    and Qk: "\<And>a b. Q a b \<Longrightarrow> key b \<le> key a"
    and Qins: "\<forall>i<length xs. \<forall>k<i.
        (key (xs ! i) \<le> key (xs ! k) \<longrightarrow> Q (xs ! k) (xs ! i)) \<and>
        (key (xs ! k) < key (xs ! i) \<longrightarrow> Q (xs ! i) (xs ! k))"
  shows "\<exists>ys. std_sort cmp xs = Some ys \<and> mset ys = mset xs \<and> sorted_wrt Q ys"
proof (cases "xs = []")
  case True
  then show ?thesis by (simp add: std_sort_def)
next
  case False
  let ?n = "length xs"
  have "introsort_loop cmp 0 ?n (lg ?n * 2) xs = Some xs"
    using small by (subst introsort_loop.simps) simp
  then have eq: "std_sort cmp xs = insertion_sort cmp 0 ?n xs"
    using False small by (simp add: std_sort_def final_insertion_sort_def)
  from insertion_sort_result [of cmp key ?n xs Q, OF C _ Qk Qins]
  obtain ys where "insertion_sort cmp 0 ?n xs = Some ys" "ins_inv Q xs ?n ys"
    by auto
  then show ?thesis
    unfolding eq using ins_inv_full [of Q xs ys] by simp
qed

text \<open>
  For every volume array the sort of lines 146 to 152 returns, and what it returns
  satisfies the contract \<open>std_sort_desc\<close>. With at most 16 hosts only the insertion sort
  runs, and it keeps hosts of equal volume in their decoded order.
\<close>

lemma sort_permutation_result:
  "\<exists>p. sort_permutation sizes = Some p \<and> std_sort_desc sizes p \<and>
       (length sizes \<le> S_threshold \<longrightarrow> ties_keep_order sizes p)"
proof -
  let ?cmp = "\<lambda>lhs rhs. sizes ! lhs > sizes ! rhs" and ?key = "\<lambda>i. sizes ! i"
  let ?n = "length sizes"
  have C: "\<And>a b. ?cmp a b \<longleftrightarrow> ?key b < ?key a" by simp
  from std_sort_result [of ?cmp ?key "[0..<?n]", OF C]
  obtain p where p: "std_sort ?cmp [0..<?n] = Some p" "mset p = mset [0..<?n]"
    "sorted_wrt (\<lambda>a b. ?key b \<le> ?key a) p"
    by blast
  have len: "length p = ?n" using p(2) by (metis length_upt mset_eq_length minus_nat.diff_0)
  have dist: "distinct p" using p(2) by (metis distinct_upt mset_eq_imp_distinct_iff)
  have rng: "\<forall>i \<in> set p. i < ?n" using p(2) by (metis mset_eq_setD atLeastLessThan_iff set_upt)
  have "sorted_wrt (\<lambda>a b. \<not> sizes ! b > sizes ! a) p"
    using p(3) by (simp add: not_less)
  then have contract: "std_sort_desc sizes p"
    using len dist rng by (simp add: std_sort_desc_def)
  have ties: "ties_keep_order sizes p" if small: "?n \<le> S_threshold"
  proof -
    let ?R = "\<lambda>a b. ?key b < ?key a \<or> (?key a = ?key b \<and> a < b)"
    have s: "length [0..<?n] \<le> S_threshold" using small by simp
    have Qk: "\<And>a b. ?R a b \<Longrightarrow> ?key b \<le> ?key a" by auto
    have Qins: "\<forall>i<length [0..<?n]. \<forall>k<i.
        (?key ([0..<?n] ! i) \<le> ?key ([0..<?n] ! k) \<longrightarrow> ?R ([0..<?n] ! k) ([0..<?n] ! i)) \<and>
        (?key ([0..<?n] ! k) < ?key ([0..<?n] ! i) \<longrightarrow> ?R ([0..<?n] ! i) ([0..<?n] ! k))"
      by auto
    from std_sort_small [of ?cmp ?key "[0..<?n]" ?R, OF C s Qk Qins]
    have "sorted_wrt ?R p" using p(1) by auto
    then have "\<And>i j. i < j \<Longrightarrow> j < length p \<Longrightarrow> ?R (p ! i) (p ! j)"
      by (simp add: sorted_wrt_iff_nth_less)
    then show ?thesis
      unfolding ties_keep_order_def by (metis less_irrefl)
  qed
  show ?thesis
    using p(1) contract ties by (simp add: sort_permutation_def)
qed

text \<open>
  The vectors \<open>p\<close> of the examples above, \<open>[0]\<close> for one host and \<open>[0, 1]\<close> for two
  hosts decoded in order of non-increasing volume, are the ones that the library sort
  returns.
\<close>

lemma sort_permutation_one: "sort_permutation [a] = Some [0]"
  by (simp add: sort_permutation_def std_sort_def introsort_loop.simps S_threshold_def
      final_insertion_sort_def insertion_sort_def)

lemma sort_permutation_two: "b \<le> a \<Longrightarrow> sort_permutation [a, b] = Some [0, 1]"
  by (simp add: sort_permutation_def std_sort_def introsort_loop.simps S_threshold_def
      final_insertion_sort_def insertion_sort_def insertion_step_def
      unguarded_linear_insert_def upt_rec)

subsection \<open>Order of the hosts\<close>

text \<open>
  Seventeen hosts of volume 1 each. The partitioning step of the library sort exchanges
  elements that compare equal, and the decoded order is lost.
\<close>

lemma eval_cols_17:
  "nodal_recv_nodes example_wide cols_17 = [1, 2, 3, 4, 5, 6, 7, 8, 9, 10, 11, 12, 13, 14, 15, 16, 17]"
  "nodal_off_node_sizes example_wide cols_17 = [1, 1, 1, 1, 1, 1, 1, 1, 1, 1, 1, 1, 1, 1, 1, 1, 1]"
  by code_simp+

lemma sort_17:
  "sort_permutation [1, 1, 1, 1, 1, 1, 1, 1, 1, 1, 1, 1, 1, 1, 1, 1, 1] =
     Some [8, 16, 15, 14, 13, 12, 11, 10, 9, 0, 7, 6, 5, 4, 3, 2, 1]"
  "std_sort_desc [1, 1, 1, 1, 1, 1, 1, 1, 1, 1, 1, 1, 1, 1, 1, 1, 1]
     [8, 16, 15, 14, 13, 12, 11, 10, 9, 0, 7, 6, 5, 4, 3, 2, 1]"
  "\<not> ties_keep_order [1, 1, 1, 1, 1, 1, 1, 1, 1, 1, 1, 1, 1, 1, 1, 1, 1]
     [8, 16, 15, 14, 13, 12, 11, 10, 9, 0, 7, 6, 5, 4, 3, 2, 1]"
  by code_simp+

lemma gather_cols_17:
  "gather_off_node_nodes example_wide cols_17
     [8, 16, 15, 14, 13, 12, 11, 10, 9, 0, 7, 6, 5, 4, 3, 2, 1] [] =
     Some ([9, 17, 16, 15, 14, 13, 12, 11, 10, 1, 8, 7, 6, 5, 4, 3, 2],
           [1, 1, 1, 1, 1, 1, 1, 1, 1, 1, 1, 1, 1, 1, 1, 1, 1])"
proof -
  have s: "std_sort_desc (nodal_off_node_sizes example_wide cols_17)
             [8, 16, 15, 14, 13, 12, 11, 10, 9, 0, 7, 6, 5, 4, 3, 2, 1]"
    unfolding eval_cols_17 by (rule sort_17)
  show ?thesis
    unfolding gather_result [OF s] eval_cols_17
    by (simp add: assigned_fan_out_def example_wide_def upt_rec)
qed

text \<open>
  C9, as claimed: hosts of equal volume keep their decoded order. For the seventeen hosts
  1 to 17 of volume 1 each, \<^verbatim>\<open>std::sort\<close> returns the vector
  \<open>8, 16, 15, ..., 9, 0, 7, ..., 1\<close>, and the function returns the hosts in the order
  \<open>9, 17, 16, ..., 10, 1, 8, ..., 2\<close>.
\<close>

theorem sort_reorders_equal_hosts:
  "nodal_recv_nodes example_wide cols_17 =
     [1, 2, 3, 4, 5, 6, 7, 8, 9, 10, 11, 12, 13, 14, 15, 16, 17] \<and>
   nodal_off_node_sizes example_wide cols_17 =
     [1, 1, 1, 1, 1, 1, 1, 1, 1, 1, 1, 1, 1, 1, 1, 1, 1] \<and>
   sort_permutation (nodal_off_node_sizes example_wide cols_17) =
     Some [8, 16, 15, 14, 13, 12, 11, 10, 9, 0, 7, 6, 5, 4, 3, 2, 1] \<and>
   \<not> ties_keep_order (nodal_off_node_sizes example_wide cols_17)
       [8, 16, 15, 14, 13, 12, 11, 10, 9, 0, 7, 6, 5, 4, 3, 2, 1] \<and>
   gather_off_node_nodes_libstdcxx example_wide cols_17 [] =
     Some ([9, 17, 16, 15, 14, 13, 12, 11, 10, 1, 8, 7, 6, 5, 4, 3, 2],
           [1, 1, 1, 1, 1, 1, 1, 1, 1, 1, 1, 1, 1, 1, 1, 1, 1])"
  unfolding gather_off_node_nodes_libstdcxx_def eval_cols_17 sort_17(1)
  using sort_17(3) gather_cols_17 by simp

text \<open>
  The reduced volume at position \<open>k\<close> is the aggregate volume of the host decoded at
  position \<open>k\<close>.
\<close>

lemma mark_sizes:
  "node < length sz \<Longrightarrow>
   length (snd (fold mark_step cols (bm, sz))) = length sz \<and>
   snd (fold mark_step cols (bm, sz)) ! node = sz ! node + count_list cols node"
proof (induction cols arbitrary: bm sz)
  case Nil
  show ?case by simp
next
  case (Cons x cols)
  let ?bm = "bm[x div int_size := bm ! (x div int_size) OR push_bit (x mod int_size) 1]"
  let ?sz = "sz[x := sz ! x + 1]"
  have step: "fold mark_step (x # cols) (bm, sz) = fold mark_step cols (?bm, ?sz)"
    by (simp add: mark_step_def Let_def)
  have n: "node < length ?sz" using Cons.prems by simp
  note IH = Cons.IH [OF n, of ?bm]
  have "?sz ! node = sz ! node + (if x = node then 1 else 0)"
    using Cons.prems by (simp add: nth_list_update)
  then show ?case
    unfolding step using IH by simp
qed

lemma sizes_are_volumes:
  assumes N: "\<forall>cols \<in> set local_cols. \<forall>node \<in> set cols. node < num_nodes c"
    and k: "k < length (nodal_recv_nodes c local_cols)"
  shows "nodal_off_node_sizes c local_cols ! k =
           host_volume local_cols (nodal_recv_nodes c local_cols ! k)"
proof -
  let ?rn = "nodal_recv_nodes c local_cols"
  have "?rn ! k \<in> set ?rn" using k by simp
  then have b: "?rn ! k < num_nodes c"
    using N nodal_recv_nodes_union [OF N] by auto
  have m: "\<And>cols. snd (mark_nodes c cols) ! (?rn ! k) = count_list cols (?rn ! k)"
    using mark_sizes [of "?rn ! k" "replicate (num_nodes c) 0"] b
    by (simp add: mark_nodes_def)
  have "nodal_off_node_sizes c local_cols ! k =
          sum_list (map (\<lambda>cols. snd (mark_nodes c cols) ! (?rn ! k)) local_cols)"
    using k by (simp add: nodal_off_node_sizes_def allreduce_sum_def Let_def comp_def)
  then show ?thesis
    by (simp add: host_volume_def m)
qed

text \<open>
  What the function returns for a vector \<open>p\<close> that satisfies the contract of
  \<^verbatim>\<open>std::sort\<close>: every host that a process of the calling host needs, each once, in
  an order along which the aggregate volume never increases.
\<close>

lemma hosts_order_of_contract:
  assumes S: "std_sort_desc (nodal_off_node_sizes c local_cols) p"
    and N: "\<forall>cols \<in> set local_cols. \<forall>node \<in> set cols. node < num_nodes c"
  shows "\<exists>recv_nodes nl.
           gather_off_node_nodes c local_cols p [] = Some (recv_nodes, nl) \<and>
           recv_nodes = map (\<lambda>k. nodal_recv_nodes c local_cols ! (p ! k)) [0..<length p] \<and>
           distinct recv_nodes \<and> set recv_nodes = \<Union> (set ` set local_cols) \<and>
           (\<forall>i j. i < j \<and> j < length recv_nodes \<longrightarrow>
              host_volume local_cols (recv_nodes ! j) \<le> host_volume local_cols (recv_nodes ! i))"
proof -
  let ?rn = "nodal_recv_nodes c local_cols"
  let ?sizes = "nodal_off_node_sizes c local_cols"
  let ?out = "map (\<lambda>k. ?rn ! (p ! k)) [0..<length p]"
  have perm: "is_permutation p" using S by (rule std_sort_desc_permutation)
  have lp: "length ?rn = length p"
    using S by (simp add: std_sort_desc_def length_nodal_off_node_sizes)
  have out: "?out = reorder_by_copy p ?rn"
    by (simp add: reorder_by_copy_def)
  have ms: "mset ?out = mset ?rn"
    unfolding out using perm lp by (rule reorder_by_copy_mset)
  have "distinct ?rn"
    using decode_nodes_sorted [of "bitmap_len c"]
    by (simp add: nodal_recv_nodes_def strict_sorted_iff)
  then have d: "distinct ?out"
    using ms by (metis mset_eq_imp_distinct_iff)
  have st: "set ?out = \<Union> (set ` set local_cols)"
    using ms nodal_recv_nodes_union [OF N] by (metis set_mset_mset)
  have srt: "\<forall>i j. i < j \<and> j < length ?out \<longrightarrow>
      host_volume local_cols (?out ! j) \<le> host_volume local_cols (?out ! i)"
  proof (intro allI impI)
    fix i j assume h: "i < j \<and> j < length ?out"
    then have ij: "i < length p" "j < length p" "i \<le> j" by simp_all
    have pi: "p ! i < length ?rn" "p ! j < length ?rn"
      using perm_nth_less [OF perm] ij lp by simp_all
    have "?sizes ! (p ! j) \<le> ?sizes ! (p ! i)"
      using S ij(3,2) by (rule std_sort_desc_nth)
    then show "host_volume local_cols (?out ! j) \<le> host_volume local_cols (?out ! i)"
      using ij pi by (simp add: sizes_are_volumes [OF N])
  qed
  show ?thesis
    unfolding gather_result [OF S] using d st srt by blast
qed

text \<open>Two hosts of volume 2 each.\<close>

lemma eval_cols_2_2:
  "nodal_off_node_sizes example_small cols_2_2 = [2, 2]"
  "sort_permutation [2, 2] = Some [0, 1]"
  "std_sort_desc (nodal_off_node_sizes example_small cols_2_2) [0, 1]"
  "nodal_recv_nodes example_small cols_2_2 = [1, 5]"
  by code_simp+

lemma gather_cols_2_2:
  "gather_off_node_nodes_libstdcxx example_small cols_2_2 [] = Some ([1, 5], [2, 2])"
proof -
  have "gather_off_node_nodes example_small cols_2_2 [0, 1] [] = Some ([1, 5], [2, 2])"
    unfolding gather_result [OF eval_cols_2_2(3)] eval_cols_2_2
    by (simp add: assigned_fan_out_def example_small_def upt_rec)
  then show ?thesis
    unfolding gather_off_node_nodes_libstdcxx_def eval_cols_2_2(1,2) by simp
qed

text \<open>
  C9, amended: for host ids below \<open>num_nodes\<close>, the function, with the sort of the GNU
  library, returns every host that a process of the calling host needs, each once, in an
  order along which the aggregate volume never increases. When at most 16 hosts are
  returned, hosts of equal volume keep their decoded order, which is the order of their
  ids. For more than 16 hosts that is not so.
\<close>

theorem hosts_sorted_by_volume:
  assumes N: "\<forall>cols \<in> set local_cols. \<forall>node \<in> set cols. node < num_nodes c"
  shows "\<exists>recv_nodes nl.
           gather_off_node_nodes_libstdcxx c local_cols [] = Some (recv_nodes, nl) \<and>
           distinct recv_nodes \<and> set recv_nodes = \<Union> (set ` set local_cols) \<and>
           (\<forall>i j. i < j \<and> j < length recv_nodes \<longrightarrow>
              host_volume local_cols (recv_nodes ! j) \<le> host_volume local_cols (recv_nodes ! i)) \<and>
           (length recv_nodes \<le> 16 \<longrightarrow>
              (\<forall>i j. i < j \<and> j < length recv_nodes \<and>
                 host_volume local_cols (recv_nodes ! i) = host_volume local_cols (recv_nodes ! j)
                 \<longrightarrow> recv_nodes ! i < recv_nodes ! j))"
proof -
  let ?rn = "nodal_recv_nodes c local_cols"
  let ?sizes = "nodal_off_node_sizes c local_cols"
  from sort_permutation_result [of ?sizes]
  obtain p where p: "sort_permutation ?sizes = Some p" "std_sort_desc ?sizes p"
    "length ?sizes \<le> S_threshold \<longrightarrow> ties_keep_order ?sizes p"
    by blast
  from hosts_order_of_contract [OF p(2) N]
  obtain recv_nodes nl where g: "gather_off_node_nodes c local_cols p [] = Some (recv_nodes, nl)"
    "recv_nodes = map (\<lambda>k. ?rn ! (p ! k)) [0..<length p]"
    "distinct recv_nodes" "set recv_nodes = \<Union> (set ` set local_cols)"
    "\<forall>i j. i < j \<and> j < length recv_nodes \<longrightarrow>
       host_volume local_cols (recv_nodes ! j) \<le> host_volume local_cols (recv_nodes ! i)"
    by blast
  have perm: "is_permutation p" using p(2) by (rule std_sort_desc_permutation)
  have lp: "length ?rn = length p" "length ?sizes = length p"
    using p(2) by (simp_all add: std_sort_desc_def length_nodal_off_node_sizes)
  have inc: "sorted_wrt (<) ?rn"
    using decode_nodes_sorted [of "bitmap_len c"] by (simp add: nodal_recv_nodes_def)
  have ties: "recv_nodes ! i < recv_nodes ! j"
    if small: "length recv_nodes \<le> 16" and ij: "i < j" "j < length recv_nodes"
      and eq: "host_volume local_cols (recv_nodes ! i) = host_volume local_cols (recv_nodes ! j)"
    for i j
  proof -
    have l: "i < length p" "j < length p" using ij g(2) by simp_all
    have pi: "p ! i < length ?rn" "p ! j < length ?rn"
      using perm_nth_less [OF perm] l lp by simp_all
    have "?sizes ! (p ! i) = ?sizes ! (p ! j)"
      using eq l pi by (simp add: g(2) sizes_are_volumes [OF N])
    moreover have "ties_keep_order ?sizes p"
      using p(3) small lp g(2) by (simp add: S_threshold_def)
    ultimately have "p ! i < p ! j"
      using l ij(1) by (simp add: ties_keep_order_def)
    then have "?rn ! (p ! i) < ?rn ! (p ! j)"
      using inc pi(2) by (simp add: sorted_wrt_nth_less)
    then show ?thesis using l by (simp add: g(2))
  qed
  have "gather_off_node_nodes_libstdcxx c local_cols [] = Some (recv_nodes, nl)"
    using p(1) g(1) by (simp add: gather_off_node_nodes_libstdcxx_def)
  then show ?thesis
    using g(3,4,5) ties by blast
qed

theorem hosts_sorted_by_volume_witness:
  "gather_off_node_nodes_libstdcxx example_small cols_2_2 [] = Some ([1, 5], [2, 2]) \<and>
   host_volume cols_2_2 1 = 2 \<and> host_volume cols_2_2 5 = 2 \<and>
   [1, 5 :: nat] ! 0 < [1, 5] ! 1"
proof -
  have n: "\<forall>cols \<in> set cols_2_2. \<forall>node \<in> set cols. node < num_nodes example_small"
    by (simp add: cols_2_2_def example_small_def)
  have v: "host_volume cols_2_2 1 = 2" "host_volume cols_2_2 5 = 2"
    by (simp_all add: host_volume_def cols_2_2_def)
  have "[1, 5 :: nat] ! 0 < [1, 5] ! 1"
    using hosts_sorted_by_volume [OF n] unfolding gather_cols_2_2
    by (auto simp add: v dest!: spec [of _ 0])
  then show ?thesis
    using gather_cols_2_2 v by simp
qed

end
